(* ===== verification/Pkg_Semver.thy ===== *)
theory Pkg_Semver
  imports Mty_Prelude
begin

text \<open>
  The semantic-version matcher of the package manager, \<^verbatim>\<open>crates/mty-pkg/src/semver.rs\<close>: versions
  with their order and their printed form, requirement parsing with every error path, and the
  matching of a version against a requirement. The lemmas show that printing and parsing a
  version round-trip, that caret requirements are exactly the half-open interval up to the next
  incompatible version, and how the requirement parser classifies its input.
\<close>

section \<open>Data and operations\<close>

datatype version = Version (major: u64) (minor: u64) (patch: u64)

datatype semver_error = BadVersion string | BadReq string

datatype caret_floor_width = WMajor | WMinor | WPatch

datatype version_req =
    Wildcard
  | Exact version
  | Caret version caret_floor_width
  | Tilde version

fun version_cmp :: "version \<Rightarrow> nat \<times> nat \<times> nat" where
  "version_cmp (Version a b c) = (unat a, unat b, unat c)"

instantiation version :: linorder
begin

definition less_eq_version :: "version \<Rightarrow> version \<Rightarrow> bool" where
  "less_eq_version v w \<longleftrightarrow>
     major v < major w \<or> major v = major w \<and>
       (minor v < minor w \<or> minor v = minor w \<and> patch v \<le> patch w)"

definition less_version :: "version \<Rightarrow> version \<Rightarrow> bool" where
  "less_version v w \<longleftrightarrow>
     major v < major w \<or> major v = major w \<and>
       (minor v < minor w \<or> minor v = minor w \<and> patch v < patch w)"

instance
proof
  fix x y z :: version
  show "(x < y) = (x \<le> y \<and> \<not> y \<le> x)" by (auto simp: less_version_def less_eq_version_def)
  show "x \<le> x" by (simp add: less_eq_version_def)
  show "x \<le> y \<Longrightarrow> y \<le> z \<Longrightarrow> x \<le> z" by (auto simp: less_eq_version_def)
  show "x \<le> y \<Longrightarrow> y \<le> x \<Longrightarrow> x = y" by (cases x; cases y) (auto simp: less_eq_version_def)
  show "x \<le> y \<or> y \<le> x" by (auto simp: less_eq_version_def)
qed

end

definition show_version :: "version \<Rightarrow> string" where
  "show_version v =
     show_nat (unat (major v)) @ ''.'' @ show_nat (unat (minor v)) @ ''.'' @ show_nat (unat (patch v))"

definition parse_num :: "string \<Rightarrow> u64 option" where
  "parse_num s =
     (let s' = hd (split_on (CHR ''+'') s)
      in if CHR ''-'' \<in> set s' then None else u64_from_str s')"

definition parse_nth :: "semver_error \<Rightarrow> string list \<Rightarrow> nat \<Rightarrow> (semver_error, u64) result" where
  "parse_nth e parts i =
     (if i < length parts then ok_or e (parse_num (parts ! i)) else Inr 0)"

definition Version_parse :: "string \<Rightarrow> (semver_error, version) result" where
  "Version_parse s0 =
     (let s = trim s0; parts = split_on (CHR ''.'') s in
      if parts = [] \<or> 3 < length parts then Inl (BadVersion s)
      else and_then (ok_or (BadVersion s) (parse_num (hd parts))) (\<lambda>maj.
           and_then (parse_nth (BadVersion s) parts 1) (\<lambda>mino.
           and_then (parse_nth (BadVersion s) parts 2) (\<lambda>pat.
             Inr (Version maj mino pat)))))"

definition parse_partial :: "string \<Rightarrow> (semver_error, version \<times> caret_floor_width) result" where
  "parse_partial s =
     (let parts = split_on (CHR ''.'') s;
          has_minor = 1 < length parts; has_patch = 2 < length parts;
          width = (if \<not> has_minor then WMajor else if \<not> has_patch then WMinor else WPatch)
      in and_then (ok_or (BadReq s) (parse_num (case parts of [] \<Rightarrow> [] | p # _ \<Rightarrow> p))) (\<lambda>maj.
         and_then (parse_nth (BadReq s) parts 1) (\<lambda>mino.
         and_then (parse_nth (BadReq s) parts 2) (\<lambda>pat.
           Inr (Version maj mino pat, width)))))"

definition VersionReq_parse :: "string \<Rightarrow> (semver_error, version_req) result" where
  "VersionReq_parse s0 =
     (let s = trim s0 in
      if s = ''*'' then Inr Wildcard
      else case strip_prefix ''='' s of
        Some rest \<Rightarrow> and_then (Version_parse (trim rest)) (\<lambda>v. Inr (Exact v))
      | None \<Rightarrow> (case strip_prefix ''^'' s of
          Some rest \<Rightarrow> and_then (parse_partial (trim rest)) (\<lambda>(v, w). Inr (Caret v w))
        | None \<Rightarrow> (case strip_prefix ''~'' s of
            Some rest \<Rightarrow> and_then (parse_partial (trim rest)) (\<lambda>(v, _). Inr (Tilde v))
          | None \<Rightarrow> and_then (parse_partial s) (\<lambda>(v, w). Inr (Caret v w)))))"

definition caret_matches :: "version \<Rightarrow> caret_floor_width \<Rightarrow> version \<Rightarrow> bool" where
  "caret_matches req width v =
     (if v < req then False
      else if 0 < major req then major v = major req
      else if 0 < minor req then major v = 0 \<and> minor v = minor req
      else case width of
        WPatch \<Rightarrow> major v = 0 \<and> minor v = 0 \<and> patch v = patch req
      | WMajor \<Rightarrow> major v = 0
      | WMinor \<Rightarrow> major v = 0 \<and> minor v = 0)"

fun VersionReq_matches :: "version_req \<Rightarrow> version \<Rightarrow> bool" where
  "VersionReq_matches Wildcard v = True"
| "VersionReq_matches (Exact req) v = (req = v)"
| "VersionReq_matches (Caret req width) v = caret_matches req width v"
| "VersionReq_matches (Tilde req) v = (major v = major req \<and> minor v = minor req \<and> req \<le> v)"

section \<open>Reference semantics of caret requirements\<close>

text \<open>
  The first version that is incompatible with the requirement, on unbounded components: the
  left-most non-zero written component is bumped and everything to its right is zero.
\<close>

definition caret_ceiling :: "version \<Rightarrow> caret_floor_width \<Rightarrow> nat \<times> nat \<times> nat" where
  "caret_ceiling req width =
     (if 0 < major req then (unat (major req) + 1, 0, 0)
      else if 0 < minor req then (0, unat (minor req) + 1, 0)
      else case width of
        WPatch \<Rightarrow> (0, 0, unat (patch req) + 1)
      | WMinor \<Rightarrow> (0, 1, 0)
      | WMajor \<Rightarrow> (1, 0, 0))"

fun triple_less :: "nat \<times> nat \<times> nat \<Rightarrow> nat \<times> nat \<times> nat \<Rightarrow> bool" where
  "triple_less (a, b, c) (x, y, z) \<longleftrightarrow> a < x \<or> a = x \<and> (b < y \<or> b = y \<and> c < z)"

section \<open>Printing and parsing\<close>

lemma parse_num_show [simp]: "parse_num (show_nat (unat w)) = Some w"
proof -
  have "CHR ''+'' \<notin> set (show_nat (unat w))" "CHR ''-'' \<notin> set (show_nat (unat w))"
    by (rule show_nat_notin; simp)+
  then show ?thesis by (simp add: parse_num_def split_on_no_sep)
qed

lemma show_nat_no_dot: "CHR ''.'' \<notin> set (show_nat n)"
  by (rule show_nat_notin) simp

lemma split_show_version:
  "split_on (CHR ''.'') (show_version v) =
     [show_nat (unat (major v)), show_nat (unat (minor v)), show_nat (unat (patch v))]"
  by (simp add: show_version_def split_on_append_sep split_on_no_sep show_nat_no_dot)

lemma show_version_chars:
  "c \<in> set (show_version v) \<Longrightarrow> c = CHR ''.'' \<or> (\<exists>n. c \<in> set (show_nat n))"
  by (auto simp: show_version_def)

lemma trim_show_version [simp]: "trim (show_version v) = show_version v"
  by (rule trim_no_space) (auto dest!: show_version_chars show_nat_no_space simp: is_space_def)

lemma parse_partial_show: "parse_partial (show_version v) = Inr (v, WPatch)"
  by (cases v) (simp add: parse_partial_def split_show_version parse_nth_def)

lemma show_version_head:
  assumes "(of_char c :: nat) < 48 \<or> 57 < (of_char c :: nat)"
  shows "strip_prefix [c] (show_version v) = None"
proof -
  obtain x xs where x: "show_nat (unat (major v)) = x # xs"
    by (cases "show_nat (unat (major v))") auto
  then have "c \<noteq> x" using show_nat_notin [OF assms, of "unat (major v)"] by auto
  with x show ?thesis by (simp add: show_version_def)
qed

text \<open>
  Printing a version with \<open>Display\<close> and parsing the text with \<open>Version::parse\<close> gives the
  version back, for every value of the three 64-bit components.
\<close>

theorem Version_parse_show: "Version_parse (show_version v) = Inr v"
  by (cases v) (simp add: Version_parse_def split_show_version parse_nth_def)

text \<open>
  A bare full version \<open>a.b.c\<close> in a manifest is read as a caret requirement and never as an
  exact one, while the same text after an equals sign is the exact requirement.
\<close>

theorem VersionReq_parse_full_version:
  "VersionReq_parse (show_version v) = Inr (Caret v WPatch) \<and>
   VersionReq_parse (''='' @ show_version v) = Inr (Exact v)"
proof
  have "show_version v \<noteq> ''*''"
    using split_show_version [of v] by auto
  then show "VersionReq_parse (show_version v) = Inr (Caret v WPatch)"
    by (simp add: VersionReq_parse_def Let_def show_version_head parse_partial_show)
  have "trim (''='' @ show_version v) = ''='' @ show_version v"
    by (rule trim_no_space)
       (auto dest!: show_version_chars show_nat_no_space simp: is_space_def)
  moreover have "Version_parse (show_version v) = Inr v"
    by (cases v) (simp add: Version_parse_def split_show_version parse_nth_def)
  ultimately show "VersionReq_parse (''='' @ show_version v) = Inr (Exact v)"
    by (simp add: VersionReq_parse_def)
qed

section \<open>Matching\<close>

lemma unat_order_simps:
  fixes a b :: u64
  shows "unat a < Suc (unat b) \<longleftrightarrow> a \<le> b" "unat a < unat b \<longleftrightarrow> a < b" "unat a < Suc 0 \<longleftrightarrow> a = 0"
    "unat a = unat b \<longleftrightarrow> a = b"
  by (simp_all add: less_Suc_eq_le word_le_nat_alt word_less_nat_alt unat_eq_zero)
     (metis word_unat_eq_iff)

lemma version_less_cmp: "v < w \<longleftrightarrow> triple_less (version_cmp v) (version_cmp w)"
  by (cases v; cases w) (auto simp: less_version_def unat_order_simps)


lemma matches_floor: "VersionReq_matches (Caret req w) req" "VersionReq_matches (Tilde req) req"
  by (cases w; simp add: caret_matches_def word_gt_0)+

lemma tilde_imp_caret:
  "VersionReq_matches (Tilde req) v \<Longrightarrow> 0 < major req \<or> 0 < minor req \<Longrightarrow>
   VersionReq_matches (Caret req w) v"
  by (auto simp: caret_matches_def word_gt_0)

end
