(* ===== verification/Mty_Store.thy ===== *)
theory Mty_Store
  imports Mty_Prelude
begin

text \<open>
  The keyed-store interface: what a client of a lockfile, a registry table or an ordered map of
  the Rust standard library relies on. The laws are stated once in the locale \<open>keyed_store\<close> and
  its consequences for sequences of updates are proved there; every provider interprets it. The
  theory also holds the model of \<open>BTreeMap\<close>, a key-sorted association list, and its
  interpretation.
\<close>

section \<open>The interface\<close>

locale keyed_store =
  fixes inv :: "'s \<Rightarrow> bool"
    and emp :: 's
    and look :: "'s \<Rightarrow> 'k \<Rightarrow> 'p option"
    and put :: "'s \<Rightarrow> 'p \<Rightarrow> 's"
    and del :: "'s \<Rightarrow> 'k \<Rightarrow> 's"
    and key :: "'p \<Rightarrow> 'k"
  assumes inv_emp: "inv emp"
    and look_emp: "look emp k = None"
    and inv_put: "inv s \<Longrightarrow> inv (put s p)"
    and look_put: "inv s \<Longrightarrow> look (put s p) k = (if k = key p then Some p else look s k)"
    and inv_del: "inv s \<Longrightarrow> inv (del s k)"
    and look_del: "inv s \<Longrightarrow> look (del s k) j = (if j = k then None else look s j)"
    and look_key: "look s k = Some p \<Longrightarrow> key p = k"
begin

lemma inv_put_all: "inv s \<Longrightarrow> inv (foldl put s ps)"
  by (induction ps arbitrary: s) (auto simp: inv_put)

lemma look_put_all:
  "inv s \<Longrightarrow> look (foldl put s ps) k =
     (case List.find (\<lambda>p. key p = k) (rev ps) of Some p \<Rightarrow> Some p | None \<Rightarrow> look s k)"
proof (induction ps rule: rev_induct)
  case (snoc p ps)
  then show ?case by (auto simp: look_put inv_put_all)
qed simp

lemma look_put_all_mem:
  assumes "inv s" "distinct (map key ps)" "p \<in> set ps"
  shows "look (foldl put s ps) (key p) = Some p"
proof -
  have d: "inj_on key (set ps)" using assms(2) by (simp add: distinct_map)
  have "List.find (\<lambda>q. key q = key p) (rev ps) = Some p"
  proof (cases "List.find (\<lambda>q. key q = key p) (rev ps)")
    case None
    with assms(3) show ?thesis by (auto simp: find_None_iff)
  next
    case (Some q)
    then have "q \<in> set ps" "key q = key p" using find_SomeD [OF Some] by auto
    with d assms(3) Some show ?thesis by (auto dest: inj_onD)
  qed
  with assms(1) show ?thesis by (simp add: look_put_all)
qed

lemma look_put_all_dom:
  "inv s \<Longrightarrow> look (foldl put s ps) k \<noteq> None \<longleftrightarrow> k \<in> key ` set ps \<or> look s k \<noteq> None"
  by (auto simp: look_put_all find_None_iff split: option.splits dest!: find_SomeD)

lemma put_commute:
  "inv s \<Longrightarrow> key p \<noteq> key q \<Longrightarrow> look (put (put s p) q) = look (put (put s q) p)"
  by (auto simp: look_put inv_put fun_eq_iff)

lemma del_put: "inv s \<Longrightarrow> look (del (put s p) (key p)) = look (del s (key p))"
  by (auto simp: look_put look_del inv_put fun_eq_iff)

end

section \<open>Ordered maps of the Rust standard library\<close>

fun bt_insert :: "('k :: linorder \<times> 'v) list \<Rightarrow> 'k \<times> 'v \<Rightarrow> ('k \<times> 'v) list" where
  "bt_insert [] kv = [kv]"
| "bt_insert (x # xs) kv =
     (if fst kv < fst x then kv # x # xs
      else if fst kv = fst x then kv # xs
      else x # bt_insert xs kv)"

definition bt_get :: "('k :: linorder \<times> 'v) list \<Rightarrow> 'k \<Rightarrow> ('k \<times> 'v) option" where
  "bt_get m k = List.find (\<lambda>p. fst p = k) m"

definition bt_remove :: "('k :: linorder \<times> 'v) list \<Rightarrow> 'k \<Rightarrow> ('k \<times> 'v) list" where
  "bt_remove m k = filter (\<lambda>p. fst p \<noteq> k) m"

definition bt_inv :: "('k :: linorder \<times> 'v) list \<Rightarrow> bool" where
  "bt_inv m \<longleftrightarrow> sorted (map fst m) \<and> distinct (map fst m)"

lemma bt_get_map_of: "bt_get m k = map_option (Pair k) (map_of m k)"
  unfolding bt_get_def by (induction m) auto

lemma set_fst_bt_insert: "fst ` set (bt_insert m kv) = insert (fst kv) (fst ` set m)"
  by (induction m kv rule: bt_insert.induct) auto

lemma bt_inv_insert: "bt_inv m \<Longrightarrow> bt_inv (bt_insert m kv)"
  unfolding bt_inv_def
proof (induction m kv rule: bt_insert.induct)
  case (2 x xs kv)
  then show ?case
    by (auto simp: set_fst_bt_insert)
qed simp

lemma bt_get_insert:
  "bt_inv m \<Longrightarrow> bt_get (bt_insert m kv) k = (if k = fst kv then Some kv else bt_get m k)"
  unfolding bt_inv_def bt_get_def
  by (induction m kv rule: bt_insert.induct) (auto simp: find_None_iff)

lemma bt_inv_remove: "bt_inv m \<Longrightarrow> bt_inv (bt_remove m k)"
  unfolding bt_inv_def bt_remove_def by (auto simp: sorted_filter distinct_map_filter)

lemma bt_get_remove: "bt_get (bt_remove m k) j = (if j = k then None else bt_get m j)"
  unfolding bt_get_def bt_remove_def by (induction m) auto

lemma bt_get_key: "bt_get m k = Some p \<Longrightarrow> fst p = k"
  unfolding bt_get_def by (auto dest: find_SomeD)

interpretation bt: keyed_store bt_inv "[]" bt_get bt_insert bt_remove fst
proof unfold_locales
  show "bt_inv []" by (simp add: bt_inv_def)
  show "bt_get [] k = None" for k :: 'a by (simp add: bt_get_def)
qed (auto simp: bt_inv_insert bt_get_insert bt_inv_remove bt_get_remove
       dest: bt_get_key)

end
