(* ===== verification/Pkg_Lockfile.thy ===== *)
theory Pkg_Lockfile
  imports Mty_Store
begin

text \<open>
  The lockfile of the package manager, \<^verbatim>\<open>crates/mty-pkg/src/lockfile.rs\<close>: the in-memory table of
  locked packages and the source strings it stores. The lockfile implements the keyed-store
  interface: a lookup after an upsert or a removal is the lookup of a finite map, and the rows
  stay sorted by package name with at most one row per name.
\<close>

record locked_package =
  lp_name :: string
  lp_version :: string
  lp_source :: string
  lp_hash :: "string option"
  lp_dependencies :: "string list"

record lockfile =
  lf_version :: u32
  lf_packages :: "locked_package list"

definition SCHEMA_VERSION :: u32 where
  "SCHEMA_VERSION = 1"

definition Lockfile_new :: lockfile where
  "Lockfile_new = \<lparr>lf_version = SCHEMA_VERSION, lf_packages = []\<rparr>"

definition Lockfile_find :: "lockfile \<Rightarrow> string \<Rightarrow> locked_package option" where
  "Lockfile_find l n = List.find (\<lambda>p. lp_name p = n) (lf_packages l)"

fun replace_first :: "('a \<Rightarrow> bool) \<Rightarrow> 'a \<Rightarrow> 'a list \<Rightarrow> 'a list" where
  "replace_first P y [] = []"
| "replace_first P y (x # xs) = (if P x then y # xs else x # replace_first P y xs)"

definition Lockfile_upsert :: "lockfile \<Rightarrow> locked_package \<Rightarrow> lockfile" where
  "Lockfile_upsert l pkg =
     (let ps = (case List.find (\<lambda>p. lp_name p = lp_name pkg) (lf_packages l) of
                  Some _ \<Rightarrow> replace_first (\<lambda>p. lp_name p = lp_name pkg) pkg (lf_packages l)
                | None \<Rightarrow> lf_packages l @ [pkg])
      in l\<lparr>lf_packages := sort_key lp_name ps\<rparr>)"

definition Lockfile_remove :: "lockfile \<Rightarrow> string \<Rightarrow> lockfile \<times> bool" where
  "Lockfile_remove l n =
     (let ps = filter (\<lambda>p. lp_name p \<noteq> n) (lf_packages l)
      in (l\<lparr>lf_packages := ps\<rparr>, length ps < length (lf_packages l)))"

definition registry_source :: "string \<Rightarrow> string" where
  "registry_source registry = ''registry+'' @ registry"

definition path_source :: "string \<Rightarrow> string" where
  "path_source path =
     (let p = map (\<lambda>c. if c = CHR 0x5C then CHR ''/'' else c) path
      in ''path+file:///'' @ dropWhile (\<lambda>c. c = CHR ''/'') p)"

definition git_source :: "string \<Rightarrow> string option \<Rightarrow> string" where
  "git_source url rv =
     (case rv of Some r \<Rightarrow> ''git+'' @ url @ ''#'' @ r | None \<Rightarrow> ''git+'' @ url)"

datatype lockfile_error = UnsupportedVersion u32 u32

definition Lockfile_check_version :: "lockfile \<Rightarrow> (lockfile_error, lockfile) result" where
  "Lockfile_check_version lock =
     (if lf_version lock \<noteq> SCHEMA_VERSION
      then Inl (UnsupportedVersion (lf_version lock) SCHEMA_VERSION) else Inr lock)"

definition lockfile_inv :: "lockfile \<Rightarrow> bool" where
  "lockfile_inv l \<longleftrightarrow>
     sorted (map lp_name (lf_packages l)) \<and> distinct (map lp_name (lf_packages l))"

section \<open>The rows after an update\<close>

lemma find_replace_first:
  "lp_name pkg \<in> lp_name ` set ps \<Longrightarrow>
   List.find (\<lambda>p. lp_name p = k) (replace_first (\<lambda>p. lp_name p = lp_name pkg) pkg ps) =
     (if k = lp_name pkg then Some pkg else List.find (\<lambda>p. lp_name p = k) ps)"
  by (induction ps) auto

lemma names_replace_first:
  "map lp_name (replace_first (\<lambda>p. lp_name p = lp_name pkg) pkg ps) = map lp_name ps"
  by (induction ps) auto

lemma find_upsert:
  "Lockfile_find (Lockfile_upsert l p) k = (if k = lp_name p then Some p else Lockfile_find l k)"
proof (cases "List.find (\<lambda>q. lp_name q = lp_name p) (lf_packages l)")
  case None
  then show ?thesis
    by (auto simp: Lockfile_find_def Lockfile_upsert_def find_sort_key find_append
        split: option.splits)
next
  case (Some q)
  then have "lp_name p \<in> lp_name ` set (lf_packages l)"
    using find_SomeD [OF Some] by (metis imageI)
  with Some show ?thesis
    by (simp add: Lockfile_find_def Lockfile_upsert_def find_sort_key find_replace_first)
qed

lemma inv_upsert: "lockfile_inv l \<Longrightarrow> lockfile_inv (Lockfile_upsert l p)"
  by (auto simp: lockfile_inv_def Lockfile_upsert_def Let_def distinct_map_sort_key
      names_replace_first find_None_iff split: option.splits)

lemma find_remove:
  "Lockfile_find (fst (Lockfile_remove l n)) k = (if k = n then None else Lockfile_find l k)"
  by (simp add: Lockfile_find_def Lockfile_remove_def Let_def find_filter_neq)

lemma inv_remove: "lockfile_inv l \<Longrightarrow> lockfile_inv (fst (Lockfile_remove l n))"
  by (auto simp: lockfile_inv_def Lockfile_remove_def Let_def sorted_filter distinct_map_filter)

lemma remove_flag: "snd (Lockfile_remove l n) \<longleftrightarrow> Lockfile_find l n \<noteq> None"
proof -
  have "length (filter P xs) < length xs \<longleftrightarrow> (\<exists>x \<in> set xs. \<not> P x)"
    for P and xs :: "locked_package list"
    using filter_decreases [of xs P] by (metis filter_True less_irrefl)
  then show ?thesis
    by (auto simp: Lockfile_remove_def Let_def Lockfile_find_def find_None_iff)
qed

lemma find_key: "Lockfile_find l k = Some p \<Longrightarrow> lp_name p = k"
  unfolding Lockfile_find_def by (auto dest: find_SomeD)

interpretation lock: keyed_store lockfile_inv Lockfile_new Lockfile_find Lockfile_upsert
  "\<lambda>l n. fst (Lockfile_remove l n)" lp_name
proof unfold_locales
  show "lockfile_inv Lockfile_new" by (simp add: lockfile_inv_def Lockfile_new_def)
  show "Lockfile_find Lockfile_new k = None" for k
    by (simp add: Lockfile_find_def Lockfile_new_def)
qed (auto simp: inv_upsert find_upsert inv_remove find_remove dest: find_key)

text \<open>
  C39. The lockfile is a finite map: after an upsert the new row is found under its name and every
  other name is looked up as before; after a removal that name is absent, the others are
  unchanged, and the reported flag says whether the name was present. Both operations keep the
  rows sorted by name with one row per name.
\<close>

theorem lockfile_updates:
  assumes "lockfile_inv l"
  shows "Lockfile_find (Lockfile_upsert l p) k = (if k = lp_name p then Some p else Lockfile_find l k)
    \<and> Lockfile_find (fst (Lockfile_remove l n)) k = (if k = n then None else Lockfile_find l k)
    \<and> (snd (Lockfile_remove l n) \<longleftrightarrow> Lockfile_find l n \<noteq> None)
    \<and> lockfile_inv (Lockfile_upsert l p) \<and> lockfile_inv (fst (Lockfile_remove l n))"
  using lock.look_put [OF assms] lock.look_del [OF assms] lock.inv_put [OF assms]
    lock.inv_del [OF assms] remove_flag by blast

text \<open>A concrete lockfile: one row is inserted into the empty table and found again.\<close>

definition example_row :: locked_package where
  "example_row = \<lparr>lp_name = ''json'', lp_version = ''1.2.0'', lp_source = ''registry+r'',
     lp_hash = None, lp_dependencies = []\<rparr>"

theorem lockfile_updates_witness:
  "lockfile_inv Lockfile_new \<and>
   Lockfile_find (Lockfile_upsert Lockfile_new example_row) ''json'' = Some example_row"
  using lockfile_updates [OF lock.inv_emp, of example_row "''json''"] lock.inv_emp
  by (simp add: example_row_def)

end
