(* ===== verification/Pkg_Resolver.thy ===== *)
theory Pkg_Resolver
  imports Pkg_Semver Pkg_Lockfile
begin

text \<open>
  The greedy dependency resolver, \<^verbatim>\<open>crates/mty-pkg/src/resolver.rs\<close>, with the registry index and tag
  helpers of \<^verbatim>\<open>registry.rs\<close> and the dependency table of the driver's \<^verbatim>\<open>manifest.rs\<close> it reads. The
  file system, the TOML manifest loader and the JSON index cache are outside the crate and are
  fields of the resolver's environment. The recursion over path dependencies carries fuel; with
  finitely many dependency names the fuel of one more than their number is enough.
\<close>

section \<open>Manifests and registries\<close>

record detailed_dep =
  dd_version :: "string option"
  dd_path :: "string option"
  dd_git :: "string option"
  dd_rev :: "string option"
  dd_hash :: "string option"

datatype dep = DepVersion string | Detailed detailed_dep

datatype dep_source_kind = Registry | Path | Git

fun dep_version :: "dep \<Rightarrow> string option" where
  "dep_version (DepVersion v) = Some v"
| "dep_version (Detailed d) = dd_version d"

fun dep_path :: "dep \<Rightarrow> string option" where
  "dep_path (DepVersion _) = None"
| "dep_path (Detailed d) = dd_path d"

fun dep_git :: "dep \<Rightarrow> string option" where
  "dep_git (DepVersion _) = None"
| "dep_git (Detailed d) = dd_git d"

fun dep_rev :: "dep \<Rightarrow> string option" where
  "dep_rev (DepVersion _) = None"
| "dep_rev (Detailed d) = dd_rev d"

fun source_kind :: "dep \<Rightarrow> dep_source_kind" where
  "source_kind (DepVersion _) = Registry"
| "source_kind (Detailed d) =
     (if dd_path d \<noteq> None then Path else if dd_git d \<noteq> None then Git else Registry)"

record manifest =
  pkg_name :: string
  pkg_version :: string
  deps :: "(string \<times> dep) list"

record registry_release =
  rel_name :: string
  rel_version :: string
  rel_tag :: string
  rel_tarball_url :: "string option"
  rel_sha256_url :: "string option"
  rel_html_url :: "string option"
  rel_body_preview :: "string option"

record registry_index =
  idx_slug :: string
  idx_fetched_at :: u64
  idx_last_modified :: "string option"
  releases :: "registry_release list"

record signing_config =
  sc_mode :: "string option"
  sc_oidc_issuer :: "string option"

record registry_config =
  rc_default :: "string option"
  rc_extras :: "string list"
  rc_signing :: signing_config

definition DEFAULT_REGISTRY_SLUG :: string where
  "DEFAULT_REGISTRY_SLUG = ''mighty-pkg/registry''"

definition INDEX_TTL_SECS :: u64 where
  "INDEX_TTL_SECS = 60 * 60"

fun dedup :: "'a list \<Rightarrow> 'a list \<Rightarrow> 'a list" where
  "dedup seen [] = []"
| "dedup seen (x # xs) = (if x \<in> set seen then dedup seen xs else x # dedup (x # seen) xs)"

definition slugs :: "registry_config \<Rightarrow> string list" where
  "slugs c = dedup []
     ((case rc_default c of Some d \<Rightarrow> d | None \<Rightarrow> DEFAULT_REGISTRY_SLUG) # rc_extras c)"

definition is_stale :: "registry_index \<Rightarrow> u64 \<Rightarrow> bool" where
  "is_stale idx now =
     (INDEX_TTL_SECS < (if now \<le> idx_fetched_at idx then 0 else now - idx_fetched_at idx))"

definition versions_for :: "registry_index \<Rightarrow> string \<Rightarrow> string list" where
  "versions_for idx n = map rel_version (filter (\<lambda>r. rel_name r = n) (releases idx))"

definition parse_slug :: "string \<Rightarrow> (string, string \<times> string) result" where
  "parse_slug slug =
     (let parts = split_on (CHR ''/'') slug in
      if length parts \<noteq> 2 \<or> parts ! 0 = [] \<or> parts ! 1 = [] then Inl slug
      else Inr (parts ! 0, parts ! 1))"

definition gh_source :: "string \<Rightarrow> string" where
  "gh_source slug = ''registry+gh://'' @ slug"

definition slug_from_source :: "string \<Rightarrow> string option" where
  "slug_from_source source = strip_prefix ''registry+gh://'' source"

definition make_tag :: "string \<Rightarrow> string \<Rightarrow> string" where
  "make_tag n v = n @ ''-'' @ v"

definition is_ascii_digit :: "char \<Rightarrow> bool" where
  "is_ascii_digit c \<longleftrightarrow> digit_val c \<noteq> None"

definition tag_break :: "string \<Rightarrow> nat \<Rightarrow> bool" where
  "tag_break tag i \<longleftrightarrow>
     tag ! i = CHR ''-'' \<and> i + 1 < length tag \<and> is_ascii_digit (tag ! (i + 1))"

definition split_tag :: "string \<Rightarrow> (string \<times> string) option" where
  "split_tag tag =
     (case List.find (tag_break tag) (rev [0..<length tag]) of
        None \<Rightarrow> None
      | Some i \<Rightarrow>
          (let n = take i tag; v = drop (i + 1) tag
           in if n = [] \<or> v = [] then None else Some (n, v)))"

section \<open>The resolver\<close>

datatype resolve_error =
    ManifestError string string
  | Semver string semver_error
  | VersionConflict string string string string
  | AmbiguousSource string
  | EmptySource string
  | PathMissing string string

record chosen_dep =
  ch_version :: version
  ch_source :: string
  ch_dependencies :: "string list"

record resolver =
  rs_root :: string
  registries :: registry_config
  injected_indexes :: "registry_index list"
  fs_exists :: "string \<Rightarrow> bool"
  load_manifest :: "string \<Rightarrow> (string, manifest) result"
  load_cached_index :: "string \<Rightarrow> registry_index option"

definition MANIFEST_NAME :: string where
  "MANIFEST_NAME = ''mighty.toml''"

definition path_join :: "string \<Rightarrow> string \<Rightarrow> string" where
  "path_join base rel =
     (if starts_with rel ''/'' then rel
      else if base = [] \<or> ends_with base ''/'' then base @ rel
      else base @ ''/'' @ rel)"

definition zero_version :: version where
  "zero_version = Version 0 0 0"

definition keep_best :: "version_req \<Rightarrow> version option \<Rightarrow> string \<Rightarrow> version option" where
  "keep_best req best vstr =
     (case Version_parse vstr of
        Inl _ \<Rightarrow> best
      | Inr v \<Rightarrow>
          if VersionReq_matches req v \<and> (case best of None \<Rightarrow> True | Some b \<Rightarrow> b < v)
          then Some v else best)"

definition highest_matching ::
  "registry_index \<Rightarrow> string \<Rightarrow> version_req \<Rightarrow> version option" where
  "highest_matching idx n req = foldl (keep_best req) None (versions_for idx n)"

definition lookup_in_registry ::
  "resolver \<Rightarrow> string \<Rightarrow> string \<Rightarrow> version_req \<Rightarrow> (version \<times> string) option" where
  "lookup_in_registry r slug n req =
     (case List.find (\<lambda>i. idx_slug i = slug) (injected_indexes r) of
        Some idx \<Rightarrow> map_option (\<lambda>v. (v, slug)) (highest_matching idx n req)
      | None \<Rightarrow>
          (case load_cached_index r slug of
             None \<Rightarrow> None
           | Some idx \<Rightarrow> map_option (\<lambda>v. (v, slug)) (highest_matching idx n req)))"

fun lookup_slugs ::
  "resolver \<Rightarrow> string list \<Rightarrow> string \<Rightarrow> version_req \<Rightarrow> (version \<times> string) option" where
  "lookup_slugs r [] n req = None"
| "lookup_slugs r (s # ss) n req =
     (case lookup_in_registry r s n req of
        Some (v, _) \<Rightarrow> Some (v, s)
      | None \<Rightarrow> lookup_slugs r ss n req)"

fun requirement_floor :: "version_req \<Rightarrow> version" where
  "requirement_floor Wildcard = zero_version"
| "requirement_floor (Exact v) = v"
| "requirement_floor (Caret v _) = v"
| "requirement_floor (Tilde v) = v"

fun validate_dep :: "string \<Rightarrow> dep \<Rightarrow> (resolve_error, unit) result" where
  "validate_dep n d =
     (if dep_path d \<noteq> None \<and> dep_git d \<noteq> None then Inl (AmbiguousSource n)
      else case d of
        Detailed dd \<Rightarrow>
          if dd_version dd = None \<and> dd_path dd = None \<and> dd_git dd = None
          then Inl (EmptySource n) else Inr ()
      | DepVersion _ \<Rightarrow> Inr ())"

fun map_err :: "('e \<Rightarrow> 'f) \<Rightarrow> ('e, 'a) result \<Rightarrow> ('f, 'a) result" where
  "map_err f (Inl e) = Inl (f e)"
| "map_err f (Inr a) = Inr a"

definition resolve_path ::
  "resolver \<Rightarrow> string \<Rightarrow> string \<Rightarrow> string \<Rightarrow>
   (resolve_error, version \<times> string \<times> string option) result" where
  "resolve_path r n rel root =
     (let ab = path_join root rel; star = path_join ab MANIFEST_NAME in
      if \<not> fs_exists r ab then Inl (PathMissing n ab)
      else and_then
        (if fs_exists r star
         then and_then (map_err (ManifestError n) (load_manifest r star)) (\<lambda>sub.
                map_err (Semver n) (Version_parse (pkg_version sub)))
         else Inr zero_version)
        (\<lambda>v. Inr (v, path_source ab, Some ab)))"

definition resolve_registry ::
  "resolver \<Rightarrow> string \<Rightarrow> dep \<Rightarrow> (resolve_error, version \<times> string \<times> string option) result" where
  "resolve_registry r n d =
     and_then (map_err (Semver n)
         (VersionReq_parse (case dep_version d of Some v \<Rightarrow> v | None \<Rightarrow> ''*''))) (\<lambda>req.
       case lookup_slugs r (slugs (registries r)) n req of
         Some (v, s) \<Rightarrow> Inr (v, gh_source s, None)
       | None \<Rightarrow>
           Inr (requirement_floor req,
                gh_source (case slugs (registries r) of [] \<Rightarrow> DEFAULT_REGISTRY_SLUG | s # _ \<Rightarrow> s),
                None))"

definition resolve_one ::
  "resolver \<Rightarrow> string \<Rightarrow> dep \<Rightarrow> dep_source_kind \<Rightarrow> string \<Rightarrow>
   (resolve_error, version \<times> string \<times> string option) result" where
  "resolve_one r n d kind root =
     (case kind of
        Path \<Rightarrow> resolve_path r n (the (dep_path d)) root
      | Git \<Rightarrow> Inr (zero_version, git_source (the (dep_git d)) (dep_rev d), None)
      | Registry \<Rightarrow> resolve_registry r n d)"

type_synonym chosen_map = "(string \<times> chosen_dep) list"
type_synonym walk_state = "chosen_map \<times> string set"

definition enter_dep ::
  "resolver \<Rightarrow> string \<Rightarrow> string \<times> dep \<Rightarrow> string \<Rightarrow> walk_state \<Rightarrow>
   (resolve_error, walk_state \<times> (manifest \<times> string) option) result" where
  "enter_dep r requestor nd root st =
     (case (nd, st) of ((n, d), (chosen, visited)) \<Rightarrow>
      and_then (validate_dep n d) (\<lambda>_.
      and_then (resolve_one r n d (source_kind d) root) (\<lambda>(v, src, dir).
      case bt_get chosen n of
        Some (_, ex) \<Rightarrow>
          if ch_version ex \<noteq> v
          then Inl (VersionConflict n (show_version (ch_version ex)) requestor (show_version v))
          else Inr ((chosen, visited), None)
      | None \<Rightarrow>
          let chosen1 = bt_insert chosen (n, \<lparr>ch_version = v, ch_source = src, ch_dependencies = []\<rparr>);
              st1 = (chosen1, insert n visited)
          in if n \<in> visited then Inr ((chosen1, visited), None)
             else case dir of
               None \<Rightarrow> Inr (st1, None)
             | Some dr \<Rightarrow>
                 if \<not> fs_exists r (path_join dr MANIFEST_NAME) then Inr (st1, None)
                 else and_then (map_err (ManifestError n) (load_manifest r (path_join dr MANIFEST_NAME)))
                   (\<lambda>sub.
                     Inr ((bt_insert chosen1 (n, \<lparr>ch_version = v, ch_source = src,
                             ch_dependencies = map fst (deps sub)\<rparr>), insert n visited),
                          Some (sub, dr))))))"

fun walk_deps ::
  "resolver \<Rightarrow> nat \<Rightarrow> string \<Rightarrow> (string \<times> dep) list \<Rightarrow> string \<Rightarrow> walk_state \<Rightarrow>
   (resolve_error, walk_state) result option" where
  "walk_deps r fuel requestor [] root st = Some (Inr st)"
| "walk_deps r fuel requestor (nd # ds) root st =
     (case enter_dep r requestor nd root st of
        Inl e \<Rightarrow> Some (Inl e)
      | Inr (st1, None) \<Rightarrow> walk_deps r fuel requestor ds root st1
      | Inr (st1, Some (sub, dr)) \<Rightarrow>
          (case fuel of
             0 \<Rightarrow> None
           | Suc f \<Rightarrow>
               (case walk_deps r f (pkg_name sub) (deps sub) dr st1 of
                  None \<Rightarrow> None
                | Some (Inl e) \<Rightarrow> Some (Inl e)
                | Some (Inr st2) \<Rightarrow> walk_deps r fuel requestor ds root st2)))"

definition locked_of :: "string \<times> chosen_dep \<Rightarrow> locked_package" where
  "locked_of nc = \<lparr>lp_name = fst nc, lp_version = show_version (ch_version (snd nc)),
     lp_source = ch_source (snd nc), lp_hash = None,
     lp_dependencies = ch_dependencies (snd nc)\<rparr>"

definition resolve :: "resolver \<Rightarrow> nat \<Rightarrow> manifest \<Rightarrow> (resolve_error, lockfile) result option" where
  "resolve r fuel m =
     map_option (\<lambda>res. and_then res (\<lambda>(chosen, _).
        Inr (foldl Lockfile_upsert Lockfile_new (map locked_of chosen))))
       (walk_deps r fuel (pkg_name m) (deps m) (rs_root r) ([], {}))"

section \<open>Choosing a version\<close>

definition candidates :: "version_req \<Rightarrow> string list \<Rightarrow> version set" where
  "candidates req vs = {v. (\<exists>s \<in> set vs. Version_parse s = Inr v) \<and> VersionReq_matches req v}"

lemma candidates_snoc:
  "candidates req (vs @ [s]) =
     (case Version_parse s of
        Inl _ \<Rightarrow> candidates req vs
      | Inr v \<Rightarrow> if VersionReq_matches req v then insert v (candidates req vs) else candidates req vs)"
  by (auto simp: candidates_def split: sum.splits)

lemma finite_candidates: "finite (candidates req vs)"
  by (induction vs rule: rev_induct)
     (auto simp: candidates_snoc split: sum.splits, simp add: candidates_def)

lemma foldl_keep_best:
  "foldl (keep_best req) None vs =
     (if candidates req vs = {} then None else Some (Max (candidates req vs)))"
proof (induction vs rule: rev_induct)
  case Nil
  then show ?case by (simp add: candidates_def)
next
  case (snoc s vs)
  let ?S = "candidates req vs"
  show ?case
  proof (cases "Version_parse s")
    case (Inr v)
    have mx: "max v M = (if M < v then v else M)" for M :: version
      by (auto simp: max_def)
    have "Max (insert v ?S) = (if Max ?S < v then v else Max ?S)" if "?S \<noteq> {}"
      unfolding Max_insert [OF finite_candidates that] by (rule mx)
    with snoc Inr show ?thesis
      by (cases "VersionReq_matches req v"; cases "?S = {}") (auto simp: keep_best_def candidates_snoc)
  next
    case (Inl e)
    then have "keep_best req b s = b" for b by (simp add: keep_best_def)
    with snoc Inl show ?thesis by (simp add: candidates_snoc)
  qed
qed

text \<open>
  C37. \<open>highest_matching\<close> returns the greatest version of the index that parses and satisfies the
  requirement, and nothing exactly when no release of that name qualifies.
\<close>

theorem highest_matching_greatest:
  "highest_matching idx n req =
     (let S = candidates req (versions_for idx n) in if S = {} then None else Some (Max S))"
  by (simp add: highest_matching_def foldl_keep_best Let_def)

lemma highest_matching_matches:
  "highest_matching idx n req = Some v \<Longrightarrow> VersionReq_matches req v"
  using Max_in [OF finite_candidates, of req "versions_for idx n"]
  by (auto simp: highest_matching_def foldl_keep_best candidates_def split: if_splits)

lemma lookup_slugs_matches:
  "lookup_slugs r ss n req = Some (v, s) \<Longrightarrow> VersionReq_matches req v \<and> s \<in> set ss"
  by (induction ss)
     (auto simp: lookup_in_registry_def highest_matching_matches split: option.splits)

lemma requirement_floor_matches: "VersionReq_matches req (requirement_floor req)"
  using matches_floor by (cases req) auto

lemma resolve_registry_matches:
  assumes "resolve_registry r n d = Inr (v, src, dir)"
  shows "dir = None \<and> (\<exists>req. VersionReq_parse (case dep_version d of Some v \<Rightarrow> v | None \<Rightarrow> ''*'') = Inr req
           \<and> VersionReq_matches req v)"
proof -
  let ?p = "VersionReq_parse (case dep_version d of Some v \<Rightarrow> v | None \<Rightarrow> ''*'')"
  obtain req where "?p = Inr req"
    using assms unfolding resolve_registry_def by (cases ?p) auto
  with assms show ?thesis
    by (auto simp: resolve_registry_def requirement_floor_matches
        dest: lookup_slugs_matches split: option.splits)
qed

section \<open>The walk\<close>

definition chosen_le :: "chosen_map \<Rightarrow> chosen_map \<Rightarrow> bool" where
  "chosen_le c c' \<longleftrightarrow>
     (\<forall>n x. bt_get c n = Some x \<longrightarrow> (\<exists>y. bt_get c' n = Some y \<and> ch_version (snd y) = ch_version (snd x)))"

lemma chosen_le_refl [simp]: "chosen_le c c"
  by (simp add: chosen_le_def)

lemma chosen_le_trans: "chosen_le a b \<Longrightarrow> chosen_le b c \<Longrightarrow> chosen_le a c"
  unfolding chosen_le_def by metis

lemma chosen_le_insert: "bt_inv c \<Longrightarrow> bt_get c n = None \<Longrightarrow> chosen_le c (bt_insert c (n, x))"
  by (auto simp: chosen_le_def bt.look_put)

definition picked :: "resolver \<Rightarrow> string \<Rightarrow> chosen_map \<Rightarrow> string \<times> dep \<Rightarrow> bool" where
  "picked r root c nd \<longleftrightarrow>
     (\<exists>v src dir x. resolve_one r (fst nd) (snd nd) (source_kind (snd nd)) root = Inr (v, src, dir)
        \<and> bt_get c (fst nd) = Some x \<and> ch_version (snd x) = v)"

lemma picked_mono: "picked r root c nd \<Longrightarrow> chosen_le c c' \<Longrightarrow> picked r root c' nd"
  unfolding picked_def chosen_le_def by metis

lemma enter_dep_Inr:
  assumes "enter_dep r q nd root (c, vis) = Inr ((c1, vis1), sub)" "bt_inv c"
  shows "bt_inv c1 \<and> chosen_le c c1 \<and> picked r root c1 nd \<and> vis \<subseteq> vis1
    \<and> (sub \<noteq> None \<longrightarrow> fst nd \<notin> vis \<and> vis1 = insert (fst nd) vis)
    \<and> (\<forall>m dr. sub = Some (m, dr) \<longrightarrow> load_manifest r (path_join dr MANIFEST_NAME) = Inr m)"
proof -
  obtain n d where nd: "nd = (n, d)" by (cases nd)
  obtain v src dir where one: "resolve_one r n d (source_kind d) root = Inr (v, src, dir)"
    using assms(1) unfolding enter_dep_def nd
    by (cases "resolve_one r n d (source_kind d) root") (auto simp: nd)
  show ?thesis
  proof (cases "bt_get c n")
    case None
    let ?ins = "\<lambda>x. bt_insert c (n, x)"
    have ins: "bt_insert (?ins x) (n, y) = ?ins y" for x y
      by (induction c "(n, x)" rule: bt_insert.induct) auto
    have "\<exists>x. c1 = ?ins x \<and> ch_version x = v"
      using assms(1) one None unfolding enter_dep_def nd
      by (auto simp: Let_def ins split: if_splits option.splits sum.splits)
    then obtain x where x: "c1 = ?ins x" "ch_version x = v" by blast
    moreover have "vis \<subseteq> vis1 \<and> (sub \<noteq> None \<longrightarrow> n \<notin> vis \<and> vis1 = insert n vis)
        \<and> (\<forall>m dr. sub = Some (m, dr) \<longrightarrow> load_manifest r (path_join dr MANIFEST_NAME) = Inr m)"
      using assms(1) one None unfolding enter_dep_def nd
      by (cases "load_manifest r (path_join (the dir) MANIFEST_NAME)")
         (auto simp: Let_def split: if_splits option.splits sum.splits)
    ultimately show ?thesis
      using assms(2) None one
      by (auto simp: nd picked_def bt.inv_put bt.look_put chosen_le_insert)
  next
    case (Some x)
    with assms one show ?thesis
      unfolding enter_dep_def nd
      by (auto simp: picked_def split: if_splits prod.splits)
  qed
qed

lemma walk_deps_Inr:
  assumes "walk_deps r fuel q ds root (c, vis) = Some (Inr (c', vis'))" "bt_inv c"
  shows "bt_inv c' \<and> chosen_le c c' \<and> vis \<subseteq> vis' \<and> (\<forall>nd \<in> set ds. picked r root c' nd)"
  using assms
proof (induction r fuel q ds root "(c, vis)" arbitrary: c vis c' vis' rule: walk_deps.induct)
  case (2 r fuel q nd ds root)
  from "2.prems"(1) obtain c1 vis1 sub where
    ent: "enter_dep r q nd root (c, vis) = Inr ((c1, vis1), sub)"
    by (auto split: sum.splits)
  note e = enter_dep_Inr [OF ent "2.prems"(2)]
  show ?case
  proof (cases sub)
    case None
    with ent "2.prems"(1) have "walk_deps r fuel q ds root (c1, vis1) = Some (Inr (c', vis'))"
      by simp
    from "2.hyps"(1) [OF ent refl None this] e show ?thesis
      by (auto intro: chosen_le_trans picked_mono)
  next
    case (Some p)
    then obtain m dr where sub: "sub = Some (m, dr)" by (cases p) auto
    from ent sub "2.prems"(1) obtain f c2 vis2 where f: "fuel = Suc f"
      and w1: "walk_deps r f (pkg_name m) (deps m) dr (c1, vis1) = Some (Inr (c2, vis2))"
      and w2: "walk_deps r fuel q ds root (c2, vis2) = Some (Inr (c', vis'))"
      by (auto split: nat.splits option.splits sum.splits)
    have i1: "bt_inv c2 \<and> chosen_le c1 c2 \<and> vis1 \<subseteq> vis2"
      using "2.hyps"(2) [OF ent refl sub refl f w1] e by blast
    then have "bt_inv c' \<and> chosen_le c2 c' \<and> vis2 \<subseteq> vis' \<and> (\<forall>nd \<in> set ds. picked r root c' nd)"
      using "2.hyps"(3) [OF ent refl sub refl f w1 refl w2] by blast
    with e i1 show ?thesis by (auto intro: chosen_le_trans picked_mono)
  qed
qed simp

section \<open>Termination\<close>

definition names_closed :: "resolver \<Rightarrow> string set \<Rightarrow> bool" where
  "names_closed r U \<longleftrightarrow> finite U \<and> (\<forall>p m. load_manifest r p = Inr m \<longrightarrow> fst ` set (deps m) \<subseteq> U)"

lemma card_insert_visited:
  "finite U \<Longrightarrow> n \<in> U \<Longrightarrow> n \<notin> vis \<Longrightarrow> card (U - insert n vis) < card (U - vis)"
  by (rule psubset_card_mono) auto

lemma walk_deps_terminates:
  assumes "names_closed r U" "fst ` set ds \<subseteq> U" "card (U - vis) \<le> fuel" "bt_inv c"
  shows "walk_deps r fuel q ds root (c, vis) \<noteq> None"
  using assms
proof (induction r fuel q ds root "(c, vis)" arbitrary: c vis rule: walk_deps.induct)
  case (2 r fuel q nd ds root)
  have fin: "finite U" using "2.prems"(1) by (simp add: names_closed_def)
  show ?case
  proof (cases "enter_dep r q nd root (c, vis)")
    case (Inr res)
    then obtain c1 vis1 sub where ent: "enter_dep r q nd root (c, vis) = Inr ((c1, vis1), sub)"
      by (cases res) auto
    note e = enter_dep_Inr [OF ent "2.prems"(4)]
    have card_le: "card (U - vis'') \<le> fuel" if "vis1 \<subseteq> vis''" for vis''
      using that e "2.prems"(3) card_mono [of "U - vis" "U - vis''"] fin by fastforce
    show ?thesis
    proof (cases sub)
      case None
      with "2.hyps"(1) [OF ent refl None "2.prems"(1)] "2.prems"(2) e card_le [of vis1] ent
      show ?thesis by auto
    next
      case (Some p)
      then obtain m dr where sub: "sub = Some (m, dr)" by (cases p) auto
      have less: "card (U - vis1) < card (U - vis)"
        using e sub "2.prems"(2) card_insert_visited [OF fin, of "fst nd" vis] by auto
      then obtain f where f: "fuel = Suc f" using "2.prems"(3) by (cases fuel) auto
      have "fst ` set (deps m) \<subseteq> U" using e sub "2.prems"(1) by (auto simp: names_closed_def)
      then have "walk_deps r f (pkg_name m) (deps m) dr (c1, vis1) \<noteq> None"
        using "2.hyps"(2) [OF ent refl sub refl f "2.prems"(1)] less "2.prems"(3) e f by auto
      then obtain res1 where w1: "walk_deps r f (pkg_name m) (deps m) dr (c1, vis1) = Some res1"
        by blast
      show ?thesis
      proof (cases res1)
        case (Inr st2)
        then obtain c2 vis2 where w: "walk_deps r f (pkg_name m) (deps m) dr (c1, vis1) = Some (Inr (c2, vis2))"
          using w1 by (cases st2) auto
        have "bt_inv c2 \<and> vis1 \<subseteq> vis2" using walk_deps_Inr [OF w] e by blast
        with "2.hyps"(3) [OF ent refl sub refl f w refl "2.prems"(1)] "2.prems"(2)
          card_le [of vis2] ent sub f w
        show ?thesis by auto
      qed (use ent sub f w1 in auto)
    qed
  qed simp
qed simp


section \<open>Soundness of the lockfile\<close>

text \<open>
  C4. When resolution succeeds, every direct dependency of the root manifest has a row in the
  lockfile whose version is the one \<open>resolve_one\<close> selects for it; for a registry dependency that
  version satisfies the written requirement. The rows are sorted by name without duplicates.
\<close>

theorem resolve_sound:
  assumes "resolve r fuel m = Some (Inr lk)" and "(n, d) \<in> set (deps m)"
  shows "lockfile_inv lk \<and>
    (\<exists>p v src dir. Lockfile_find lk n = Some p \<and> lp_version p = show_version v
       \<and> resolve_one r n d (source_kind d) (rs_root r) = Inr (v, src, dir)
       \<and> (source_kind d = Registry \<longrightarrow>
            (\<exists>req. VersionReq_parse (case dep_version d of Some s \<Rightarrow> s | None \<Rightarrow> ''*'') = Inr req
               \<and> VersionReq_matches req v)))"
proof -
  obtain c vis where w: "walk_deps r fuel (pkg_name m) (deps m) (rs_root r) ([], {}) = Some (Inr (c, vis))"
    and lk: "lk = foldl Lockfile_upsert Lockfile_new (map locked_of c)"
    using assms(1) by (auto simp: resolve_def split: prod.splits)
  from walk_deps_Inr [OF w bt.inv_emp] assms(2)
  have inv: "bt_inv c" and pk: "picked r (rs_root r) c (n, d)" by auto
  from pk obtain v src dir x where
    one: "resolve_one r n d (source_kind d) (rs_root r) = Inr (v, src, dir)"
    and x: "bt_get c n = Some x" "ch_version (snd x) = v" by (auto simp: picked_def)
  have xin: "x \<in> set c" and xn: "fst x = n" using x(1) by (auto simp: bt_get_def dest: find_SomeD)
  have "distinct (map lp_name (map locked_of c))"
    using inv by (simp add: bt_inv_def locked_of_def comp_def)
  then have "Lockfile_find lk (lp_name (locked_of x)) = Some (locked_of x)"
    unfolding lk by (rule lock.look_put_all_mem [OF lock.inv_emp]) (use xin in simp)
  moreover have "lockfile_inv lk" unfolding lk by (rule lock.inv_put_all [OF lock.inv_emp])
  moreover have "source_kind d = Registry \<longrightarrow>
      (\<exists>req. VersionReq_parse (case dep_version d of Some s \<Rightarrow> s | None \<Rightarrow> ''*'') = Inr req
               \<and> VersionReq_matches req v)"
    using one resolve_registry_matches by (auto simp: resolve_one_def)
  ultimately show ?thesis using one x(2) xn by (auto simp: locked_of_def)
qed

section \<open>Release tags\<close>

text \<open>
  A release tag built from a package name and a printed version splits back into the same
  pair, whatever dashes and digits the package name contains.
\<close>

theorem split_tag_make_tag:
  assumes "n \<noteq> []"
  shows "split_tag (make_tag n (show_version v)) = Some (n, show_version v)"
proof -
  let ?s = "show_version v"
  let ?t = "make_tag n ?s"
  have dash: "CHR ''-'' \<notin> set ?s"
    using show_nat_notin [of "CHR ''-''"] by (auto dest!: show_version_chars)
  have at: "tag_break ?t (length n)"
  proof -
    obtain x xs where x: "show_nat (unat (major v)) = x # xs"
      by (cases "show_nat (unat (major v))") auto
    then have "is_ascii_digit x"
      using show_nat_digits [of x "unat (major v)"] by (auto simp: is_ascii_digit_def)
    with x show ?thesis by (simp add: tag_break_def make_tag_def nth_append show_version_def)
  qed
  have after: "\<not> tag_break ?t i" if "length n < i" "i < length ?t" for i
  proof -
    have "?t ! i \<in> set ?s" using that by (auto simp: make_tag_def nth_append nth_Cons')
    with dash show ?thesis by (auto simp: tag_break_def)
  qed
  have len: "length ?t = length n + Suc (length ?s)" by (simp add: make_tag_def)
  have "[0..<length ?t] = [0..<length n] @ length n # [Suc (length n)..<length ?t]"
    unfolding len by (subst upt_add_eq_append) (simp_all add: upt_conv_Cons del: upt_Suc)
  then have "rev [0..<length ?t] = rev [Suc (length n)..<length ?t] @ length n # rev [0..<length n]"
    by simp
  moreover have "List.find (tag_break ?t) (rev [Suc (length n)..<length ?t]) = None"
    using after by (auto simp: find_None_iff)
  ultimately have "List.find (tag_break ?t) (rev [0..<length ?t]) = Some (length n)"
    using at by (simp add: find_append)
  then show ?thesis
    using assms show_nat_ne by (simp add: split_tag_def make_tag_def show_version_def)
qed

section \<open>A concrete project\<close>

text \<open>
  One registry dependency, an index with two compatible releases of it and no other file on disk.
\<close>

definition example_release :: "string \<Rightarrow> registry_release" where
  "example_release v = \<lparr>rel_name = ''json'', rel_version = v, rel_tag = make_tag ''json'' v,
     rel_tarball_url = None, rel_sha256_url = None, rel_html_url = None, rel_body_preview = None\<rparr>"

definition example_resolver :: resolver where
  "example_resolver = \<lparr>rs_root = ''/p'',
     registries = \<lparr>rc_default = None, rc_extras = [],
       rc_signing = \<lparr>sc_mode = None, sc_oidc_issuer = None\<rparr>\<rparr>,
     injected_indexes = [\<lparr>idx_slug = DEFAULT_REGISTRY_SLUG, idx_fetched_at = 0,
       idx_last_modified = None,
       releases = [example_release ''1.2.0'', example_release ''1.4.1'']\<rparr>],
     fs_exists = (\<lambda>_. False), load_manifest = (\<lambda>_. Inl ''no such file''),
     load_cached_index = (\<lambda>_. None)\<rparr>"

definition example_manifest :: manifest where
  "example_manifest = \<lparr>pkg_name = ''app'', pkg_version = ''0.1.0'',
     deps = [(''json'', DepVersion ''*'')]\<rparr>"

lemma example_resolves: "\<exists>lk. resolve example_resolver 1 example_manifest = Some (Inr lk)"
proof -
  have "VersionReq_parse ''*'' = Inr Wildcard"
    by (simp add: VersionReq_parse_def trim_def is_space_def)
  then obtain v src where "resolve_registry example_resolver ''json'' (DepVersion ''*'') = Inr (v, src, None)"
    by (cases "lookup_slugs example_resolver (slugs (registries example_resolver)) ''json'' Wildcard")
       (auto simp: resolve_registry_def)
  then have "\<exists>c vis. enter_dep example_resolver ''app'' (''json'', DepVersion ''*'')
      (rs_root example_resolver) ([], {}) = Inr ((c, vis), None)"
    by (simp add: enter_dep_def resolve_one_def Let_def bt_get_def)
  then obtain c vis where "enter_dep example_resolver ''app'' (''json'', DepVersion ''*'')
      (rs_root example_resolver) ([], {}) = Inr ((c, vis), None)" by blast
  then show ?thesis by (simp add: resolve_def example_manifest_def)
qed

lemma example_mem: "(''json'', DepVersion ''*'') \<in> set (deps example_manifest)"
  by (simp add: example_manifest_def)

theorem resolve_sound_witness:
  "\<exists>lk p. resolve example_resolver 1 example_manifest = Some (Inr lk) \<and>
     lockfile_inv lk \<and> Lockfile_find lk ''json'' = Some p"
  using example_resolves resolve_sound [OF _ example_mem] by blast


theorem split_tag_make_tag_witness:
  "split_tag (make_tag ''http-2'' (show_version (Version 1 0 3))) = Some (''http-2'', show_version (Version 1 0 3))"
  by (rule split_tag_make_tag) simp

end
