(* ===== verification/Rt_Error.thy ===== *)
theory Rt_Error
  imports Mty_Prelude
begin

text \<open>
  The error type of the runtime, \<^verbatim>\<open>crates/mty-runtime/src/error.rs\<close>, with its diagnostic codes. A
  \<open>Duration\<close> is its number of nanoseconds and an \<open>Instant\<close> a reading of the monotonic clock in
  nanoseconds, both natural numbers; \<open>as_nanos() as u64\<close> is the truncation to 64 bits.
\<close>

type_synonym duration = nat
type_synonym instant = nat

datatype runtime_error =
    AgentPanic string
  | DeadlineExceeded duration
  | MailboxFull string
  | SupervisorEscalated string
  | RestartLimitExceeded string
  | BudgetExceeded string
  | CapabilityOutsideSandbox string
  | ExternUnimplemented string
  | AgentNotFound string
  | HandlerNotFound string string
  | Trap string string

fun diag_code :: "runtime_error \<Rightarrow> string" where
  "diag_code (AgentPanic _) = ''MT5001''"
| "diag_code (DeadlineExceeded _) = ''MT5011''"
| "diag_code (MailboxFull _) = ''MT5012''"
| "diag_code (SupervisorEscalated _) = ''MT5013''"
| "diag_code (RestartLimitExceeded _) = ''MT5014''"
| "diag_code (BudgetExceeded _) = ''MT5009''"
| "diag_code (CapabilityOutsideSandbox _) = ''MT5015''"
| "diag_code (ExternUnimplemented _) = ''MT5050''"
| "diag_code (AgentNotFound _) = ''MT5021''"
| "diag_code (HandlerNotFound _ _) = ''MT5020''"
| "diag_code (Trap code _) = code"

definition as_nanos_u64 :: "duration \<Rightarrow> u64" where
  "as_nanos_u64 d = of_nat d"

lemma unat_as_nanos: "d < 2 ^ 64 \<Longrightarrow> unat (as_nanos_u64 d) = d"
  by (simp add: as_nanos_u64_def unsigned_of_nat take_bit_nat_eq_self)

end
