(* ===== verification/Rt_Budget.thy ===== *)
theory Rt_Budget
  imports Rt_Error
begin

text \<open>
  Resource budgets of an agent, \<^verbatim>\<open>crates/mty-runtime/src/budget.rs\<close>: the limits, the atomic counters
  of the tracker and every check. The atomics are 64-bit words whose \<open>fetch_add\<close> wraps; the
  elapsed wall time is an argument of the checks that read the clock; \<open>trip\<close> returns the event it
  hands to the trace recorder next to the error.
\<close>

record budget =
  b_cpu :: "duration option"
  b_wall :: "duration option"
  b_mem_bytes :: "u64 option"
  b_mailbox :: "u64 option"
  b_spawned :: "u64 option"
  b_hosts :: "string list option"
  b_read_paths :: "string list option"
  b_write_paths :: "string list option"

datatype budget_breach =
    Cpu duration | Wall duration | Mem u64 | Mailbox u64 | Spawned u64 | Host string | Path string

record budget_tracker =
  bt_budget :: budget
  cpu_ns :: u64
  mem :: u64
  spawned :: u64

definition BudgetTracker_new :: "budget \<Rightarrow> budget_tracker" where
  "BudgetTracker_new b = \<lparr>bt_budget = b, cpu_ns = 0, mem = 0, spawned = 0\<rparr>"

definition record_cpu :: "budget_tracker \<Rightarrow> duration \<Rightarrow> budget_tracker" where
  "record_cpu t d = t\<lparr>cpu_ns := cpu_ns t + as_nanos_u64 d\<rparr>"

definition record_mem :: "budget_tracker \<Rightarrow> u64 \<Rightarrow> budget_tracker" where
  "record_mem t bytes = t\<lparr>mem := mem t + bytes\<rparr>"

definition record_spawn :: "budget_tracker \<Rightarrow> budget_tracker \<times> (budget_breach, unit) result" where
  "record_spawn t =
     (let n = spawned t + 1; t' = t\<lparr>spawned := spawned t + 1\<rparr> in
      case b_spawned (bt_budget t) of
        Some limit \<Rightarrow> if limit < n then (t', Inl (Spawned n)) else (t', Inr ())
      | None \<Rightarrow> (t', Inr ()))"

definition budget_check :: "budget_tracker \<Rightarrow> duration \<Rightarrow> (budget_breach, unit) result" where
  "budget_check t elapsed =
     and_then (case b_cpu (bt_budget t) of
         Some limit \<Rightarrow> if limit < unat (cpu_ns t) then Inl (Cpu (unat (cpu_ns t))) else Inr ()
       | None \<Rightarrow> Inr ()) (\<lambda>_.
     and_then (case b_wall (bt_budget t) of
         Some limit \<Rightarrow> if limit < elapsed then Inl (Wall elapsed) else Inr ()
       | None \<Rightarrow> Inr ()) (\<lambda>_.
     case b_mem_bytes (bt_budget t) of
         Some limit \<Rightarrow> if limit < mem t then Inl (Mem (mem t)) else Inr ()
       | None \<Rightarrow> Inr ()))"

definition check_mailbox_depth :: "budget_tracker \<Rightarrow> u64 \<Rightarrow> (budget_breach, unit) result" where
  "check_mailbox_depth t depth =
     (case b_mailbox (bt_budget t) of
        Some limit \<Rightarrow> if limit < depth then Inl (Mailbox depth) else Inr ()
      | None \<Rightarrow> Inr ())"

definition check_host :: "budget_tracker \<Rightarrow> string \<Rightarrow> (budget_breach, unit) result" where
  "check_host t host =
     (case b_hosts (bt_budget t) of
        Some allow \<Rightarrow> if \<not> list_ex (\<lambda>h. h = host) allow then Inl (Host host) else Inr ()
      | None \<Rightarrow> Inr ())"

definition check_path :: "string \<Rightarrow> string list option \<Rightarrow> (budget_breach, unit) result" where
  "check_path path allow =
     (case allow of
        None \<Rightarrow> Inr ()
      | Some lst \<Rightarrow>
          if list_ex (\<lambda>p. path = p \<or> starts_with path p) lst then Inr () else Inl (Path path))"

definition check_read_path :: "budget_tracker \<Rightarrow> string \<Rightarrow> (budget_breach, unit) result" where
  "check_read_path t path = check_path path (b_read_paths (bt_budget t))"

definition check_write_path :: "budget_tracker \<Rightarrow> string \<Rightarrow> (budget_breach, unit) result" where
  "check_write_path t path = check_path path (b_write_paths (bt_budget t))"

fun trace_reason :: "budget_breach \<Rightarrow> string" where
  "trace_reason (Cpu _) = ''cpu''"
| "trace_reason (Wall _) = ''wall''"
| "trace_reason (Mem _) = ''mem''"
| "trace_reason (Mailbox _) = ''mailbox''"
| "trace_reason (Spawned _) = ''spawned''"
| "trace_reason (Host _) = ''host''"
| "trace_reason (Path _) = ''path''"

text \<open>The \<open>Debug\<close> form of a duration belongs to the standard library and is a parameter here.\<close>

fun into_runtime_error :: "(duration \<Rightarrow> string) \<Rightarrow> budget_breach \<Rightarrow> runtime_error" where
  "into_runtime_error dbg (Cpu d) = BudgetExceeded (''cpu '' @ dbg d)"
| "into_runtime_error dbg (Wall d) = BudgetExceeded (''wall '' @ dbg d)"
| "into_runtime_error dbg (Mem n) = BudgetExceeded (''mem '' @ show_nat (unat n) @ '' B'')"
| "into_runtime_error dbg (Mailbox n) = BudgetExceeded (''mailbox '' @ show_nat (unat n))"
| "into_runtime_error dbg (Spawned n) = BudgetExceeded (''spawned '' @ show_nat (unat n))"
| "into_runtime_error dbg (Host h) = CapabilityOutsideSandbox (''net '' @ h)"
| "into_runtime_error dbg (Path p) = CapabilityOutsideSandbox (''fs '' @ p)"

definition trip ::
  "(duration \<Rightarrow> string) \<Rightarrow> u64 \<Rightarrow> budget_breach \<Rightarrow> (u64 \<times> string) \<times> runtime_error" where
  "trip dbg agent_id breach = ((agent_id, trace_reason breach), into_runtime_error dbg breach)"

fun spawn_many :: "nat \<Rightarrow> budget_tracker \<Rightarrow> (budget_breach, unit) result list" where
  "spawn_many 0 t = []"
| "spawn_many (Suc n) t = snd (record_spawn t) # spawn_many n (fst (record_spawn t))"

section \<open>What the checks accept\<close>

definition within :: "('a :: order) option \<Rightarrow> 'a \<Rightarrow> bool" where
  "within lim x \<longleftrightarrow> (\<forall>l. lim = Some l \<longrightarrow> x \<le> l)"

lemma within_simps [simp]: "within None x" "within (Some l) x \<longleftrightarrow> x \<le> l"
  by (auto simp: within_def)

text \<open>
  The turn check accepts exactly when the consumed CPU time, the elapsed wall time and the
  recorded memory are all within their limits, where an absent limit is no limit; a rejection
  names the first exceeded resource in the order CPU, wall, memory with the measured value.
\<close>

theorem budget_check_spec:
  "budget_check t el =
     (if \<not> within (b_cpu (bt_budget t)) (unat (cpu_ns t)) then Inl (Cpu (unat (cpu_ns t)))
      else if \<not> within (b_wall (bt_budget t)) el then Inl (Wall el)
      else if \<not> within (b_mem_bytes (bt_budget t)) (mem t) then Inl (Mem (mem t))
      else Inr ())"
  by (auto simp: budget_check_def not_le split: option.splits)

lemma spawned_record: "spawned (fst (record_spawn t)) = spawned t + 1"
  "bt_budget (fst (record_spawn t)) = bt_budget t"
  by (auto simp: record_spawn_def Let_def split: option.splits)

lemma record_spawn_ok:
  assumes "b_spawned (bt_budget t) = Some l" "unat (spawned t) + 1 < 2 ^ 64"
  shows "snd (record_spawn t) = Inr () \<longleftrightarrow> unat (spawned t) < unat l"
proof -
  have "unat (spawned t + 1) = unat (spawned t) + 1"
    using assms(2) by (simp add: unat_word_ariths)
  then show ?thesis
    using assms(1) by (auto simp: record_spawn_def Let_def word_less_nat_alt)
qed

text \<open>
  A tracker with a spawn limit grants exactly the first \<open>limit\<close> spawns and rejects every later
  one, for any number of attempts that does not wrap the 64-bit counter.
\<close>

theorem spawn_many_limit:
  assumes "b_spawned (bt_budget t) = Some l" and "unat (spawned t) + n < 2 ^ 64" and "i < n"
  shows "spawn_many n t ! i = Inr () \<longleftrightarrow> unat (spawned t) + i < unat l"
  using assms
proof (induction n arbitrary: t i)
  case (Suc n)
  show ?case
  proof (cases i)
    case 0
    with Suc.prems show ?thesis by (simp add: record_spawn_ok)
  next
    case (Suc j)
    have "unat (spawned (fst (record_spawn t))) = unat (spawned t) + 1"
      using Suc.prems by (simp add: spawned_record unat_word_ariths)
    with Suc.IH [of "fst (record_spawn t)" j] Suc.prems Suc show ?thesis
      by (simp add: spawned_record)
  qed
qed simp

definition example_budget :: budget where
  "example_budget = \<lparr>b_cpu = Some 5, b_wall = None, b_mem_bytes = None, b_mailbox = None,
     b_spawned = Some 2, b_hosts = None, b_read_paths = Some [''/data''], b_write_paths = Some []\<rparr>"

theorem spawn_many_limit_witness:
  "spawn_many 3 (BudgetTracker_new example_budget) ! 1 = Inr () \<and>
   spawn_many 3 (BudgetTracker_new example_budget) ! 2 \<noteq> Inr ()"
  using spawn_many_limit [of "BudgetTracker_new example_budget" 2 3 1]
    spawn_many_limit [of "BudgetTracker_new example_budget" 2 3 2]
  by (simp add: BudgetTracker_new_def example_budget_def)

text \<open>
  A path is admitted by a path budget exactly when some allowed entry is a string prefix of it.
  In particular the sibling \<open>/database/x\<close> of an allowed directory \<open>/data\<close> is admitted, and so is
  every path below the allowed entry that climbs out of it with dot-dot components.
\<close>

theorem check_path_prefix:
  "(check_path path (Some allow) = Inr () \<longleftrightarrow> (\<exists>p \<in> set allow. \<exists>rest. path = p @ rest)) \<and>
   check_path ''/database/x'' (Some [''/data'']) = Inr () \<and>
   check_path ''/data/../etc/passwd'' (Some [''/data'']) = Inr ()"
proof -
  have "check_path path (Some allow) = Inr () \<longleftrightarrow> (\<exists>p \<in> set allow. \<exists>rest. path = p @ rest)"
    by (auto simp: check_path_def list_ex_iff starts_with_iff)
  then show ?thesis by (simp add: check_path_def starts_with_def)
qed

end
