(* ===== verification/Rt_Supervisor.thy ===== *)
theory Rt_Supervisor
  imports Rt_Error
begin

unbundle bit_operations_syntax

text \<open>
  Supervision, \<^verbatim>\<open>crates/mty-runtime/src/supervisor.rs\<close> (restart policy and tracker) and
  \<^verbatim>\<open>supervisor_orchestrator.rs\<close> (the supervisor tree and its decisions). The clock reading is an
  argument of the operations that call \<open>Instant::now\<close>; the pseudo-random generators are 64-bit
  words with wrapping arithmetic. The tracker is the provider of a restart-intensity contract: for
  clock readings in order, no window of the configured length holds more grants than the policy
  allows.
\<close>

section \<open>Restart policy and tracker\<close>

datatype strategy = OneForOne | OneForAll | RestForOne | Escalate

record restart_policy =
  max_attempts :: u32
  window :: duration
  backoff_min :: duration
  backoff_max :: duration

definition RestartPolicy_default :: restart_policy where
  "RestartPolicy_default =
     \<lparr>max_attempts = 3, window = 30 * 10 ^ 9, backoff_min = 0, backoff_max = 0\<rparr>"

record restart_tracker =
  policy :: restart_policy
  attempts :: "instant list"
  rng_seed :: u64

definition RestartTracker_new :: "restart_policy \<Rightarrow> restart_tracker" where
  "RestartTracker_new p = \<lparr>policy = p, attempts = [], rng_seed = 0xDEADBEEF\<rparr>"

definition sample_backoff :: "restart_tracker \<Rightarrow> restart_tracker \<times> duration" where
  "sample_backoff t =
     (let lo = as_nanos_u64 (backoff_min (policy t)); hi = as_nanos_u64 (backoff_max (policy t)) in
      if hi \<le> lo then (t, unat lo)
      else let seed = rng_seed t * 6364136223846793005 + 1442695040888963407;
               span = hi - lo; pick = lo + seed mod span
           in (t\<lparr>rng_seed := seed\<rparr>, unat pick))"

definition may_restart :: "restart_tracker \<Rightarrow> instant \<Rightarrow> restart_tracker \<times> duration option" where
  "may_restart t now =
     (let kept = filter (\<lambda>a. now - a < window (policy t)) (attempts t);
          t1 = t\<lparr>attempts := kept\<rparr>
      in if max_attempts (policy t) \<le> of_nat (length kept) then (t1, None)
         else let (t2, d) = sample_backoff (t1\<lparr>attempts := kept @ [now]\<rparr>) in (t2, Some d))"

datatype child_failure = Panic string | BudgetFailure string | Deadline

fun ChildFailure_from :: "(runtime_error \<Rightarrow> string) \<Rightarrow> runtime_error \<Rightarrow> child_failure" where
  "ChildFailure_from show_err (BudgetExceeded k) = BudgetFailure k"
| "ChildFailure_from show_err (DeadlineExceeded _) = Deadline"
| "ChildFailure_from show_err other = Panic (show_err other)"

section \<open>The supervisor tree\<close>

datatype restart_decision = Restart duration | EscalateUp | Drop

record supervisor_binding =
  sb_strategy :: strategy
  restart_limit :: u32
  restart_window :: duration
  sb_backoff_min :: duration
  sb_backoff_max :: duration
  sb_children :: "u32 list"

definition SupervisorBinding_default :: supervisor_binding where
  "SupervisorBinding_default = \<lparr>sb_strategy = OneForOne, restart_limit = 5,
     restart_window = 60 * 10 ^ 9, sb_backoff_min = 100 * 10 ^ 6, sb_backoff_max = 5 * 10 ^ 9,
     sb_children = []\<rparr>"

record supervisor_registry =
  bindings :: "u32 \<rightharpoonup> supervisor_binding"
  parents :: "u32 \<rightharpoonup> u32"
  trackers :: "u32 \<rightharpoonup> restart_tracker"
  rng_state :: u64

definition SupervisorRegistry_new :: supervisor_registry where
  "SupervisorRegistry_new = \<lparr>bindings = Map.empty, parents = Map.empty, trackers = Map.empty,
     rng_state = 0x9E3779B97F4A7C15\<rparr>"

definition tracker_for :: "supervisor_binding \<Rightarrow> restart_tracker" where
  "tracker_for b = RestartTracker_new \<lparr>max_attempts = restart_limit b, window = restart_window b,
     backoff_min = sb_backoff_min b, backoff_max = sb_backoff_max b\<rparr>"

definition add_supervisor ::
  "supervisor_registry \<Rightarrow> u32 \<Rightarrow> supervisor_binding \<Rightarrow> supervisor_registry" where
  "add_supervisor r i b =
     r\<lparr>parents := foldl (\<lambda>m c. m(c \<mapsto> i)) (parents r) (sb_children b),
       trackers := (trackers r)(i \<mapsto> tracker_for b),
       bindings := (bindings r)(i \<mapsto> b)\<rparr>"

definition parent_of :: "supervisor_registry \<Rightarrow> u32 \<Rightarrow> u32 option" where
  "parent_of r agent = parents r agent"

definition xorshift :: "u64 \<Rightarrow> u64" where
  "xorshift x0 =
     (let x1 = x0 XOR drop_bit 12 x0; x2 = x1 XOR push_bit 25 x1 in x2 XOR drop_bit 27 x2)"

definition next_backoff ::
  "supervisor_registry \<Rightarrow> supervisor_binding \<Rightarrow> supervisor_registry \<times> duration" where
  "next_backoff r b =
     (let x = xorshift (rng_state r); r' = r\<lparr>rng_state := x\<rparr>;
          rnd = x * 0x2545F4914F6CDD1D;
          span = as_nanos_u64 (sb_backoff_max b) - as_nanos_u64 (sb_backoff_min b)
      in if span = 0 then (r', sb_backoff_min b)
         else (r', sb_backoff_min b + unat (rnd mod span)))"

definition on_child_failure ::
  "supervisor_registry \<Rightarrow> instant \<Rightarrow> u32 \<Rightarrow> child_failure \<Rightarrow>
   supervisor_registry \<times> restart_decision" where
  "on_child_failure r now child failure =
     (case parents r child of
        None \<Rightarrow> (r, Drop)
      | Some sup_id \<Rightarrow>
          (case bindings r sup_id of
             None \<Rightarrow> (r, Drop)
           | Some b \<Rightarrow>
               (let tr0 = (case trackers r sup_id of Some t \<Rightarrow> t | None \<Rightarrow> tracker_for b);
                    (tr, opt) = may_restart tr0 now;
                    r1 = r\<lparr>trackers := (trackers r)(sup_id \<mapsto> tr)\<rparr>
                in case opt of
                     None \<Rightarrow> (r1, EscalateUp)
                   | Some _ \<Rightarrow>
                       (if sb_strategy b = Escalate then (r1, EscalateUp)
                        else let (r2, d) = next_backoff r1 b in (r2, Restart d)))))"

section \<open>Bounds of the two backoff generators\<close>

lemma word_add_mod_bound:
  fixes lo hi x :: u64
  assumes "lo < hi"
  shows "unat lo \<le> unat (lo + x mod (hi - lo)) \<and> unat (lo + x mod (hi - lo)) < unat hi"
proof -
  have s: "unat (hi - lo) = unat hi - unat lo" using assms by (simp add: unat_sub less_imp_le)
  have pos: "unat lo < unat hi" using assms by (simp add: word_less_nat_alt)
  have m: "unat (x mod (hi - lo)) < unat hi - unat lo"
    using pos s by (simp add: unat_mod_distrib)
  have "unat lo + unat (x mod (hi - lo)) < 2 ^ 64"
    using m pos unat_u64_less [of hi] by simp
  then have "unat (lo + x mod (hi - lo)) = unat lo + unat (x mod (hi - lo))"
    by (simp add: unat_word_ariths)
  with m pos show ?thesis by simp
qed

lemma sample_backoff_bounds:
  assumes "backoff_min (policy t) \<le> backoff_max (policy t)" "backoff_max (policy t) < 2 ^ 64"
  shows "backoff_min (policy t) \<le> snd (sample_backoff t) \<and> snd (sample_backoff t) \<le> backoff_max (policy t)"
proof -
  let ?lo = "as_nanos_u64 (backoff_min (policy t))" and ?hi = "as_nanos_u64 (backoff_max (policy t))"
  have u: "unat ?lo = backoff_min (policy t)" "unat ?hi = backoff_max (policy t)"
    using assms by (simp_all add: unat_as_nanos)
  show ?thesis
  proof (cases "?hi \<le> ?lo")
    case True
    with u assms(1) show ?thesis by (simp add: sample_backoff_def)
  next
    case False
    then have "?lo < ?hi" by simp
    from word_add_mod_bound [OF this, of "rng_seed t * 6364136223846793005 + 1442695040888963407"]
    show ?thesis using False u by (simp add: sample_backoff_def Let_def)
  qed
qed

lemma next_backoff_bounds:
  assumes "sb_backoff_min b \<le> sb_backoff_max b" "sb_backoff_max b < 2 ^ 64"
  shows "sb_backoff_min b \<le> snd (next_backoff r b) \<and> snd (next_backoff r b) \<le> sb_backoff_max b"
proof -
  let ?lo = "as_nanos_u64 (sb_backoff_min b)" and ?hi = "as_nanos_u64 (sb_backoff_max b)"
  have u: "unat ?lo = sb_backoff_min b" "unat ?hi = sb_backoff_max b"
    using assms by (simp_all add: unat_as_nanos)
  have "?lo \<le> ?hi" using u assms(1) by (simp add: word_le_nat_alt)
  then have s: "unat (?hi - ?lo) = sb_backoff_max b - sb_backoff_min b" using u by (simp add: unat_sub)
  have "unat (x mod (?hi - ?lo)) < sb_backoff_max b - sb_backoff_min b" if "?hi - ?lo \<noteq> 0" for x
  proof -
    have "0 < unat (?hi - ?lo)" using that by (simp add: unat_gt_0)
    then show ?thesis using s by (simp add: unat_mod_distrib)
  qed
  then show ?thesis
    using assms(1) by (auto simp: next_backoff_def Let_def) (metis add_le_mono le_add_diff_inverse less_imp_le_nat le_refl)
qed

section \<open>Restart intensity\<close>

fun grants :: "restart_tracker \<Rightarrow> instant list \<Rightarrow> instant list" where
  "grants t [] = []"
| "grants t (n # ns) =
     (case may_restart t n of
        (t', None) \<Rightarrow> grants t' ns
      | (t', Some _) \<Rightarrow> n # grants t' ns)"

definition in_window :: "duration \<Rightarrow> instant \<Rightarrow> instant \<Rightarrow> bool" where
  "in_window w T g \<longleftrightarrow> g \<le> T \<and> T - g < w"

lemma sample_backoff_frame [simp]:
  "policy (fst (sample_backoff t)) = policy t" "attempts (fst (sample_backoff t)) = attempts t"
  by (auto simp: sample_backoff_def Let_def)

lemma grants_ge: "sorted ns \<Longrightarrow> g \<in> set (grants t ns) \<Longrightarrow> g \<in> set ns"
  by (induction ns arbitrary: t) (auto split: prod.splits option.splits)

lemma may_restart_cases:
  fixes t :: restart_tracker and n :: instant
  assumes "length (attempts t) \<le> unat (max_attempts (policy t))"
  defines "kept \<equiv> filter (\<lambda>a. n - a < window (policy t)) (attempts t)"
  shows "\<exists>t' o'. may_restart t n = (t', o') \<and> policy t' = policy t \<and>
    (case o' of
       None \<Rightarrow> attempts t' = kept
     | Some d \<Rightarrow> attempts t' = kept @ [n] \<and> length kept < unat (max_attempts (policy t)))"
proof -
  let ?M = "max_attempts (policy t)"
  have len: "length kept \<le> unat ?M" using assms(1) length_filter_le le_trans unfolding kept_def by blast
  then have "unat (of_nat (length kept) :: u32) = length kept"
    using unat_u32_less [of ?M] by (simp add: unsigned_of_nat take_bit_nat_eq_self)
  then have iff: "?M \<le> of_nat (length kept) \<longleftrightarrow> unat ?M \<le> length kept" by (simp add: word_le_nat_alt)
  show ?thesis
  proof (cases "?M \<le> of_nat (length kept)")
    case True
    then show ?thesis by (simp add: may_restart_def Let_def kept_def)
  next
    case False
    then have "length kept < unat ?M" using iff by simp
    moreover obtain t2 d where "sample_backoff (t\<lparr>attempts := kept @ [n]\<rparr>) = (t2, d)" by fastforce
    moreover from this have "policy t2 = policy t" "attempts t2 = kept @ [n]"
      using sample_backoff_frame [of "t\<lparr>attempts := kept @ [n]\<rparr>"] by simp_all
    ultimately show ?thesis using False by (simp add: may_restart_def Let_def kept_def)
  qed
qed

lemma grants_window:
  assumes "sorted (attempts t @ ns)" "length (attempts t) \<le> unat (max_attempts (policy t))"
  shows "length (filter (in_window (window (policy t)) T) (attempts t @ grants t ns))
           \<le> unat (max_attempts (policy t))"
  using assms
proof (induction ns arbitrary: t)
  case Nil
  then show ?case by (metis append_Nil2 grants.simps(1) le_trans length_filter_le)
next
  case (Cons n ns)
  let ?w = "window (policy t)" and ?M = "unat (max_attempts (policy t))"
  let ?kept = "filter (\<lambda>a. n - a < ?w) (attempts t)"
  obtain t' o' where m: "may_restart t n = (t', o')" and pol: "policy t' = policy t"
    and cs: "case o' of None \<Rightarrow> attempts t' = ?kept
        | Some d \<Rightarrow> attempts t' = ?kept @ [n] \<and> length ?kept < ?M"
    using may_restart_cases [OF Cons.prems(2), of n] by blast
  have srt: "sorted (attempts t' @ ns)"
    using Cons.prems(1) cs by (auto simp: sorted_append sorted_wrt_filter split: option.splits)
  have len: "length (attempts t') \<le> ?M"
    using cs Cons.prems(2) le_trans [OF length_filter_le] by (auto split: option.splits)
  have IH: "length (filter (in_window ?w T) (attempts t' @ grants t' ns)) \<le> ?M"
    using Cons.IH [OF srt] len pol by simp
  have ns: "\<forall>g \<in> set (grants t (n # ns)). n \<le> g"
    using Cons.prems(1) grants_ge [of "n # ns" _ t] by (auto simp: sorted_append simp del: grants.simps)
  show ?case
  proof (cases "n \<le> T")
    case True
    have "filter (in_window ?w T) (attempts t) = filter (in_window ?w T) ?kept"
      unfolding filter_filter by (rule filter_cong) (use True in \<open>auto simp: in_window_def\<close>)
    with IH m cs show ?thesis by (auto split: option.splits)
  next
    case False
    with ns have "filter (in_window ?w T) (grants t (n # ns)) = []"
      by (force simp: filter_empty_conv in_window_def simp del: grants.simps)
    with Cons.prems(2) show ?thesis
      by (metis append_Nil2 filter_append le_trans length_filter_le)
  qed
qed

fun run_failures ::
  "supervisor_registry \<Rightarrow> (instant \<times> u32 \<times> child_failure) list \<Rightarrow> (instant \<times> u32 \<times> restart_decision) list" where
  "run_failures r [] = []"
| "run_failures r ((now, c, f) # es) =
     (let (r', d) = on_child_failure r now c f in (now, c, d) # run_failures r' es)"

fun is_restart :: "restart_decision \<Rightarrow> bool" where
  "is_restart (Restart _) = True"
| "is_restart _ = False"

lemma next_backoff_frame:
  "parents (fst (next_backoff r b)) = parents r" "bindings (fst (next_backoff r b)) = bindings r"
  "trackers (fst (next_backoff r b)) = trackers r"
  by (auto simp: next_backoff_def Let_def)

lemma on_child_failure_frame:
  "parents (fst (on_child_failure r n c f)) = parents r"
  "bindings (fst (on_child_failure r n c f)) = bindings r"
  "parents r c \<noteq> Some s \<Longrightarrow> trackers (fst (on_child_failure r n c f)) s = trackers r s"
  by (auto simp: on_child_failure_def Let_def split_beta next_backoff_frame split: option.splits)

lemma on_child_failure_granted:
  assumes "parents r c = Some s" "bindings r s = Some b" "trackers r s = Some t"
  shows "trackers (fst (on_child_failure r n c f)) s = Some (fst (may_restart t n))"
    and "is_restart (snd (on_child_failure r n c f)) \<longleftrightarrow>
      sb_strategy b \<noteq> Escalate \<and> snd (may_restart t n) \<noteq> None"
  using assms
  by (auto simp: on_child_failure_def Let_def split_beta next_backoff_frame split: option.splits)

lemma run_failures_grants:
  assumes "bindings r s = Some b" "trackers r s = Some t" "sb_strategy b \<noteq> Escalate"
  shows "map fst (filter (\<lambda>(n, c, d). parents r c = Some s \<and> is_restart d) (run_failures r es)) =
     grants t (map fst (filter (\<lambda>(n, c, f). parents r c = Some s) es))"
  using assms
proof (induction es arbitrary: r t)
  case (Cons e es)
  obtain n c f where e: "e = (n, c, f)" by (cases e)
  let ?r = "fst (on_child_failure r n c f)" and ?d = "snd (on_child_failure r n c f)"
  have step: "run_failures r (e # es) = (n, c, ?d) # run_failures ?r es"
    by (simp add: e Let_def split_beta)
  note fr = on_child_failure_frame(1,2) [of r n c f]
  show ?case
  proof (cases "parents r c = Some s")
    case True
    note g = on_child_failure_granted [OF True Cons.prems(1,2), of n f]
    have IH: "map fst (filter (\<lambda>(n, c, d). parents r c = Some s \<and> is_restart d) (run_failures ?r es)) =
      grants (fst (may_restart t n)) (map fst (filter (\<lambda>(n, c, f). parents r c = Some s) es))"
      using Cons.IH [of ?r] Cons.prems fr g(1) by simp
    have d: "is_restart ?d \<longleftrightarrow> snd (may_restart t n) \<noteq> None" using g(2) Cons.prems(3) by simp
    show ?thesis
      using True IH d unfolding step by (cases "may_restart t n") (auto simp: e split: option.splits)
  next
    case False
    with Cons.IH [of ?r t] Cons.prems fr on_child_failure_frame(3) [OF False, of n f] show ?thesis
      unfolding step by (simp add: e)
  qed
qed simp

lemma no_restart_when_escalating:
  assumes "bindings r s = Some b" "sb_strategy b = Escalate"
  shows "filter (\<lambda>(n, c, d). parents r c = Some s \<and> is_restart d) (run_failures r es) = []"
  using assms
proof (induction es arbitrary: r)
  case (Cons e es)
  obtain n c f where e: "e = (n, c, f)" by (cases e)
  have "parents r c = Some s \<Longrightarrow> \<not> is_restart (snd (on_child_failure r n c f))"
    using Cons.prems by (auto simp: on_child_failure_def Let_def split_beta split: option.splits)
  with Cons.IH [of "fst (on_child_failure r n c f)"] Cons.prems on_child_failure_frame(1,2) [of r n c f]
  show ?case by (simp add: e Let_def split_beta)
qed simp

text \<open>
  C12. Restart intensity: after a supervisor is registered with its binding, and for any interleaving of
  failures of its children with failures under other supervisors at non-decreasing clock readings,
  no time window of the configured length contains more restarts of this supervisor's children than
  its restart limit.
\<close>

theorem restart_intensity:
  assumes "sorted (map fst es)" and "r = add_supervisor r0 s b"
  shows "length (filter (\<lambda>(n, c, d). parents r c = Some s \<and> is_restart d \<and>
           in_window (restart_window b) T n) (run_failures r es)) \<le> unat (restart_limit b)"
proof -
  let ?R = "filter (\<lambda>(n, c, d). parents r c = Some s \<and> is_restart d) (run_failures r es)"
  have bs: "bindings r s = Some b" "trackers r s = Some (tracker_for b)"
    using assms(2) by (simp_all add: add_supervisor_def)
  have split: "filter (\<lambda>(n, c, d). parents r c = Some s \<and> is_restart d \<and> in_window (restart_window b) T n)
      (run_failures r es) = filter (\<lambda>x. in_window (restart_window b) T (fst x)) ?R"
    unfolding filter_filter by (rule filter_cong) auto
  show ?thesis
  proof (cases "sb_strategy b = Escalate")
    case True
    then show ?thesis unfolding split using no_restart_when_escalating [OF bs(1)] by simp
  next
    case False
    let ?ns = "map fst (filter (\<lambda>(n, c, f). parents r c = Some s) es)"
    have pol: "window (policy (tracker_for b)) = restart_window b"
      "max_attempts (policy (tracker_for b)) = restart_limit b" "attempts (tracker_for b) = []"
      by (simp_all add: tracker_for_def RestartTracker_new_def)
    have "sorted ?ns" using assms(1) by (rule sorted_filter)
    then have "length (filter (in_window (restart_window b) T) (grants (tracker_for b) ?ns)) \<le> unat (restart_limit b)"
      using grants_window [of "tracker_for b" ?ns T] pol by simp
    then show ?thesis
      unfolding split run_failures_grants [OF bs False, symmetric]
      by (simp add: filter_map comp_def)
  qed
qed

text \<open>
  A granted restart is delayed by at least the configured minimum and at most the configured
  maximum, provided the binding orders its two bounds and they fit 64 bits of nanoseconds; a child
  without a registered supervisor is dropped and leaves the registry unchanged.
\<close>

theorem restart_backoff_bounds:
  assumes "bindings r s = Some b" and "sb_backoff_min b \<le> sb_backoff_max b"
    and "sb_backoff_max b < 2 ^ 64"
  shows "(parents r c = Some s \<and> on_child_failure r now c f = (r', Restart d) \<longrightarrow>
            sb_backoff_min b \<le> d \<and> d \<le> sb_backoff_max b)
       \<and> (parents r c = None \<longrightarrow> on_child_failure r now c f = (r, Drop))"
proof -
  have "d = snd (next_backoff q b)" if "next_backoff q b = (r', d)" for q
    using that by simp
  then show ?thesis
    using assms next_backoff_bounds [OF assms(2,3)]
    by (auto simp: on_child_failure_def Let_def split_beta split: option.splits if_splits)
qed

section \<open>A concrete supervisor\<close>

definition example_binding :: supervisor_binding where
  "example_binding = \<lparr>sb_strategy = OneForOne, restart_limit = 1, restart_window = 100,
     sb_backoff_min = 5, sb_backoff_max = 5, sb_children = [7]\<rparr>"

theorem restart_intensity_witness:
  "length (filter (\<lambda>(n, c, d). parents (add_supervisor SupervisorRegistry_new 1 example_binding) c = Some 1
       \<and> is_restart d \<and> in_window 100 60 n)
     (run_failures (add_supervisor SupervisorRegistry_new 1 example_binding)
        [(10, 7, Deadline), (50, 7, Deadline)])) \<le> 1"
  using restart_intensity [of "[(10, 7, Deadline), (50, 7, Deadline)]" _ SupervisorRegistry_new 1 example_binding 60]
  by (simp add: example_binding_def)

lemma example_restart:
  "\<exists>r' d. on_child_failure (add_supervisor SupervisorRegistry_new 1 example_binding) 10 7 Deadline = (r', Restart d)"
  by (simp add: on_child_failure_def add_supervisor_def SupervisorRegistry_new_def example_binding_def
      tracker_for_def RestartTracker_new_def may_restart_def sample_backoff_def next_backoff_def
      as_nanos_u64_def Let_def)

theorem restart_backoff_bounds_witness:
  "\<exists>r' d. on_child_failure (add_supervisor SupervisorRegistry_new 1 example_binding) 10 7 Deadline = (r', Restart d)
     \<and> 5 \<le> d \<and> d \<le> 5"
proof -
  let ?R = "add_supervisor SupervisorRegistry_new 1 example_binding"
  obtain r' d where o: "on_child_failure ?R 10 7 Deadline = (r', Restart d)"
    using example_restart by blast
  have "bindings ?R 1 = Some example_binding" "parents ?R 7 = Some 1"
    by (simp_all add: add_supervisor_def example_binding_def)
  with o restart_backoff_bounds [of ?R 1 example_binding 7 10 Deadline r' d] show ?thesis
    by (auto simp: example_binding_def)
qed

end
