(* ===== verification/Rt_Slab.thy ===== *)
theory Rt_Slab
  imports Mty_Prelude
begin

text \<open>
  The slab pool behind the mailboxes, \<^verbatim>\<open>crates/mty-runtime/src/slab_pool.rs\<close>: slots with an inline
  buffer and an overflow box, the LIFO free list, acquisition with heap fallback, and the release
  performed when a pooled frame is dropped. The shared \<open>Arc\<close> is an explicit pool state. The
  contract a client relies on is the locale \<open>buffer_pool\<close>: a handle reads back the bytes it was
  acquired with for as long as it lives, whatever other handles do.
\<close>

section \<open>Slots\<close>

definition DEFAULT_INLINE_BYTES :: nat where
  "DEFAULT_INLINE_BYTES = 64"

definition DEFAULT_POOL_SIZE :: nat where
  "DEFAULT_POOL_SIZE = 1024"

record slot =
  inline :: "u8 list"
  inline_cap :: nat
  overflow :: "u8 list option"
  used :: nat

definition Slot_empty :: "nat \<Rightarrow> slot" where
  "Slot_empty inline_bytes = \<lparr>inline = [], inline_cap = inline_bytes, overflow = None, used = 0\<rparr>"

definition Slot_reset :: "slot \<Rightarrow> slot" where
  "Slot_reset s = s\<lparr>inline := [], overflow := None, used := 0\<rparr>"

definition Slot_spilled :: "slot \<Rightarrow> bool" where
  "Slot_spilled s \<longleftrightarrow> overflow s \<noteq> None"

definition Slot_bytes :: "slot \<Rightarrow> u8 list" where
  "Slot_bytes s = (case overflow s of Some b \<Rightarrow> take (used s) b | None \<Rightarrow> take (used s) (inline s))"

definition Slot_write :: "slot \<Rightarrow> u8 list \<Rightarrow> slot" where
  "Slot_write s data =
     (let s1 = Slot_reset s;
          s2 = (if length data \<le> inline_cap s1 then s1\<lparr>inline := inline s1 @ data\<rparr>
                else s1\<lparr>overflow := Some data\<rparr>)
      in s2\<lparr>used := length data\<rparr>)"

section \<open>The pool\<close>

record slab_pool =
  slots :: "slot list"
  free :: "nat list"
  p_capacity :: nat
  inline_bytes :: nat
  acquired :: u64
  released :: u64

record pooled_frame =
  slot_idx :: "nat option"
  pf_overflow :: "u8 list option"
  pf_len :: nat

definition with_layout :: "nat \<Rightarrow> nat \<Rightarrow> slab_pool" where
  "with_layout capacity ib =
     (let cap = max capacity 1 in
      \<lparr>slots = replicate cap (Slot_empty ib), free = map (\<lambda>i. cap - 1 - i) [0..<cap],
       p_capacity = cap, inline_bytes = ib, acquired = 0, released = 0\<rparr>)"

definition SlabPool_new :: "nat \<Rightarrow> slab_pool" where
  "SlabPool_new capacity = with_layout capacity DEFAULT_INLINE_BYTES"

definition free_count :: "slab_pool \<Rightarrow> nat" where
  "free_count p = length (free p)"

definition used_count :: "slab_pool \<Rightarrow> nat" where
  "used_count p = p_capacity p - free_count p"

definition try_acquire :: "slab_pool \<Rightarrow> u8 list \<Rightarrow> (slab_pool \<times> pooled_frame) option" where
  "try_acquire p bytes =
     (if free p = [] then None
      else let idx = last (free p) in
        Some (p\<lparr>free := butlast (free p),
                slots := (slots p)[idx := Slot_write (slots p ! idx) bytes],
                acquired := acquired p + 1\<rparr>,
              \<lparr>slot_idx = Some idx, pf_overflow = None, pf_len = length bytes\<rparr>))"

definition acquire_empty :: pooled_frame where
  "acquire_empty = \<lparr>slot_idx = None, pf_overflow = None, pf_len = 0\<rparr>"

definition acquire_or_overflow :: "slab_pool \<Rightarrow> u8 list \<Rightarrow> slab_pool \<times> pooled_frame" where
  "acquire_or_overflow p bytes =
     (if bytes = [] then (p, \<lparr>slot_idx = None, pf_overflow = None, pf_len = 0\<rparr>)
      else case try_acquire p bytes of
        Some r \<Rightarrow> r
      | None \<Rightarrow> (p, \<lparr>slot_idx = None, pf_overflow = Some bytes, pf_len = length bytes\<rparr>))"

definition is_pooled :: "pooled_frame \<Rightarrow> bool" where
  "is_pooled f \<longleftrightarrow> slot_idx f \<noteq> None"

definition frame_spilled :: "slab_pool \<Rightarrow> pooled_frame \<Rightarrow> bool" where
  "frame_spilled p f = (case slot_idx f of Some idx \<Rightarrow> Slot_spilled (slots p ! idx) | None \<Rightarrow> True)"

definition to_bytes :: "slab_pool \<Rightarrow> pooled_frame \<Rightarrow> u8 list" where
  "to_bytes p f =
     (case pf_overflow f of
        Some b \<Rightarrow> take (pf_len f) b
      | None \<Rightarrow> (case slot_idx f of Some idx \<Rightarrow> Slot_bytes (slots p ! idx) | None \<Rightarrow> []))"

definition frame_drop :: "slab_pool \<Rightarrow> pooled_frame \<Rightarrow> slab_pool" where
  "frame_drop p f =
     (case slot_idx f of
        Some idx \<Rightarrow>
          p\<lparr>slots := (slots p)[idx := Slot_reset (slots p ! idx)], free := free p @ [idx],
            released := released p + 1\<rparr>
      | None \<Rightarrow> p)"

fun live_idx :: "pooled_frame list \<Rightarrow> nat list" where
  "live_idx [] = []"
| "live_idx (h # hs) = (case slot_idx h of None \<Rightarrow> live_idx hs | Some i \<Rightarrow> i # live_idx hs)"

definition pool_ok :: "slab_pool \<Rightarrow> pooled_frame list \<Rightarrow> bool" where
  "pool_ok p hs \<longleftrightarrow>
     length (slots p) = p_capacity p \<and> distinct (free p @ live_idx hs) \<and>
     set (free p @ live_idx hs) = {..<p_capacity p} \<and>
     acquired p - released p = of_nat (length (live_idx hs))"

section \<open>The contract of a buffer pool\<close>

datatype 'b pool_op = Acquire 'b | Release nat

fun run_pool ::
  "('p \<Rightarrow> 'b \<Rightarrow> 'p \<times> 'h) \<Rightarrow> ('p \<Rightarrow> 'h \<Rightarrow> 'p) \<Rightarrow> 'p \<times> ('h \<times> 'b) list \<Rightarrow> 'b pool_op list \<Rightarrow>
   'p \<times> ('h \<times> 'b) list" where
  "run_pool acq rel st [] = st"
| "run_pool acq rel (p, live) (Acquire b # ops) =
     (let (p', h) = acq p b in run_pool acq rel (p', (h, b) # live) ops)"
| "run_pool acq rel (p, live) (Release i # ops) =
     (if i < length live
      then run_pool acq rel (rel p (fst (live ! i)), take i live @ drop (Suc i) live) ops
      else run_pool acq rel (p, live) ops)"

locale buffer_pool =
  fixes ok :: "'p \<Rightarrow> 'h list \<Rightarrow> bool"
    and acq :: "'p \<Rightarrow> 'b \<Rightarrow> 'p \<times> 'h"
    and rel :: "'p \<Rightarrow> 'h \<Rightarrow> 'p"
    and rd :: "'p \<Rightarrow> 'h \<Rightarrow> 'b"
  assumes acq_ok: "ok p hs \<Longrightarrow> acq p b = (p', h) \<Longrightarrow> ok p' (h # hs)"
    and acq_rd: "ok p hs \<Longrightarrow> acq p b = (p', h) \<Longrightarrow> rd p' h = b"
    and acq_frame: "ok p hs \<Longrightarrow> acq p b = (p', h) \<Longrightarrow> g \<in> set hs \<Longrightarrow> rd p' g = rd p g"
    and rel_ok: "ok p (hs @ h # hs') \<Longrightarrow> ok (rel p h) (hs @ hs')"
    and rel_frame: "ok p (hs @ h # hs') \<Longrightarrow> g \<in> set (hs @ hs') \<Longrightarrow> rd (rel p h) g = rd p g"
begin

lemma run_isolated:
  "ok p (map fst live) \<Longrightarrow> \<forall>(h, b) \<in> set live. rd p h = b \<Longrightarrow>
   run_pool acq rel (p, live) ops = (p', live') \<Longrightarrow>
   ok p' (map fst live') \<and> (\<forall>(h, b) \<in> set live'. rd p' h = b)"
proof (induction ops arbitrary: p live)
  case (Cons op ops)
  show ?case
  proof (cases op)
    case (Acquire b)
    obtain q h where a: "acq p b = (q, h)" by fastforce
    have "ok q (map fst ((h, b) # live))" using acq_ok [OF Cons.prems(1) a] by simp
    moreover have "\<forall>(g, c) \<in> set ((h, b) # live). rd q g = c"
      using Cons.prems(2) acq_rd [OF Cons.prems(1) a] acq_frame [OF Cons.prems(1) a] by fastforce
    ultimately show ?thesis using Cons.IH [of q "(h, b) # live"] Cons.prems(3) a Acquire by simp
  next
    case (Release i)
    show ?thesis
    proof (cases "i < length live")
      case True
      let ?l = "take i live @ drop (Suc i) live" and ?q = "rel p (fst (live ! i))"
      have eq: "map fst live = map fst (take i live) @ fst (live ! i) # map fst (drop (Suc i) live)"
        using True by (metis id_take_nth_drop list.simps(9) map_append)
      have ok': "ok ?q (map fst ?l)" using Cons.prems(1) rel_ok unfolding eq by simp
      have "rd ?q h = b" if hb: "(h, b) \<in> set ?l" for h b
      proof -
        have "h \<in> set (map fst (take i live) @ map fst (drop (Suc i) live))" using hb by force
        then have "rd ?q h = rd p h" using rel_frame Cons.prems(1) unfolding eq by blast
        moreover have "(h, b) \<in> set live" using hb by (auto dest: in_set_takeD in_set_dropD)
        ultimately show ?thesis using Cons.prems(2) by auto
      qed
      then show ?thesis using Cons.IH [OF ok'] Cons.prems(3) True Release by fastforce
    qed (use Cons Release in simp)
  qed
qed auto

end

section \<open>The slab pool satisfies the contract\<close>

lemma Slot_bytes_write [simp]: "Slot_bytes (Slot_write s data) = data"
  by (simp add: Slot_bytes_def Slot_write_def Slot_reset_def Let_def)

lemma live_idx_append [simp]: "live_idx (xs @ ys) = live_idx xs @ live_idx ys"
  by (induction xs) (auto split: option.splits)

lemma live_idx_mem: "slot_idx g = Some i \<Longrightarrow> g \<in> set hs \<Longrightarrow> i \<in> set (live_idx hs)"
  by (induction hs) (auto split: option.splits)

lemma to_bytes_frame:
  assumes "i \<notin> set (live_idx hs)" "g \<in> set hs"
  shows "to_bytes (p\<lparr>slots := (slots p)[i := s]\<rparr>) g = to_bytes p g"
  using assms live_idx_mem [of g _ hs]
  by (auto simp: to_bytes_def split: option.splits) (metis nth_list_update_neq)

lemma to_bytes_slots: "slots p = slots q \<Longrightarrow> to_bytes p g = to_bytes q g"
  by (auto simp: to_bytes_def split: option.splits)

lemma acquire_cases:
  assumes "pool_ok p hs" "acquire_or_overflow p b = (p', h)"
  obtains (heap) "p' = p" "slot_idx h = None" "to_bytes p' h = b"
  | (slab) fs i where "free p = fs @ [i]" "slot_idx h = Some i" "i < length (slots p)"
      "i \<notin> set fs" "i \<notin> set (live_idx hs)"
      "p' = p\<lparr>free := fs, slots := (slots p)[i := Slot_write (slots p ! i) b],
               acquired := acquired p + 1\<rparr>" "to_bytes p' h = b"
proof (cases "b = [] \<or> free p = []")
  case True
  with assms show ?thesis
    by (intro heap) (auto simp: acquire_or_overflow_def try_acquire_def to_bytes_def split: if_splits)
next
  case False
  then obtain fs i where f: "free p = fs @ [i]" by (metis append_butlast_last_id)
  have i: "i < length (slots p)" "i \<notin> set fs" "i \<notin> set (live_idx hs)"
    using assms(1) f by (auto simp: pool_ok_def)
  with False assms(2) f show ?thesis
    by (intro slab [of fs i])
       (auto simp: acquire_or_overflow_def try_acquire_def to_bytes_def Let_def)
qed

lemma pool_ok_acquire:
  assumes "pool_ok p hs" "acquire_or_overflow p b = (p', h)"
  shows "pool_ok p' (h # hs)"
  using assms by (cases rule: acquire_cases) (use assms(1) in \<open>auto simp: pool_ok_def\<close>)

lemma pool_ok_drop:
  assumes "pool_ok p (hs @ h # hs')"
  shows "pool_ok (frame_drop p h) (hs @ hs')"
proof (cases "slot_idx h")
  case (Some i)
  have "acquired p - (released p + 1) = (of_nat (length (live_idx hs) + length (live_idx hs')) :: u64)"
    using assms Some by (simp add: pool_ok_def algebra_simps)
  with assms Some show ?thesis by (auto simp: pool_ok_def frame_drop_def)
qed (use assms in \<open>simp add: frame_drop_def pool_ok_def\<close>)

lemma acquire_frame:
  assumes "pool_ok p hs" "acquire_or_overflow p b = (p', h)" "g \<in> set hs"
  shows "to_bytes p' g = to_bytes p g"
  using assms(1,2)
proof (cases rule: acquire_cases)
  case (slab fs i)
  have "to_bytes p' g = to_bytes (p\<lparr>slots := (slots p)[i := Slot_write (slots p ! i) b]\<rparr>) g"
    using slab by (intro to_bytes_slots) simp
  with slab assms(3) show ?thesis by (simp add: to_bytes_frame)
qed simp

lemma drop_frame:
  assumes "pool_ok p (hs @ h # hs')" "g \<in> set (hs @ hs')"
  shows "to_bytes (frame_drop p h) g = to_bytes p g"
proof (cases "slot_idx h")
  case (Some i)
  have "i \<notin> set (live_idx (hs @ hs'))" using assms(1) Some by (auto simp: pool_ok_def)
  moreover have "to_bytes (frame_drop p h) g =
      to_bytes (p\<lparr>slots := (slots p)[i := Slot_reset (slots p ! i)]\<rparr>) g"
    using Some by (intro to_bytes_slots) (simp add: frame_drop_def)
  ultimately show ?thesis using assms(2) to_bytes_frame [of i "hs @ hs'" g] by simp
qed (simp add: frame_drop_def)

interpretation slab: buffer_pool pool_ok acquire_or_overflow frame_drop to_bytes
proof unfold_locales
  show "to_bytes p' h = b" if "pool_ok p hs" "acquire_or_overflow p b = (p', h)" for p hs b p' h
    using that by (cases rule: acquire_cases) auto
qed (fact pool_ok_acquire acquire_frame pool_ok_drop drop_frame)+

lemma pool_ok_new: "pool_ok (with_layout c ib) []"
proof -
  have "map (\<lambda>i. n - 1 - i) [0..<n] = rev [0..<n]" for n :: nat
    by (rule nth_equalityI) (simp_all add: rev_nth)
  then show ?thesis
    unfolding pool_ok_def with_layout_def Let_def
    by (simp only: live_idx.simps append_Nil2) (simp add: atLeast0LessThan)
qed

lemma pool_ok_counts:
  assumes "pool_ok p hs"
  shows "free_count p + length (live_idx hs) = p_capacity p"
proof -
  have "card (set (free p @ live_idx hs)) = length (free p @ live_idx hs)"
    using assms by (intro distinct_card) (simp add: pool_ok_def)
  then show ?thesis using assms by (simp add: pool_ok_def free_count_def)
qed

text \<open>
  C5. Isolation of pooled frames: starting from a fresh pool of any size and layout, after any sequence
  of acquisitions and drops every live frame reads back exactly the bytes it was acquired with, no
  two live frames occupy the same slot, and free and occupied slots add up to the capacity.
\<close>

theorem slab_frames_isolated:
  assumes "run_pool acquire_or_overflow frame_drop (with_layout c ib, []) ops = (p, live)"
  shows "(\<forall>(h, b) \<in> set live. to_bytes p h = b) \<and> distinct (live_idx (map fst live)) \<and>
     free_count p + length (live_idx (map fst live)) = p_capacity p \<and>
     used_count p = length (live_idx (map fst live))"
proof -
  have "pool_ok p (map fst live) \<and> (\<forall>(h, b) \<in> set live. to_bytes p h = b)"
    using slab.run_isolated [OF _ _ assms] pool_ok_new by simp
  then show ?thesis using pool_ok_counts [of p "map fst live"]
    by (auto simp: pool_ok_def used_count_def)
qed

theorem slab_frames_isolated_witness:
  "\<exists>p h g. run_pool acquire_or_overflow frame_drop (with_layout 1 4, []) [Acquire [1, 2], Acquire [3]]
       = (p, [(h, [3]), (g, [1, 2])]) \<and> to_bytes p h = [3] \<and> to_bytes p g = [1, 2]"
proof -
  obtain q g where g: "acquire_or_overflow (with_layout 1 4) [1, 2] = (q, g)" by fastforce
  obtain p h where "acquire_or_overflow q [3] = (p, h)" by fastforce
  with g have r: "run_pool acquire_or_overflow frame_drop (with_layout 1 4, [])
      [Acquire [1, 2], Acquire [3]] = (p, [(h, [3]), (g, [1, 2])])"
    by simp
  then show ?thesis using slab_frames_isolated [OF r] by auto
qed

end
