(* ===== verification/Rt_Mailbox.thy ===== *)
theory Rt_Mailbox
  imports Rt_Error Rt_Slab
begin

text \<open>
  Agent mailboxes, \<^verbatim>\<open>crates/mty-runtime/src/mailbox.rs\<close>. The bounded channel is tokio's and is a
  parameter: a record of the four operations the mailbox calls. What the code relies on is the
  predicate \<open>bounded_fifo\<close>, which relates the channel to the list of queued frames. The payload
  values and the reply channel are type parameters. Dropping a rejected frame releases its slab
  slot, as the drop of the Rust value does.
\<close>

section \<open>Frames\<close>

datatype send_policy = Block | DropFrame | Fail

datatype 'v small_payload = PEmpty | Inline "'v list"

definition payload_inline :: "'v list \<Rightarrow> 'v small_payload" where
  "payload_inline vs = (if vs = [] then PEmpty else Inline vs)"

fun payload_values :: "'v small_payload \<Rightarrow> 'v list" where
  "payload_values PEmpty = []"
| "payload_values (Inline v) = v"

fun approx_bytes :: "'v small_payload \<Rightarrow> nat" where
  "approx_bytes PEmpty = 0"
| "approx_bytes (Inline v) = min (length v * 8) (2 ^ 64 - 1)"

record ('v, 'r) message_frame =
  proto_msg :: string
  payload :: "'v small_payload"
  reply :: "'r option"
  deadline :: "instant option"
  seq :: u64
  slab_handle :: "pooled_frame option"

definition fire_and_forget :: "string \<Rightarrow> 'v small_payload \<Rightarrow> ('v, 'r) message_frame" where
  "fire_and_forget m p = \<lparr>proto_msg = m, payload = p, reply = None, deadline = None, seq = 0,
     slab_handle = None\<rparr>"

definition ask :: "string \<Rightarrow> 'v small_payload \<Rightarrow> duration option \<Rightarrow> instant \<Rightarrow> 'r \<Rightarrow> ('v, 'r) message_frame" where
  "ask m p dl now tx = \<lparr>proto_msg = m, payload = p, reply = Some tx,
     deadline = map_option (\<lambda>d. now + d) dl, seq = 0, slab_handle = None\<rparr>"

section \<open>The channel the mailbox is built on\<close>

datatype ('c, 'f) try_send_result = SendOk 'c | SendFull 'f | SendClosed 'f

record ('c, 'f) chan_ops =
  chan_new :: "nat \<Rightarrow> 'c"
  chan_try_send :: "'c \<Rightarrow> 'f \<Rightarrow> ('c, 'f) try_send_result"
  chan_try_recv :: "'c \<Rightarrow> ('c \<times> 'f) option"

definition bounded_fifo ::
  "('c, 'f) chan_ops \<Rightarrow> ('c \<Rightarrow> bool) \<Rightarrow> ('c \<Rightarrow> nat) \<Rightarrow> ('c \<Rightarrow> 'f list) \<Rightarrow> bool" where
  "bounded_fifo ops is_open cap queue \<longleftrightarrow>
     (\<forall>n. is_open (chan_new ops n) \<and> cap (chan_new ops n) = n \<and> queue (chan_new ops n) = []) \<and>
     (\<forall>c f. case chan_try_send ops c f of
        SendOk c' \<Rightarrow> is_open c \<and> length (queue c) < cap c \<and> queue c' = queue c @ [f]
                       \<and> cap c' = cap c \<and> is_open c'
      | SendFull g \<Rightarrow> is_open c \<and> cap c \<le> length (queue c) \<and> g = f
      | SendClosed g \<Rightarrow> \<not> is_open c \<and> g = f) \<and>
     (\<forall>c. case chan_try_recv ops c of
        None \<Rightarrow> queue c = []
      | Some (c', f) \<Rightarrow> queue c = f # queue c' \<and> cap c' = cap c \<and> is_open c' = is_open c)"

section \<open>The mailbox\<close>

record 'c mailbox =
  chan :: 'c
  mb_capacity :: nat
  mb_policy :: send_policy
  mb_slab :: slab_pool

definition Mailbox_new :: "('c, 'f) chan_ops \<Rightarrow> nat \<Rightarrow> send_policy \<Rightarrow> 'c mailbox" where
  "Mailbox_new ops capacity pol =
     (let cap = max capacity 1 in
      \<lparr>chan = chan_new ops cap, mb_capacity = cap, mb_policy = pol, mb_slab = SlabPool_new cap\<rparr>)"

definition Mailbox_with_pool ::
  "('c, 'f) chan_ops \<Rightarrow> nat \<Rightarrow> send_policy \<Rightarrow> slab_pool \<Rightarrow> 'c mailbox" where
  "Mailbox_with_pool ops capacity pol pool =
     (let cap = max capacity 1 in
      \<lparr>chan = chan_new ops cap, mb_capacity = cap, mb_policy = pol, mb_slab = pool\<rparr>)"

definition u16_le_bytes :: "u16 \<Rightarrow> u8 list" where
  "u16_le_bytes w = [ucast w, ucast (drop_bit 8 w)]"

definition descriptor :: "nat \<Rightarrow> ('v, 'r) message_frame \<Rightarrow> u8 list" where
  "descriptor ib f =
     (let cap = min ib DEFAULT_INLINE_BYTES;
          nm = map (\<lambda>c. of_nat (of_char c)) (proto_msg f);
          tk = min (length nm) (cap - 2);
          hint = of_nat (approx_bytes (payload f)) :: u16
      in take tk nm @ u16_le_bytes hint)"

definition admit ::
  "'c mailbox \<Rightarrow> ('v, 'r) message_frame \<Rightarrow> 'c mailbox \<times> ('v, 'r) message_frame" where
  "admit mb f =
     (case payload f of
        PEmpty \<Rightarrow> (mb, f\<lparr>slab_handle := Some acquire_empty\<rparr>)
      | Inline _ \<Rightarrow>
          (let (pool, h) = acquire_or_overflow (mb_slab mb) (descriptor (inline_bytes (mb_slab mb)) f)
           in (mb\<lparr>mb_slab := pool\<rparr>, f\<lparr>slab_handle := Some h\<rparr>)))"

definition discard :: "'c mailbox \<Rightarrow> ('v, 'r) message_frame \<Rightarrow> 'c mailbox" where
  "discard mb f =
     (case slab_handle f of Some h \<Rightarrow> mb\<lparr>mb_slab := frame_drop (mb_slab mb) h\<rparr> | None \<Rightarrow> mb)"

definition Mailbox_try_send ::
  "('c, ('v, 'r) message_frame) chan_ops \<Rightarrow> 'c mailbox \<Rightarrow> ('v, 'r) message_frame \<Rightarrow>
   'c mailbox \<times> (runtime_error, unit) result" where
  "Mailbox_try_send ops mb f0 =
     (let (mb1, f) = admit mb f0 in
      case chan_try_send ops (chan mb1) f of
        SendOk c \<Rightarrow> (mb1\<lparr>chan := c\<rparr>, Inr ())
      | SendFull g \<Rightarrow> (discard mb1 g, Inl (MailboxFull []))
      | SendClosed g \<Rightarrow> (discard mb1 g, Inl (AgentNotFound ''(closed mailbox)'')))"

text \<open>
  \<open>send\<close>: the outcome \<open>None\<close> is the suspended future of the blocking policy, whose admitted frame is
  still waiting for room in the channel.
\<close>

definition Mailbox_send ::
  "('c, ('v, 'r) message_frame) chan_ops \<Rightarrow> 'c mailbox \<Rightarrow> ('v, 'r) message_frame \<Rightarrow>
   'c mailbox \<times> (runtime_error, unit) result option" where
  "Mailbox_send ops mb f0 =
     (let (mb1, f) = admit mb f0; r = chan_try_send ops (chan mb1) f in
      case mb_policy mb1 of
        Block \<Rightarrow>
          (case r of
             SendOk c \<Rightarrow> (mb1\<lparr>chan := c\<rparr>, Some (Inr ()))
           | SendFull g \<Rightarrow> (mb1, None)
           | SendClosed g \<Rightarrow> (discard mb1 g, Some (Inl (AgentNotFound ''(closed mailbox)''))))
      | DropFrame \<Rightarrow>
          (case r of
             SendOk c \<Rightarrow> (mb1\<lparr>chan := c\<rparr>, Some (Inr ()))
           | SendFull g \<Rightarrow> (discard mb1 g, Some (Inr ()))
           | SendClosed g \<Rightarrow> (discard mb1 g, Some (Inr ())))
      | Fail \<Rightarrow>
          (case r of
             SendOk c \<Rightarrow> (mb1\<lparr>chan := c\<rparr>, Some (Inr ()))
           | SendFull g \<Rightarrow> (discard mb1 g, Some (Inl (MailboxFull [])))
           | SendClosed g \<Rightarrow> (discard mb1 g, Some (Inl (AgentNotFound ''(closed mailbox)'')))))"

fun try_recv_many :: "('c, 'f) chan_ops \<Rightarrow> 'c \<Rightarrow> 'f list \<Rightarrow> nat \<Rightarrow> 'c \<times> 'f list \<times> nat" where
  "try_recv_many ops c out 0 = (c, out, 0)"
| "try_recv_many ops c out (Suc m) =
     (case chan_try_recv ops c of
        Some (c', f) \<Rightarrow>
          (let (c'', out', n) = try_recv_many ops c' (out @ [f]) m in (c'', out', Suc n))
      | None \<Rightarrow> (c, out, 0))"

section \<open>Admission\<close>

lemma admit_frame [simp]:
  "chan (fst (admit mb f)) = chan mb" "mb_policy (fst (admit mb f)) = mb_policy mb"
  "mb_capacity (fst (admit mb f)) = mb_capacity mb"
  "proto_msg (snd (admit mb f)) = proto_msg f" "payload (snd (admit mb f)) = payload f"
  "deadline (snd (admit mb f)) = deadline f" "seq (snd (admit mb f)) = seq f"
  by (auto simp: admit_def Let_def split: small_payload.splits prod.splits)

lemma admit_handle:
  assumes "pool_ok (mb_slab mb) hs"
  obtains h where "slab_handle (snd (admit mb f)) = Some h" "pool_ok (mb_slab (fst (admit mb f))) (h # hs)"
proof (cases "payload f")
  case PEmpty
  then have "slab_handle (snd (admit mb f)) = Some acquire_empty"
    "pool_ok (mb_slab (fst (admit mb f))) (acquire_empty # hs)"
    using assms by (simp_all add: admit_def acquire_empty_def pool_ok_def)
  then show ?thesis by (rule that)
next
  case (Inline vs)
  obtain p h where a: "acquire_or_overflow (mb_slab mb) (descriptor (inline_bytes (mb_slab mb)) f) = (p, h)"
    by fastforce
  with Inline have "slab_handle (snd (admit mb f)) = Some h" "mb_slab (fst (admit mb f)) = p"
    by (simp_all add: admit_def)
  then show ?thesis using that slab.acq_ok [OF assms a] by metis
qed

lemma discard_ok:
  assumes "pool_ok (mb_slab mb) (h # hs)" "slab_handle f = Some h"
  shows "pool_ok (mb_slab (discard mb f)) hs"
  using slab.rel_ok [of "mb_slab mb" "[]" h hs] assms by (simp add: discard_def)

text \<open>Length of the descriptor: name prefix and size hint always fit the inline buffer.\<close>

lemma descriptor_length:
  "2 \<le> ib \<Longrightarrow> length (descriptor ib f) \<le> min ib DEFAULT_INLINE_BYTES"
  by (auto simp: descriptor_def Let_def u16_le_bytes_def DEFAULT_INLINE_BYTES_def)


lemma try_recv_many_queue:
  assumes "bounded_fifo ops is_open cap queue"
  shows "try_recv_many ops c out m = (c', out', n) \<Longrightarrow>
    n = min m (length (queue c)) \<and> out' = out @ take n (queue c) \<and> queue c' = drop n (queue c)"
proof (induction m arbitrary: c out c' out' n)
  case (Suc m)
  have r: "case chan_try_recv ops c of None \<Rightarrow> queue c = []
      | Some (d, f) \<Rightarrow> queue c = f # queue d \<and> cap d = cap c \<and> is_open d = is_open c"
    using assms by (simp add: bounded_fifo_def)
  show ?case
  proof (cases "chan_try_recv ops c")
    case None
    with Suc.prems r show ?thesis by simp
  next
    case (Some df)
    obtain d f where df: "df = (d, f)" by (cases df)
    obtain k where "try_recv_many ops d (out @ [f]) m = (c', out', k)" "n = Suc k"
      using Suc.prems Some df by (auto split: prod.splits)
    with Suc.IH r Some df show ?thesis by fastforce
  qed
qed simp

text \<open>
  A batched drain takes the oldest frames in order: it returns the number of frames it appended,
  which is the smaller of the requested maximum and the queue length, and leaves exactly the rest.
\<close>

theorem try_recv_many_fifo:
  assumes "bounded_fifo ops is_open cap queue" and "try_recv_many ops c out m = (c', out', n)"
  shows "n = min m (length (queue c)) \<and> out' = out @ take n (queue c) \<and> queue c' = drop n (queue c)"
  by (rule try_recv_many_queue [OF assms])

section \<open>A concrete channel\<close>

text \<open>
  The documented behaviour of a bounded channel is consistent: a list of frames with a capacity and
  an open flag satisfies it.
\<close>

definition list_chan :: "(bool \<times> nat \<times> 'f list, 'f) chan_ops" where
  "list_chan = \<lparr>chan_new = (\<lambda>n. (True, n, [])),
     chan_try_send = (\<lambda>(opn, n, q) f.
        if \<not> opn then SendClosed f else if n \<le> length q then SendFull f else SendOk (opn, n, q @ [f])),
     chan_try_recv = (\<lambda>(opn, n, q). case q of [] \<Rightarrow> None | f # fs \<Rightarrow> Some ((opn, n, fs), f))\<rparr>"

lemma list_chan_fifo: "bounded_fifo list_chan fst (\<lambda>c. fst (snd c)) (\<lambda>c. snd (snd c))"
  by (auto simp: bounded_fifo_def list_chan_def split: list.splits)

definition example_mailbox :: "(bool \<times> nat \<times> (nat, unit) message_frame list) mailbox" where
  "example_mailbox = Mailbox_new list_chan 1 Fail"


theorem try_recv_many_fifo_witness:
  "snd (try_recv_many list_chan (True, 3, [''a'', ''b'', ''c'']) [] 2) = ([''a'', ''b''], 2)"
proof -
  obtain c' out' n where r: "try_recv_many list_chan (True, 3, [''a'', ''b'', ''c'']) [] 2 = (c', out', n)"
    by (cases "try_recv_many list_chan (True, 3, [''a'', ''b'', ''c'']) [] 2") auto
  from try_recv_many_fifo [OF list_chan_fifo r] r show ?thesis by simp
qed

end
