(* ===== verification/Rt_Cluster.thy ===== *)
theory Rt_Cluster
  imports Mty_Store
begin

text \<open>
  The cluster mesh of the runtime, \<^verbatim>\<open>crates/mty-runtime/src/cluster\<close>: agent addresses
  (\<^verbatim>\<open>address.rs\<close>), the framed wire protocol (\<^verbatim>\<open>wire.rs\<close>) and the table that matches replies to
  outstanding requests (\<^verbatim>\<open>correlation.rs\<close>). The CBOR codec is a library: its encoder and decoder are
  parameters, and the lemmas assume of them only that decoding an encoding gives the frame back. An
  asynchronous byte source is the list of the bytes it will still deliver, then end of file; a sink is
  the list of the bytes written. A oneshot channel is a number, its receiving end an entry of the map of
  delivered frames; a sender that is dropped leaves no entry. Every method of the correlation table is
  one step; the sharded maps are ordered maps.
\<close>

section \<open>Addresses and frames\<close>

type_synonym node_id = string

record agent_addr =
  aa_node :: node_id
  aa_agent_type :: string
  aa_agent_id :: u64

text \<open>The identity of the running node, read once from the environment, is an argument.\<close>

definition addr_local :: "node_id \<Rightarrow> string \<Rightarrow> u64 \<Rightarrow> agent_addr" where
  "addr_local current t i = \<lparr>aa_node = current, aa_agent_type = t, aa_agent_id = i\<rparr>"

definition addr_remote :: "node_id \<Rightarrow> string \<Rightarrow> u64 \<Rightarrow> agent_addr" where
  "addr_remote n t i = \<lparr>aa_node = n, aa_agent_type = t, aa_agent_id = i\<rparr>"

definition is_local :: "node_id \<Rightarrow> agent_addr \<Rightarrow> bool" where
  "is_local current a \<longleftrightarrow> aa_node a = current"

definition show_addr :: "agent_addr \<Rightarrow> string" where
  "show_addr a = aa_node a @ '':'' @ aa_agent_type a @ '':'' @ show_nat (unat (aa_agent_id a))"

definition current_node_id :: "string option \<Rightarrow> node_id" where
  "current_node_id env = (case env of Some s \<Rightarrow> if s \<noteq> [] then s else ''local'' | None \<Rightarrow> ''local'')"

definition WIRE_VERSION :: u32 where
  "WIRE_VERSION = 1"

definition MAX_FRAME_BYTES :: nat where
  "MAX_FRAME_BYTES = 8 * 1024 * 1024"

datatype wire_frame =
    Hello node_id u32
  | Heartbeat
  | Send agent_addr agent_addr string "u8 list"
  | Ask agent_addr agent_addr string "u8 list" u64
  | Reply u64 "u8 list"
  | ErrorFrame u64 string string
  | Goodbye
  | MigrateSnapshot agent_addr node_id string u64 "u8 list"
  | MigrateAck agent_addr agent_addr node_id
  | MigrateError agent_addr node_id string string

datatype wire_error = WIo string | WEncode string | WDecode string | FrameTooLarge nat

section \<open>Framing\<close>

definition to_be_bytes :: "u32 \<Rightarrow> u8 list" where
  "to_be_bytes w = map (\<lambda>k. of_nat (unat w div 256 ^ k)) [3, 2, 1, 0]"

definition from_be_bytes :: "u8 list \<Rightarrow> u32" where
  "from_be_bytes bs = of_nat (foldl (\<lambda>a b. a * 256 + unat b) 0 bs)"

type_synonym cbor_encoder = "wire_frame \<Rightarrow> (string, u8 list) result"
type_synonym cbor_decoder = "u8 list \<Rightarrow> (string, wire_frame) result"

definition encode_frame :: "cbor_encoder \<Rightarrow> wire_frame \<Rightarrow> (wire_error, u8 list) result" where
  "encode_frame enc frame =
     (case enc frame of
        Inl e \<Rightarrow> Inl (WEncode e)
      | Inr body \<Rightarrow>
          if MAX_FRAME_BYTES < length body then Inl (FrameTooLarge (length body))
          else Inr (to_be_bytes (of_nat (length body)) @ body))"

definition decode_frame :: "cbor_decoder \<Rightarrow> u8 list \<Rightarrow> (wire_error, wire_frame \<times> nat) result" where
  "decode_frame dec buf =
     (if length buf < 4 then Inl (WDecode ''buffer shorter than length prefix'')
      else let len = unat (from_be_bytes (take 4 buf))
           in if MAX_FRAME_BYTES < len then Inl (FrameTooLarge len)
              else if length buf < 4 + len
              then Inl (WDecode (''buffer shorter than body (need '' @ show_nat len @ ''+4, have '' @
                                 show_nat (length buf) @ '')''))
              else case dec (take len (drop 4 buf)) of
                     Inl e \<Rightarrow> Inl (WDecode e)
                   | Inr frame \<Rightarrow> Inr (frame, 4 + len))"

definition read_exact :: "nat \<Rightarrow> u8 list \<Rightarrow> u8 list option \<times> u8 list" where
  "read_exact n src = (if n \<le> length src then (Some (take n src), drop n src) else (None, []))"

definition write_frame_async :: "cbor_encoder \<Rightarrow> u8 list \<Rightarrow> wire_frame \<Rightarrow> (wire_error, u8 list) result" where
  "write_frame_async enc sink frame = and_then (encode_frame enc frame) (\<lambda>bytes. Inr (sink @ bytes))"

definition read_frame_async :: "cbor_decoder \<Rightarrow> u8 list \<Rightarrow> (wire_error, wire_frame option) result \<times> u8 list" where
  "read_frame_async dec src =
     (case read_exact 4 src of
        (None, src1) \<Rightarrow> (Inr None, src1)
      | (Some len_buf, src1) \<Rightarrow>
          let len = unat (from_be_bytes len_buf)
          in if MAX_FRAME_BYTES < len then (Inl (FrameTooLarge len), src1)
             else case read_exact len src1 of
                    (None, src2) \<Rightarrow> (Inl (WIo ''unexpected end of file''), src2)
                  | (Some body, src2) \<Rightarrow>
                      (case dec body of
                         Inl e \<Rightarrow> (Inl (WDecode e), src2)
                       | Inr frame \<Rightarrow> (Inr (Some frame), src2)))"

section \<open>The correlation table\<close>

record correlation_table =
  next_id :: u64
  pending :: "(u64 \<times> nat) list"
  targets :: "(u64 \<times> node_id) list"
  channels :: nat
  inbox :: "nat \<rightharpoonup> wire_frame"

definition CorrelationTable_new :: correlation_table where
  "CorrelationTable_new = \<lparr>next_id = 0, pending = [], targets = [], channels = 0, inbox = Map.empty\<rparr>"

definition register :: "correlation_table \<Rightarrow> correlation_table \<times> u64 \<times> nat" where
  "register t =
     (let i = next_id t + 1; c = channels t
      in (t\<lparr>next_id := i, channels := Suc c, pending := bt_insert (pending t) (i, c)\<rparr>, i, c))"

definition register_for_node :: "node_id \<Rightarrow> correlation_table \<Rightarrow> correlation_table \<times> u64 \<times> nat" where
  "register_for_node node t =
     (let (t1, i, c) = register t in (t1\<lparr>targets := bt_insert (targets t1) (i, node)\<rparr>, i, c))"

text \<open>Removing the entry of an id and sending a frame on its channel.\<close>

definition settle :: "u64 \<Rightarrow> wire_frame \<Rightarrow> correlation_table \<Rightarrow> correlation_table \<times> bool" where
  "settle i frame t =
     (let t1 = t\<lparr>targets := bt_remove (targets t) i\<rparr>
      in case bt_get (pending t1) i of
           Some (_, c) \<Rightarrow>
             (t1\<lparr>pending := bt_remove (pending t1) i, inbox := (inbox t1)(c \<mapsto> frame)\<rparr>, True)
         | None \<Rightarrow> (t1, False))"

definition disconnect_error :: "node_id \<Rightarrow> u64 \<Rightarrow> wire_frame" where
  "disconnect_error node i =
     ErrorFrame i ''peer_disconnected'' (''peer for node '' @ node @ '' disconnected mid-ask'')"

definition fail_targeting_node :: "node_id \<Rightarrow> correlation_table \<Rightarrow> correlation_table" where
  "fail_targeting_node node t =
     foldl (\<lambda>t i. fst (settle i (disconnect_error node i) t)) t
       (map fst (filter (\<lambda>e. snd e = node) (targets t)))"

definition complete :: "u64 \<Rightarrow> wire_frame \<Rightarrow> correlation_table \<Rightarrow> correlation_table \<times> bool" where
  "complete i frame t = settle i frame t"

definition cleanup :: "u64 \<Rightarrow> correlation_table \<Rightarrow> correlation_table" where
  "cleanup i t = t\<lparr>targets := bt_remove (targets t) i, pending := bt_remove (pending t) i\<rparr>"

definition fail_all_with :: "(u64 \<Rightarrow> wire_frame) \<Rightarrow> correlation_table \<Rightarrow> correlation_table" where
  "fail_all_with frame_for t = foldl (\<lambda>t i. fst (settle i (frame_for i) t)) t (map fst (pending t))"

definition pending_count :: "correlation_table \<Rightarrow> nat" where
  "pending_count t = length (pending t)"

section \<open>Round trip of frames\<close>

lemma be_bytes_roundtrip: "from_be_bytes (to_be_bytes w) = w"
proof -
  let ?n = "unat w"
  have u: "unat (of_nat m :: u8) = m mod 256" for m by (simp add: unat_of_nat)
  have lt: "?n < 2 ^ 32" using unsigned_less [of w, where ?'a = nat] by simp
  have "?n div 256 ^ 3 mod 256 = ?n div 256 ^ 3" using lt by (simp add: less_mult_imp_div_less)
  then have "((?n div 256 ^ 3 mod 256 * 256 + ?n div 256 ^ 2 mod 256) * 256 + ?n div 256 mod 256) * 256 + ?n mod 256 = ?n"
    using div_mult_mod_eq [of ?n 256] div_mult_mod_eq [of "?n div 256" 256] div_mult_mod_eq [of "?n div 256 ^ 2" 256]
    by (simp add: div_mult2_eq [symmetric] power2_eq_square power3_eq_cube)
  then have "foldl (\<lambda>a b. a * 256 + unat b) 0 (to_be_bytes w) = ?n"
    unfolding to_be_bytes_def list.map foldl.simps u
    by (simp only: mult_zero_left add_0 power_0 power_one_right div_by_1)
  then show ?thesis unfolding from_be_bytes_def by simp
qed

lemma to_be_bytes_length [simp]: "length (to_be_bytes w) = 4"
  by (simp add: to_be_bytes_def)

lemma frame_length_fits: "n \<le> MAX_FRAME_BYTES \<Longrightarrow> unat (of_nat n :: u32) = n"
  by (simp add: MAX_FRAME_BYTES_def unat_of_nat)

lemma encode_frame_ok:
  "encode_frame enc frame = Inr bs \<longleftrightarrow> (\<exists>body. enc frame = Inr body \<and> length body \<le> MAX_FRAME_BYTES \<and>
     bs = to_be_bytes (of_nat (length body)) @ body)"
  by (auto simp: encode_frame_def split: sum.splits if_splits)

text \<open>C30. Frames survive the wire. Given a codec whose decoder inverts its encoder, an encoded frame has
  at most \<open>MAX_FRAME_BYTES\<close> after its four-byte length, it decodes to the frame and its exact length
  whatever follows it in the buffer, and the stream reader returns it and leaves what follows. A proper
  prefix never decodes to a frame: the buffer decoder reports a decode error; the stream reader reports
  an I/O error once the length has arrived and the end of the stream when it has not.\<close>

theorem wire_roundtrip:
  assumes codec: "\<forall>f b. enc f = Inr b \<longrightarrow> dec b = Inr f" and bs: "encode_frame enc frame = Inr bs"
  shows "length bs \<le> 4 + MAX_FRAME_BYTES \<and>
    decode_frame dec (bs @ rest) = Inr (frame, length bs) \<and>
    read_frame_async dec (bs @ rest) = (Inr (Some frame), rest) \<and>
    (\<forall>k < length bs. (\<exists>msg. decode_frame dec (take k bs) = Inl (WDecode msg)) \<and>
       read_frame_async dec (take k bs) = (if k < 4 then Inr None else Inl (WIo ''unexpected end of file''), []))"
proof -
  obtain body where body: "enc frame = Inr body" "length body \<le> MAX_FRAME_BYTES"
    and bs_eq: "bs = to_be_bytes (of_nat (length body)) @ body"
    using bs by (auto simp: encode_frame_ok)
  have len: "unat (from_be_bytes (to_be_bytes (of_nat (length body)))) = length body"
    using frame_length_fits [OF body(2)] by (simp add: be_bytes_roundtrip)
  have dec: "dec body = Inr frame" using codec body(1) by blast
  have pre: "unat (from_be_bytes (take 4 (take k bs))) = length body" if "4 \<le> k" for k
    using len that by (simp add: bs_eq take_take)
  have "(\<exists>msg. decode_frame dec (take k bs) = Inl (WDecode msg)) \<and>
      read_frame_async dec (take k bs) = (if k < 4 then Inr None else Inl (WIo ''unexpected end of file''), [])"
    if k: "k < length bs" for k
  proof (cases "k < 4")
    case True
    then show ?thesis using k by (auto simp: decode_frame_def read_frame_async_def read_exact_def)
  next
    case False
    then show ?thesis
      using k pre [of k] body(2)
      by (auto simp: decode_frame_def read_frame_async_def read_exact_def Let_def bs_eq min_def)
  qed
  moreover have "decode_frame dec (bs @ rest) = Inr (frame, length bs)"
    using len body(2) dec by (simp add: decode_frame_def bs_eq Let_def)
  moreover have "read_frame_async dec (bs @ rest) = (Inr (Some frame), rest)"
    using len body(2) dec by (simp add: read_frame_async_def read_exact_def bs_eq Let_def)
  moreover have "length bs \<le> 4 + MAX_FRAME_BYTES" using body(2) by (simp add: bs_eq)
  ultimately show ?thesis by blast
qed

theorem wire_roundtrip_witness:
  "decode_frame (\<lambda>b. if b = [246] then Inr Heartbeat else Inl ''unsupported'')
     ([0, 0, 0, 1, 246] @ [7, 7]) = Inr (Heartbeat, 5)"
proof -
  let ?enc = "\<lambda>f. if f = Heartbeat then Inr [246] else Inl ''unsupported''"
  have "encode_frame ?enc Heartbeat = Inr [0, 0, 0, 1, 246]"
    by (simp add: encode_frame_def MAX_FRAME_BYTES_def to_be_bytes_def)
  from wire_roundtrip [OF _ this, of "\<lambda>b. if b = [246] then Inr Heartbeat else Inl ''unsupported''" "[7, 7]"]
  show ?thesis by simp
qed

section \<open>Every request is settled at most once\<close>

datatype corr_op =
    Register
  | RegisterFor node_id
  | FailNode node_id
  | Complete u64 wire_frame
  | Cleanup u64
  | FailAll "u64 \<Rightarrow> wire_frame"

fun corr_apply :: "corr_op \<Rightarrow> correlation_table \<Rightarrow> correlation_table" where
  "corr_apply Register t = fst (register t)"
| "corr_apply (RegisterFor n) t = fst (register_for_node n t)"
| "corr_apply (FailNode n) t = fail_targeting_node n t"
| "corr_apply (Complete i f) t = fst (complete i f t)"
| "corr_apply (Cleanup i) t = cleanup i t"
| "corr_apply (FailAll g) t = fail_all_with g t"

inductive corr_reach :: "correlation_table \<Rightarrow> bool" where
  init: "corr_reach CorrelationTable_new"
| step: "corr_reach t \<Longrightarrow> corr_reach (corr_apply op t)"

definition pend :: "correlation_table \<Rightarrow> u64 \<Rightarrow> nat option" where
  "pend t i = map_option snd (bt_get (pending t) i)"

definition target :: "correlation_table \<Rightarrow> u64 \<Rightarrow> node_id option" where
  "target t i = map_option snd (bt_get (targets t) i)"

text \<open>The invariant: an id belongs to the channel it was created with, and a channel with a sender has
  not received anything.\<close>

definition corr_inv :: "correlation_table \<Rightarrow> bool" where
  "corr_inv t \<longleftrightarrow> bt_inv (pending t) \<and> bt_inv (targets t) \<and> next_id t = of_nat (channels t) \<and>
     (\<forall>i c. pend t i = Some c \<longrightarrow> c < channels t \<and> i = of_nat (Suc c) \<and> inbox t c = None) \<and>
     (\<forall>c f. inbox t c = Some f \<longrightarrow> c < channels t)"

lemma settle_pend:
  assumes "bt_inv (pending t)" "bt_inv (targets t)"
  shows "pend (fst (settle i f t)) = (pend t)(i := None)"
    "target (fst (settle i f t)) = (target t)(i := None)"
    "inbox (fst (settle i f t)) = (case pend t i of Some c \<Rightarrow> (inbox t)(c \<mapsto> f) | None \<Rightarrow> inbox t)"
    "bt_inv (pending (fst (settle i f t)))" "bt_inv (targets (fst (settle i f t)))"
    "next_id (fst (settle i f t)) = next_id t" "channels (fst (settle i f t)) = channels t"
  using assms
  by (auto simp: settle_def Let_def pend_def target_def bt.look_del bt.inv_del fun_eq_iff split: option.splits)

lemma settle_inv: "corr_inv t \<Longrightarrow> corr_inv (fst (settle i f t))"
  unfolding corr_inv_def
proof (elim conjE, intro conjI)
  assume a: "bt_inv (pending t)" "bt_inv (targets t)" "next_id t = of_nat (channels t)"
    "\<forall>i c. pend t i = Some c \<longrightarrow> c < channels t \<and> i = of_nat (Suc c) \<and> inbox t c = None"
    "\<forall>c f. inbox t c = Some f \<longrightarrow> c < channels t"
  note s = settle_pend [OF a(1,2), of i f]
  show "\<forall>j c. pend (fst (settle i f t)) j = Some c \<longrightarrow>
      c < channels (fst (settle i f t)) \<and> j = of_nat (Suc c) \<and> inbox (fst (settle i f t)) c = None"
    unfolding s using a(4) by (auto split: option.splits)
  show "\<forall>c g. inbox (fst (settle i f t)) c = Some g \<longrightarrow> c < channels (fst (settle i f t))"
    unfolding s using a(4,5) by (auto split: option.splits if_splits)
qed (simp_all add: settle_pend)

definition settle_all :: "(u64 \<Rightarrow> wire_frame) \<Rightarrow> correlation_table \<Rightarrow> u64 list \<Rightarrow> correlation_table" where
  "settle_all g t ids = foldl (\<lambda>t i. fst (settle i (g i) t)) t ids"

lemma settle_all_spec:
  "corr_inv t \<Longrightarrow> corr_inv (settle_all g t ids) \<and> channels (settle_all g t ids) = channels t \<and>
     pend (settle_all g t ids) = (\<lambda>i. if i \<in> set ids then None else pend t i) \<and>
     inbox (settle_all g t ids) =
       (\<lambda>c. if of_nat (Suc c) \<in> set ids \<and> pend t (of_nat (Suc c)) = Some c
            then Some (g (of_nat (Suc c))) else inbox t c)"
proof (induction ids arbitrary: t)
  case (Cons i ids)
  let ?t = "fst (settle i (g i) t)"
  have inv: "bt_inv (pending t)" "bt_inv (targets t)"
    and own: "\<And>j c. pend t j = Some c \<Longrightarrow> j = of_nat (Suc c)"
    using Cons.prems by (auto simp: corr_inv_def)
  note s = settle_pend [OF inv, of i "g i"]
  have r: "settle_all g t (i # ids) = settle_all g ?t ids" by (simp add: settle_all_def)
  have "inbox (settle_all g ?t ids) c = (if of_nat (Suc c) \<in> set (i # ids) \<and> pend t (of_nat (Suc c)) = Some c
      then Some (g (of_nat (Suc c))) else inbox t c)" for c
    using Cons.IH [OF settle_inv [OF Cons.prems], of i "g i"] own [of i] unfolding s
    by (auto split: option.splits)
  then show ?case
    using Cons.IH [OF settle_inv [OF Cons.prems], of i "g i"] unfolding r s by auto
qed (simp add: settle_all_def)

lemma fail_ops:
  "fail_targeting_node n t = settle_all (disconnect_error n) t (map fst (filter (\<lambda>e. snd e = n) (targets t)))"
  "fail_all_with g t = settle_all g t (map fst (pending t))"
  by (simp_all add: fail_targeting_node_def fail_all_with_def settle_all_def)

lemma target_entries:
  "bt_inv (targets t) \<Longrightarrow> i \<in> set (map fst (filter (\<lambda>e. snd e = n) (targets t))) \<longleftrightarrow> target t i = Some n"
  by (force simp: target_def bt_get_map_of bt_inv_def)

lemma register_spec:
  assumes "corr_inv t"
  shows "pend (fst (register t)) = (pend t)(of_nat (Suc (channels t)) \<mapsto> channels t)"
    "inbox (fst (register t)) = inbox t" "channels (fst (register t)) = Suc (channels t)"
    "target (fst (register t)) = target t" "corr_inv (fst (register t))"
proof -
  have p: "bt_inv (pending t)" and n: "next_id t = of_nat (channels t)" using assms by (auto simp: corr_inv_def)
  show "pend (fst (register t)) = (pend t)(of_nat (Suc (channels t)) \<mapsto> channels t)"
    using p n by (auto simp: register_def Let_def pend_def bt.look_put fun_eq_iff add.commute)
  then show "corr_inv (fst (register t))"
    using assms unfolding corr_inv_def
    by (auto simp: register_def Let_def bt.inv_put add.commute less_Suc_eq split: if_splits)
qed (simp_all add: register_def Let_def target_def fun_eq_iff)

lemma register_for_node_spec:
  "pend (fst (register_for_node n t)) = pend (fst (register t))" "inbox (fst (register_for_node n t)) = inbox (fst (register t))"
  "channels (fst (register_for_node n t)) = channels (fst (register t))"
  "corr_inv (fst (register t)) \<Longrightarrow> corr_inv (fst (register_for_node n t))"
  by (auto simp: register_for_node_def split_beta Let_def pend_def corr_inv_def bt.inv_put)

lemma cleanup_spec:
  assumes "corr_inv t"
  shows "pend (cleanup i t) = (pend t)(i := None)" "inbox (cleanup i t) = inbox t" "corr_inv (cleanup i t)"
proof -
  show p: "pend (cleanup i t) = (pend t)(i := None)"
    using assms by (auto simp: cleanup_def pend_def bt.look_del corr_inv_def fun_eq_iff)
  show "inbox (cleanup i t) = inbox t" by (simp add: cleanup_def)
  show "corr_inv (cleanup i t)" using assms unfolding corr_inv_def p by (auto simp: cleanup_def bt.inv_del)
qed

lemma corr_apply_inv: "corr_inv t \<Longrightarrow> corr_inv (corr_apply op t)"
  by (cases op) (simp_all add: register_spec register_for_node_spec fail_ops settle_all_spec complete_def settle_inv
      cleanup_spec)

lemma reach_inv: "corr_reach t \<Longrightarrow> corr_inv t"
proof (induction rule: corr_reach.induct)
  case init
  show ?case by (simp add: corr_inv_def CorrelationTable_new_def bt.inv_emp pend_def bt.look_emp)
qed (rule corr_apply_inv)

lemma fail_node_spec:
  assumes "corr_inv t"
  shows "inbox (fail_targeting_node n t) =
      (\<lambda>c. if target t (of_nat (Suc c)) = Some n \<and> pend t (of_nat (Suc c)) = Some c
           then Some (disconnect_error n (of_nat (Suc c))) else inbox t c)"
    "pend (fail_targeting_node n t) = (\<lambda>i. if target t i = Some n then None else pend t i)"
proof -
  have "bt_inv (targets t)" using assms by (simp add: corr_inv_def)
  note te = target_entries [OF this] and sa = settle_all_spec [OF assms, THEN conjunct2, THEN conjunct2]
  show "inbox (fail_targeting_node n t) =
      (\<lambda>c. if target t (of_nat (Suc c)) = Some n \<and> pend t (of_nat (Suc c)) = Some c
           then Some (disconnect_error n (of_nat (Suc c))) else inbox t c)"
    unfolding fail_ops sa [THEN conjunct2] te ..
  show "pend (fail_targeting_node n t) = (\<lambda>i. if target t i = Some n then None else pend t i)"
    unfolding fail_ops sa [THEN conjunct1] te ..
qed

lemma pending_entries: "i \<in> set (map fst (pending t)) \<longleftrightarrow> pend t i \<noteq> None"
  by (auto simp: pend_def bt_get_map_of map_of_eq_None_iff)

lemma fail_all_spec:
  assumes "corr_inv t"
  shows "inbox (fail_all_with g t) =
      (\<lambda>c. if pend t (of_nat (Suc c)) = Some c then Some (g (of_nat (Suc c))) else inbox t c)"
    "pend (fail_all_with g t) = (\<lambda>i. None)"
proof -
  note te = pending_entries [of _ t] and sa = settle_all_spec [OF assms, THEN conjunct2, THEN conjunct2]
  show "inbox (fail_all_with g t) =
      (\<lambda>c. if pend t (of_nat (Suc c)) = Some c then Some (g (of_nat (Suc c))) else inbox t c)"
    unfolding fail_ops sa [THEN conjunct2] te by (simp add: fun_eq_iff)
  show "pend (fail_all_with g t) = (\<lambda>i. None)"
    unfolding fail_ops sa [THEN conjunct1] te by auto
qed

lemma complete_inbox:
  assumes "corr_inv t"
  shows "inbox (fst (complete i f t)) =
    (\<lambda>c. if i = of_nat (Suc c) \<and> pend t (of_nat (Suc c)) = Some c then Some f else inbox t c)"
    "snd (complete i f t) \<longleftrightarrow> pend t i \<noteq> None"
proof -
  have inv: "bt_inv (pending t)" "bt_inv (targets t)" and own: "\<And>j c. pend t j = Some c \<Longrightarrow> j = of_nat (Suc c)"
    using assms by (auto simp: corr_inv_def)
  show "inbox (fst (complete i f t)) =
      (\<lambda>c. if i = of_nat (Suc c) \<and> pend t (of_nat (Suc c)) = Some c then Some f else inbox t c)"
  proof (cases "pend t i")
    case None
    then show ?thesis by (auto simp: complete_def settle_pend [OF inv] fun_eq_iff)
  next
    case (Some d)
    then have i: "i = of_nat (Suc d)" by (rule own)
    have "inbox (fst (complete i f t)) c =
        (if i = of_nat (Suc c) \<and> pend t (of_nat (Suc c)) = Some c then Some f else inbox t c)" for c
      using Some unfolding complete_def settle_pend [OF inv] i by (cases "c = d") (auto simp del: of_nat_Suc)
    then show ?thesis by (rule ext)
  qed
  show "snd (complete i f t) \<longleftrightarrow> pend t i \<noteq> None"
    by (auto simp: complete_def settle_def Let_def pend_def split: option.splits)
qed

text \<open>C29. A request is settled at most once, and by its own correlation id. In every state of the table
  that its methods can reach, in any order and also after the 64-bit counter has wrapped around: a frame
  that a caller has received stays; a caller receives a frame only while its id (its channel number plus
  one) is pending, and then either the reply completed under that id, or the error of the disconnect of
  the node its request went to, or the frame of a general failure for its id. A disconnect settles every
  pending request to that node, a general failure all of them, and \<open>complete\<close> reports exactly whether
  the id was pending.\<close>

theorem ask_settled_once:
  assumes "corr_reach t"
  shows "(inbox t c = Some f \<longrightarrow> inbox (corr_apply op t) c = Some f) \<and>
    (inbox t c = None \<and> inbox (corr_apply op t) c = Some f \<longrightarrow>
       pend t (of_nat (Suc c)) = Some c \<and>
       (op = Complete (of_nat (Suc c)) f \<or>
        (\<exists>n. op = FailNode n \<and> target t (of_nat (Suc c)) = Some n \<and> f = disconnect_error n (of_nat (Suc c))) \<or>
        (\<exists>g. op = FailAll g \<and> f = g (of_nat (Suc c))))) \<and>
    (pend t i = Some c \<and> target t i = Some n \<longrightarrow>
       inbox (fail_targeting_node n t) c = Some (disconnect_error n i) \<and> pend (fail_targeting_node n t) i = None) \<and>
    (pend t i = Some c \<longrightarrow> inbox (fail_all_with g t) c = Some (g i) \<and> pend (fail_all_with g t) i = None) \<and>
    (snd (complete i f t) \<longleftrightarrow> pend t i \<noteq> None)"
proof -
  have inv: "corr_inv t" by (rule reach_inv [OF assms])
  have own: "pend t j = Some d \<Longrightarrow> j = of_nat (Suc d) \<and> inbox t d = None" for j d
    using inv by (auto simp: corr_inv_def)
  note sp = register_spec [OF inv] register_for_node_spec fail_node_spec [OF inv] fail_all_spec [OF inv]
    complete_inbox [OF inv] cleanup_spec [OF inv]
  have "inbox t c = Some f \<longrightarrow> inbox (corr_apply op t) c = Some f"
    using own [of "of_nat (Suc c)" c] by (cases op) (auto simp: sp)
  moreover have "inbox t c = None \<and> inbox (corr_apply op t) c = Some f \<longrightarrow>
      pend t (of_nat (Suc c)) = Some c \<and>
       (op = Complete (of_nat (Suc c)) f \<or>
        (\<exists>n. op = FailNode n \<and> target t (of_nat (Suc c)) = Some n \<and> f = disconnect_error n (of_nat (Suc c))) \<or>
        (\<exists>g. op = FailAll g \<and> f = g (of_nat (Suc c))))"
    by (cases op) (auto simp: sp split: if_splits)
  moreover have "pend t i = Some c \<and> target t i = Some n \<longrightarrow>
      inbox (fail_targeting_node n t) c = Some (disconnect_error n i) \<and> pend (fail_targeting_node n t) i = None"
    using own [of i c] by (auto simp: sp)
  moreover have "pend t i = Some c \<longrightarrow> inbox (fail_all_with g t) c = Some (g i) \<and> pend (fail_all_with g t) i = None"
    using own [of i c] by (auto simp: sp)
  ultimately show ?thesis using sp by blast
qed

theorem ask_settled_once_witness:
  "let t = corr_apply (RegisterFor ''n2'') (corr_apply Register CorrelationTable_new)
   in pend t 2 = Some 1 \<and> inbox (fail_targeting_node ''n2'' t) 1 = Some (disconnect_error ''n2'' 2)"
proof -
  let ?t = "corr_apply (RegisterFor ''n2'') (corr_apply Register CorrelationTable_new)"
  have r: "corr_reach ?t" by (intro corr_reach.intros)
  have "pend ?t 2 = Some 1" "target ?t 2 = Some ''n2''"
    by (simp_all add: register_for_node_def register_def CorrelationTable_new_def Let_def pend_def target_def bt_get_def)
  then show ?thesis using ask_settled_once [OF r, where c = 1 and i = 2 and n = "''n2''"] by simp
qed

end
