(* ===== verification/Rt_Placement.thy ===== *)
theory Rt_Placement
  imports Rt_Cluster
begin

text \<open>
  Placement and supervision across nodes, \<^verbatim>\<open>crates/mty-runtime/src/cluster/placement.rs\<close> and
  \<^verbatim>\<open>supervisor.rs\<close>: the placement context and its three policies, and the cluster supervisor with its
  strategies, circuit breaker and events. The hash map of children is the list of its entries in
  iteration order, with distinct addresses; the clock is an argument, in nanoseconds; the text that
  explains why a child is dead is the value it is printed from; the event channel is the list of the
  events sent. A policy is the function \<open>place\<close> of its trait object.
\<close>

section \<open>Placement\<close>

record placement_context =
  available_nodes :: "node_id list"
  current_node :: "node_id option"
  child_count_per_node :: "node_id \<rightharpoonup> nat"

definition PlacementContext_new :: "node_id list \<Rightarrow> placement_context" where
  "PlacementContext_new nodes = \<lparr>available_nodes = nodes, current_node = None, child_count_per_node = Map.empty\<rparr>"

definition with_current_node :: "node_id \<Rightarrow> placement_context \<Rightarrow> placement_context" where
  "with_current_node n ctx = ctx\<lparr>current_node := Some n\<rparr>"

definition with_child_counts :: "(node_id \<rightharpoonup> nat) \<Rightarrow> placement_context \<Rightarrow> placement_context" where
  "with_child_counts counts ctx = ctx\<lparr>child_count_per_node := counts\<rparr>"

definition count_of :: "placement_context \<Rightarrow> node_id \<Rightarrow> nat" where
  "count_of ctx n = (case child_count_per_node ctx n of Some c \<Rightarrow> c | None \<Rightarrow> 0)"

definition better_node :: "placement_context \<Rightarrow> (node_id \<times> nat) option \<Rightarrow> node_id \<Rightarrow> (node_id \<times> nat) option" where
  "better_node ctx best n =
     (let count = count_of ctx n
      in case best of
           None \<Rightarrow> Some (n, count)
         | Some (b, c) \<Rightarrow>
             if count < c then Some (n, count)
             else if count = c \<and> n < b then Some (n, count)
             else best)"

definition least_loaded :: "placement_context \<Rightarrow> node_id option" where
  "least_loaded ctx = map_option fst (foldl (better_node ctx) None (available_nodes ctx))"

section \<open>The cluster supervisor\<close>

datatype exit_reason = ExitNormal | Crashed string | ExitNoProc

datatype cluster_restart_policy = Permanent | Transient | Temporary

fun should_restart :: "cluster_restart_policy \<Rightarrow> exit_reason \<Rightarrow> bool" where
  "should_restart Permanent reason = True"
| "should_restart Temporary reason = False"
| "should_restart Transient reason = (reason \<noteq> ExitNormal)"

datatype restart_strategy = OneForOne | OneForAll | RestForOne

record child_spec =
  cs_addr :: agent_addr
  cs_restart :: cluster_restart_policy
  cs_max_restarts :: u32
  cs_window_ms :: u64

datatype dead_cause = Declined cluster_restart_policy exit_reason | Breaker u32 u64

datatype child_state = Running | Restarting | NoProc | Dead dead_cause

datatype supervisor_event =
    RestartRequested agent_addr "agent_addr list" exit_reason "node_id option"
  | CircuitBreakerTripped agent_addr u32 u64
  | NodeDisconnect node_id u32

record child_record =
  cr_spec :: child_spec
  cr_state :: child_state
  restart_history :: "nat list"
  cr_sequence :: u64

type_synonym place_fn = "child_spec \<Rightarrow> placement_context \<Rightarrow> node_id"

definition StickyPolicy :: place_fn where
  "StickyPolicy child ctx =
     (case current_node ctx of
        Some cur \<Rightarrow>
          if cur \<in> set (available_nodes ctx) then cur
          else (case least_loaded ctx of Some n \<Rightarrow> n | None \<Rightarrow> cur)
      | None \<Rightarrow> (case least_loaded ctx of Some n \<Rightarrow> n | None \<Rightarrow> ''local''))"

definition LeastLoadedPolicy :: place_fn where
  "LeastLoadedPolicy child ctx =
     (case least_loaded ctx of
        Some n \<Rightarrow> n
      | None \<Rightarrow> (case current_node ctx of Some cur \<Rightarrow> cur | None \<Rightarrow> ''local''))"

definition StaticPolicy :: "node_id \<Rightarrow> place_fn" where
  "StaticPolicy node child ctx = node"

record cluster_supervisor =
  sv_children :: "(agent_addr \<times> child_record) list"
  sv_strategy :: restart_strategy
  sv_next_sequence :: u64
  sv_available_nodes :: "node_id list"
  sv_policy :: "place_fn option"
  sv_events :: "supervisor_event list"

definition ClusterSupervisor_new :: "restart_strategy \<Rightarrow> cluster_supervisor" where
  "ClusterSupervisor_new strategy = \<lparr>sv_children = [], sv_strategy = strategy, sv_next_sequence = 0,
     sv_available_nodes = [], sv_policy = None, sv_events = []\<rparr>"

definition set_placement_policy :: "place_fn \<Rightarrow> cluster_supervisor \<Rightarrow> cluster_supervisor" where
  "set_placement_policy p s = s\<lparr>sv_policy := Some p\<rparr>"

definition use_sticky_placement :: "cluster_supervisor \<Rightarrow> cluster_supervisor" where
  "use_sticky_placement s = set_placement_policy StickyPolicy s"

definition set_available_nodes :: "node_id list \<Rightarrow> cluster_supervisor \<Rightarrow> cluster_supervisor" where
  "set_available_nodes ns s = s\<lparr>sv_available_nodes := ns\<rparr>"

definition child_get :: "cluster_supervisor \<Rightarrow> agent_addr \<Rightarrow> child_record option" where
  "child_get s a = map_of (sv_children s) a"

definition child_update :: "agent_addr \<Rightarrow> (child_record \<Rightarrow> child_record) \<Rightarrow> cluster_supervisor \<Rightarrow> cluster_supervisor" where
  "child_update a f s = s\<lparr>sv_children := map (\<lambda>(k, r). (k, if k = a then f r else r)) (sv_children s)\<rparr>"

definition add_child :: "child_spec \<Rightarrow> cluster_supervisor \<Rightarrow> cluster_supervisor" where
  "add_child spec s =
     (let r = \<lparr>cr_spec = spec, cr_state = Running, restart_history = [], cr_sequence = sv_next_sequence s\<rparr>;
          s1 = s\<lparr>sv_next_sequence := sv_next_sequence s + 1\<rparr>
      in if child_get s (cs_addr spec) = None
         then s1\<lparr>sv_children := sv_children s1 @ [(cs_addr spec, r)]\<rparr>
         else child_update (cs_addr spec) (\<lambda>_. r) s1)"

definition add_children :: "child_spec list \<Rightarrow> cluster_supervisor \<Rightarrow> cluster_supervisor" where
  "add_children specs s = foldl (\<lambda>s sp. add_child sp s) s specs"

definition state_of :: "cluster_supervisor \<Rightarrow> agent_addr \<Rightarrow> child_state option" where
  "state_of s a = map_option cr_state (child_get s a)"

definition wake_siblings :: "cluster_supervisor \<Rightarrow> agent_addr \<Rightarrow> u64 \<Rightarrow> agent_addr list" where
  "wake_siblings s failed seq =
     (case sv_strategy s of
        OneForOne \<Rightarrow> []
      | OneForAll \<Rightarrow> filter (\<lambda>k. k \<noteq> failed) (map fst (sv_children s))
      | RestForOne \<Rightarrow>
          map (\<lambda>r. cs_addr (cr_spec r))
            (filter (\<lambda>r. seq < cr_sequence r \<and> cs_addr (cr_spec r) \<noteq> failed) (map snd (sv_children s))))"

definition mark_restarting :: "child_record \<Rightarrow> child_record" where
  "mark_restarting r = (if cr_state r \<noteq> NoProc then r\<lparr>cr_state := Restarting\<rparr> else r)"

definition live_counts :: "cluster_supervisor \<Rightarrow> node_id \<rightharpoonup> nat" where
  "live_counts s n =
     (let k = length (filter (\<lambda>r. cr_state r \<in> {Running, Restarting} \<and> aa_node (cs_addr (cr_spec r)) = n)
                        (map snd (sv_children s)))
      in if k = 0 then None else Some k)"

definition placement_ctx :: "cluster_supervisor \<Rightarrow> child_spec \<Rightarrow> placement_context" where
  "placement_ctx s spec = \<lparr>available_nodes = sv_available_nodes s,
     current_node = Some (aa_node (cs_addr spec)), child_count_per_node = live_counts s\<rparr>"

definition plan_restart_locked ::
  "nat \<Rightarrow> agent_addr \<Rightarrow> exit_reason \<Rightarrow> cluster_supervisor \<Rightarrow> cluster_supervisor \<times> supervisor_event list" where
  "plan_restart_locked now failed reason s =
     (case child_get s failed of
        None \<Rightarrow> (s, [])
      | Some r \<Rightarrow>
          let siblings = wake_siblings s failed (cr_sequence r); spec = cr_spec r
          in if \<not> should_restart (cs_restart spec) reason
             then (child_update failed (\<lambda>r. r\<lparr>cr_state := Dead (Declined (cs_restart spec) reason)\<rparr>) s, [])
             else let hist = filter (\<lambda>t. now - t < unat (cs_window_ms spec) * 1000000) (restart_history r)
                  in if cs_max_restarts spec \<le> of_nat (length hist)
                     then (child_update failed (\<lambda>r. r\<lparr>restart_history := hist,
                             cr_state := Dead (Breaker (of_nat (length hist)) (cs_window_ms spec))\<rparr>) s,
                           [CircuitBreakerTripped failed (of_nat (length hist)) (cs_window_ms spec)])
                     else let s1 = child_update failed (\<lambda>r. mark_restarting (r\<lparr>restart_history := hist @ [now]\<rparr>)) s;
                              s2 = foldl (\<lambda>s a. child_update a mark_restarting s) s1 siblings;
                              hint = map_option (\<lambda>p. p spec (placement_ctx s2 spec)) (sv_policy s2)
                          in (s2, [RestartRequested failed siblings reason hint]))"

definition on_child_exit :: "nat \<Rightarrow> agent_addr \<Rightarrow> exit_reason \<Rightarrow> cluster_supervisor \<Rightarrow> cluster_supervisor" where
  "on_child_exit now a reason s =
     (case child_get s a of
        None \<Rightarrow> s
      | Some _ \<Rightarrow>
          let (s1, evs) = plan_restart_locked now a reason (child_update a mark_restarting s)
          in s1\<lparr>sv_events := sv_events s1 @ evs\<rparr>)"

definition lost_on :: "node_id \<Rightarrow> cluster_supervisor \<Rightarrow> agent_addr list" where
  "lost_on node s =
     map (\<lambda>r. cs_addr (cr_spec r))
       (filter (\<lambda>r. aa_node (cs_addr (cr_spec r)) = node \<and> cr_state r \<noteq> NoProc) (map snd (sv_children s)))"

text \<open>The loop over the lost children reads the clock once per child; \<open>now\<close> is that sequence of readings.\<close>

definition on_node_disconnect :: "(nat \<Rightarrow> nat) \<Rightarrow> node_id \<Rightarrow> cluster_supervisor \<Rightarrow> cluster_supervisor" where
  "on_node_disconnect now node s =
     (let lost = lost_on node s;
          s1 = s\<lparr>sv_children := map (\<lambda>(k, r). (k, if aa_node (cs_addr (cr_spec r)) = node
                   then r\<lparr>cr_state := NoProc\<rparr> else r)) (sv_children s)\<rparr>
      in if lost = [] then s
         else let (s2, evs) = foldl (\<lambda>(s, evs) (i, a).
                     let (s', evs') = plan_restart_locked (now i) a ExitNoProc s in (s', evs @ evs'))
                   (s1, [NodeDisconnect node (of_nat (length lost))]) (zip [0..<length lost] lost)
              in s2\<lparr>sv_events := sv_events s2 @ evs\<rparr>)"

definition try_next_event :: "cluster_supervisor \<Rightarrow> cluster_supervisor \<times> supervisor_event option" where
  "try_next_event s =
     (case sv_events s of [] \<Rightarrow> (s, None) | e # es \<Rightarrow> (s\<lparr>sv_events := es\<rparr>, Some e))"

section \<open>Placement is on the least loaded node\<close>

definition load_le :: "placement_context \<Rightarrow> node_id \<Rightarrow> node_id \<Rightarrow> bool" where
  "load_le ctx n m \<longleftrightarrow> count_of ctx n < count_of ctx m \<or> count_of ctx n = count_of ctx m \<and> n \<le> m"

lemma load_le_trans: "load_le ctx a b \<Longrightarrow> load_le ctx b c \<Longrightarrow> load_le ctx a c"
  by (auto simp: load_le_def)

lemma better_node_fold:
  "foldl (better_node ctx) (Some (b, count_of ctx b)) ns = Some (r, c) \<Longrightarrow>
   c = count_of ctx r \<and> r \<in> set (b # ns) \<and> (\<forall>m \<in> set (b # ns). load_le ctx r m)"
proof (induction ns arbitrary: b)
  case (Cons n ns)
  define b' where "b' = (if load_le ctx b n then b else n)"
  have "better_node ctx (Some (b, count_of ctx b)) n = Some (b', count_of ctx b')"
    by (auto simp: better_node_def b'_def load_le_def Let_def)
  then have r: "c = count_of ctx r \<and> r \<in> set (b' # ns) \<and> (\<forall>m \<in> set (b' # ns). load_le ctx r m)"
    using Cons.prems by (intro Cons.IH) simp
  then have "load_le ctx r b'" by simp
  moreover have "load_le ctx b' b" "load_le ctx b' n" by (auto simp: b'_def load_le_def)
  ultimately have "load_le ctx r b" "load_le ctx r n"
    using load_le_trans [of ctx r b' b] load_le_trans [of ctx r b' n] by simp_all
  then show ?case using r by (auto simp: b'_def split: if_splits)
qed (auto simp: load_le_def)

lemma better_node_fold_Some: "\<exists>r c. foldl (better_node ctx) (Some p) ns = Some (r, c)"
proof (induction ns arbitrary: p)
  case (Cons n ns)
  have "better_node ctx (Some p) n \<noteq> None" by (cases p) (simp add: better_node_def Let_def)
  then obtain q where "better_node ctx (Some p) n = Some q" by blast
  then show ?case using Cons.IH [of q] by simp
qed (cases p, simp)

lemma least_loaded_spec:
  "least_loaded ctx = None \<longleftrightarrow> available_nodes ctx = []"
  "least_loaded ctx = Some n \<Longrightarrow> n \<in> set (available_nodes ctx) \<and> (\<forall>m \<in> set (available_nodes ctx). load_le ctx n m)"
proof -
  have one: "better_node ctx None m = Some (m, count_of ctx m)" for m by (simp add: better_node_def Let_def)
  show "least_loaded ctx = None \<longleftrightarrow> available_nodes ctx = []"
    using better_node_fold_Some [of ctx "(hd (available_nodes ctx), count_of ctx (hd (available_nodes ctx)))" "tl (available_nodes ctx)"]
    by (cases "available_nodes ctx") (auto simp: least_loaded_def one)
  assume "least_loaded ctx = Some n"
  then show "n \<in> set (available_nodes ctx) \<and> (\<forall>m \<in> set (available_nodes ctx). load_le ctx n m)"
    using better_node_fold [of ctx]
    by (cases "available_nodes ctx") (auto simp: least_loaded_def one)
qed

lemma sticky_available:
  "available_nodes ctx \<noteq> [] \<Longrightarrow> StickyPolicy child ctx \<in> set (available_nodes ctx)"
  using least_loaded_spec [of ctx] by (cases "least_loaded ctx") (auto simp: StickyPolicy_def split: option.splits)

text \<open>Placement. \<open>least_loaded\<close> fails only when no node is available and otherwise gives an available
  node with the fewest live children, the least name among equals. With some node available the sticky
  and the least-loaded policy always place on an available node, the sticky policy on the child's
  current node whenever that is available; with none they fall back to the current node, then to
  \<open>local\<close>.\<close>

theorem placement_available:
  "(least_loaded ctx = None \<longleftrightarrow> available_nodes ctx = []) \<and>
   (\<forall>n. least_loaded ctx = Some n \<longrightarrow> n \<in> set (available_nodes ctx) \<and>
      (\<forall>m \<in> set (available_nodes ctx). count_of ctx n < count_of ctx m \<or> count_of ctx n = count_of ctx m \<and> n \<le> m)) \<and>
   (available_nodes ctx \<noteq> [] \<longrightarrow>
      StickyPolicy child ctx \<in> set (available_nodes ctx) \<and> LeastLoadedPolicy child ctx \<in> set (available_nodes ctx)) \<and>
   (\<forall>cur. current_node ctx = Some cur \<and> cur \<in> set (available_nodes ctx) \<longrightarrow> StickyPolicy child ctx = cur) \<and>
   (available_nodes ctx = [] \<longrightarrow>
      StickyPolicy child ctx = (case current_node ctx of Some cur \<Rightarrow> cur | None \<Rightarrow> ''local'') \<and>
      LeastLoadedPolicy child ctx = StickyPolicy child ctx)"
  using least_loaded_spec [of ctx]
  by (cases "least_loaded ctx")
    (auto simp: StickyPolicy_def LeastLoadedPolicy_def load_le_def split: option.splits)

theorem placement_available_witness:
  "least_loaded \<lparr>available_nodes = [''b'', ''a''], current_node = None, child_count_per_node = [''b'' \<mapsto> 2]\<rparr> \<noteq> None"
  using placement_available [of "\<lparr>available_nodes = [''b'', ''a''], current_node = None, child_count_per_node = [''b'' \<mapsto> 2]\<rparr>"]
  by simp

section \<open>Restart planning\<close>

definition sup_inv :: "cluster_supervisor \<Rightarrow> bool" where
  "sup_inv s \<longleftrightarrow> distinct (map fst (sv_children s)) \<and> (\<forall>(k, r) \<in> set (sv_children s). cs_addr (cr_spec r) = k)"

lemma child_get_update [simp]:
  "child_get (child_update a f s) b = map_option (if b = a then f else id) (child_get s b)"
proof -
  have "map_of (map (\<lambda>(k, r). (k, if k = a then f r else r)) xs) b =
      map_option (if b = a then f else id) (map_of xs b)" for xs
    by (induction xs) auto
  then show ?thesis by (simp add: child_get_def child_update_def)
qed

lemma child_update_other [simp]:
  "sv_strategy (child_update a f s) = sv_strategy s" "sv_available_nodes (child_update a f s) = sv_available_nodes s"
  "sv_policy (child_update a f s) = sv_policy s" "sv_events (child_update a f s) = sv_events s"
  by (simp_all add: child_update_def)

lemma mark_all:
  "child_get (foldl (\<lambda>s a. child_update a mark_restarting s) s as) b =
     map_option (if b \<in> set as then mark_restarting else id) (child_get s b)"
  "sv_available_nodes (foldl (\<lambda>s a. child_update a mark_restarting s) s as) = sv_available_nodes s"
  "sv_policy (foldl (\<lambda>s a. child_update a mark_restarting s) s as) = sv_policy s"
proof -
  have idem: "mark_restarting (mark_restarting r) = mark_restarting r" for r by (simp add: mark_restarting_def)
  show "child_get (foldl (\<lambda>s a. child_update a mark_restarting s) s as) b =
     map_option (if b \<in> set as then mark_restarting else id) (child_get s b)"
    by (induction as arbitrary: s) (auto simp: option.map_comp comp_def idem option.map_ident option.map_id)
  show "sv_available_nodes (foldl (\<lambda>s a. child_update a mark_restarting s) s as) = sv_available_nodes s"
    "sv_policy (foldl (\<lambda>s a. child_update a mark_restarting s) s as) = sv_policy s"
    by (induction as arbitrary: s) auto
qed

lemma mem_children: "sup_inv s \<Longrightarrow> (a, r) \<in> set (sv_children s) \<longleftrightarrow> child_get s a = Some r"
  by (simp add: sup_inv_def child_get_def)

lemma siblings_spec:
  assumes inv: "sup_inv s" and r: "child_get s failed = Some r"
  shows "a \<in> set (wake_siblings s failed (cr_sequence r)) \<longleftrightarrow> a \<noteq> failed \<and> (\<exists>q. child_get s a = Some q \<and>
    (case sv_strategy s of OneForOne \<Rightarrow> False | OneForAll \<Rightarrow> True | RestForOne \<Rightarrow> cr_sequence r < cr_sequence q))"
proof -
  have own: "(k, q) \<in> set (sv_children s) \<Longrightarrow> cs_addr (cr_spec q) = k" for k q using inv by (auto simp: sup_inv_def)
  show ?thesis
  proof (cases "sv_strategy s")
    case OneForOne
    then show ?thesis by (simp add: wake_siblings_def)
  next
    case OneForAll
    then show ?thesis by (force simp: wake_siblings_def mem_children [OF inv, symmetric])
  next
    case RestForOne
    have "a \<in> set (wake_siblings s failed (cr_sequence r)) \<longleftrightarrow>
        (\<exists>k q. (k, q) \<in> set (sv_children s) \<and> a = cs_addr (cr_spec q) \<and> cr_sequence r < cr_sequence q \<and> a \<noteq> failed)"
      by (force simp: wake_siblings_def RestForOne)
    then show ?thesis using own RestForOne unfolding mem_children [OF inv, symmetric] by auto
  qed
qed

definition recent :: "nat \<Rightarrow> child_record \<Rightarrow> nat list" where
  "recent now r = filter (\<lambda>t. now - t < unat (cs_window_ms (cr_spec r)) * 1000000) (restart_history r)"

lemma of_nat_le_u32: "n < 2 ^ 32 \<Longrightarrow> (m :: u32) \<le> of_nat n \<longleftrightarrow> unat m \<le> n"
  by (simp add: word_le_nat_alt unat_of_nat)

text \<open>C31. What a failure of a supervised child leads to. When the policy of the child does not ask
  for a restart the child is dead and nothing is emitted. When the restarts within the window have
  reached the limit the breaker trips: the child is dead and one event says so. Otherwise exactly one
  restart is requested; it is recorded, so that the window never holds more than \<open>max_restarts\<close>
  restarts; the siblings named are all others for \<open>OneForAll\<close>, those registered later for \<open>RestForOne\<close> and
  none for \<open>OneForOne\<close>; every one of them is set to restarting unless its node is unreachable, a dead one
  too; and under the sticky policy the hint is an available node whenever there is one.\<close>

theorem plan_restart_outcome:
  assumes inv: "sup_inv s" and r: "child_get s failed = Some r" and small: "length (restart_history r) < 2 ^ 32"
    and plan: "plan_restart_locked now failed reason s = (s', evs)"
  shows "(\<not> should_restart (cs_restart (cr_spec r)) reason \<longrightarrow>
       evs = [] \<and> state_of s' failed = Some (Dead (Declined (cs_restart (cr_spec r)) reason))) \<and>
    (should_restart (cs_restart (cr_spec r)) reason \<and> unat (cs_max_restarts (cr_spec r)) \<le> length (recent now r) \<longrightarrow>
       evs = [CircuitBreakerTripped failed (of_nat (length (recent now r))) (cs_window_ms (cr_spec r))] \<and>
       state_of s' failed = Some (Dead (Breaker (of_nat (length (recent now r))) (cs_window_ms (cr_spec r))))) \<and>
    (should_restart (cs_restart (cr_spec r)) reason \<and> length (recent now r) < unat (cs_max_restarts (cr_spec r)) \<longrightarrow>
       (\<exists>sibs hint r'. evs = [RestartRequested failed sibs reason hint] \<and> child_get s' failed = Some r' \<and>
          restart_history r' = recent now r @ [now] \<and>
          length (restart_history r') \<le> unat (cs_max_restarts (cr_spec r)) \<and>
          (\<forall>a. a \<in> set sibs \<longleftrightarrow> a \<noteq> failed \<and> (\<exists>q. child_get s a = Some q \<and>
             (case sv_strategy s of OneForOne \<Rightarrow> False | OneForAll \<Rightarrow> True | RestForOne \<Rightarrow> cr_sequence r < cr_sequence q))) \<and>
          (\<forall>a. a \<in> set sibs \<longrightarrow> state_of s' a = Some (if state_of s a = Some NoProc then NoProc else Restarting)) \<and>
          (sv_policy s = Some StickyPolicy \<and> sv_available_nodes s \<noteq> [] \<longrightarrow>
             (\<exists>n \<in> set (sv_available_nodes s). hint = Some n))))"
proof -
  have len: "length (recent now r) < 2 ^ 32"
    using small length_filter_le [of _ "restart_history r"] unfolding recent_def by (rule le_less_trans [rotated])
  note le = of_nat_le_u32 [OF len, of "cs_max_restarts (cr_spec r)"]
  note unf = plan_restart_locked_def Let_def r option.case recent_def [symmetric]
  consider "\<not> should_restart (cs_restart (cr_spec r)) reason"
    | "should_restart (cs_restart (cr_spec r)) reason" "unat (cs_max_restarts (cr_spec r)) \<le> length (recent now r)"
    | "should_restart (cs_restart (cr_spec r)) reason" "length (recent now r) < unat (cs_max_restarts (cr_spec r))"
    by linarith
  then show ?thesis
  proof cases
    case 1
    then show ?thesis using plan unfolding unf by (auto simp: state_of_def r)
  next
    case 2
    then show ?thesis using plan le unfolding unf by (auto simp: state_of_def r)
  next
    case 3
    let ?sibs = "wake_siblings s failed (cr_sequence r)"
    define s1 where "s1 = child_update failed (\<lambda>r'. mark_restarting (r'\<lparr>restart_history := recent now r @ [now]\<rparr>)) s"
    define s2 where "s2 = foldl (\<lambda>s a. child_update a mark_restarting s) s1 ?sibs"
    have res: "s' = s2" "evs = [RestartRequested failed ?sibs reason
        (map_option (\<lambda>p. p (cr_spec r) (placement_ctx s2 (cr_spec r))) (sv_policy s2))]"
      using plan 3 le unfolding unf s1_def s2_def by auto
    note sib = siblings_spec [OF inv r]
    have nf: "failed \<notin> set ?sibs" by (simp add: sib)
    have f: "child_get s' failed = Some (mark_restarting (r\<lparr>restart_history := recent now r @ [now]\<rparr>))"
      using nf r unfolding res(1) s2_def mark_all by (simp add: s1_def)
    have st: "state_of s' a = Some (if state_of s a = Some NoProc then NoProc else Restarting)" if a: "a \<in> set ?sibs" for a
    proof -
      obtain q where q: "a \<noteq> failed" "child_get s a = Some q" using a unfolding sib by auto
      then have "child_get s1 a = Some q" by (simp add: s1_def)
      then have "child_get s' a = Some (mark_restarting q)" using a unfolding res(1) s2_def mark_all by simp
      then show ?thesis using q by (simp add: state_of_def mark_restarting_def)
    qed
    have nodes: "available_nodes (placement_ctx s2 sp) = sv_available_nodes s" "sv_policy s2 = sv_policy s" for sp
      unfolding s2_def by (simp_all add: placement_ctx_def mark_all s1_def)
    have hint: "\<exists>n \<in> set (sv_available_nodes s). map_option (\<lambda>p. p (cr_spec r) (placement_ctx s2 (cr_spec r))) (sv_policy s2) = Some n"
      if "sv_policy s = Some StickyPolicy" "sv_available_nodes s \<noteq> []"
      using that sticky_available [of "placement_ctx s2 (cr_spec r)" "cr_spec r"] by (simp add: nodes)
    have "restart_history (mark_restarting (r\<lparr>restart_history := h\<rparr>)) = h" for h by (simp add: mark_restarting_def)
    then show ?thesis using 3 res(2) f st hint sib by auto
  qed
qed

definition sample_addr :: "u64 \<Rightarrow> agent_addr" where
  "sample_addr i = addr_remote ''n1'' ''Worker'' i"

definition sample_spec :: "u64 \<Rightarrow> child_spec" where
  "sample_spec i = \<lparr>cs_addr = sample_addr i, cs_restart = Permanent, cs_max_restarts = 3, cs_window_ms = 1000\<rparr>"

definition sample_sup :: cluster_supervisor where
  "sample_sup = use_sticky_placement (set_available_nodes [''n1'', ''n2'']
     (add_children [sample_spec 1, sample_spec 2] (ClusterSupervisor_new OneForAll)))"

theorem plan_restart_outcome_witness:
  "\<exists>sibs hint. snd (plan_restart_locked 5 (sample_addr 1) (Crashed ''oom'') sample_sup) =
     [RestartRequested (sample_addr 1) sibs (Crashed ''oom'') hint] \<and> sample_addr 2 \<in> set sibs"
proof -
  have ne: "sample_addr 1 \<noteq> sample_addr 2" by (simp add: sample_addr_def addr_remote_def)
  define r where "r i = \<lparr>cr_spec = sample_spec (i + 1), cr_state = Running, restart_history = [], cr_sequence = i\<rparr>" for i
  have ch: "sv_children sample_sup = [(sample_addr 1, r 0), (sample_addr 2, r 1)]" "sv_strategy sample_sup = OneForAll"
    using ne by (simp_all add: sample_sup_def use_sticky_placement_def set_placement_policy_def set_available_nodes_def
        add_children_def add_child_def ClusterSupervisor_new_def child_get_def sample_spec_def r_def Let_def)
  have inv: "sup_inv sample_sup" using ne by (simp add: sup_inv_def ch r_def sample_spec_def)
  have g: "child_get sample_sup (sample_addr 1) = Some (r 0)" "child_get sample_sup (sample_addr 2) = Some (r 1)"
    using ne by (simp_all add: child_get_def ch)
  obtain s' evs where p: "plan_restart_locked 5 (sample_addr 1) (Crashed ''oom'') sample_sup = (s', evs)" by fastforce
  have "length (restart_history (r 0)) < 2 ^ 32" by (simp add: r_def)
  note out = plan_restart_outcome [OF inv g(1) this p]
  have "should_restart (cs_restart (cr_spec (r 0))) (Crashed ''oom'')"
    "length (recent 5 (r 0)) < unat (cs_max_restarts (cr_spec (r 0)))"
    by (simp_all add: r_def sample_spec_def recent_def)
  then obtain sibs hint where o: "evs = [RestartRequested (sample_addr 1) sibs (Crashed ''oom'') hint]"
    "\<forall>a. a \<in> set sibs \<longleftrightarrow> a \<noteq> sample_addr 1 \<and> (\<exists>q. child_get sample_sup a = Some q \<and>
       (case sv_strategy sample_sup of OneForOne \<Rightarrow> False | OneForAll \<Rightarrow> True | RestForOne \<Rightarrow> cr_sequence (r 0) < cr_sequence q))"
    using out by blast
  have "sample_addr 2 \<in> set sibs" using o(2) ne g(2) by (simp add: ch(2))
  then show ?thesis using o(1) p by simp
qed

end
