(* ===== verification/Rt_Locality.thy ===== *)
theory Rt_Locality
  imports Mty_Prelude
begin

text \<open>
  Worker locality of the scheduler, \<^verbatim>\<open>crates/mty-runtime/src/scheduler/locality.rs\<close>: topologies, the
  parser of kernel CPU lists, and the order in which an idle worker visits its victims. Reading the
  topology from \<^verbatim>\<open>/sys\<close> is I/O and not modelled. Indexing past the end panics and is the value \<open>None\<close>.
\<close>

section \<open>Topologies\<close>

record worker_locality =
  wl_node :: u32
  wl_socket :: u32

type_synonym topology = "worker_locality list"

definition topology_flat :: "nat \<Rightarrow> topology" where
  "topology_flat n = replicate n \<lparr>wl_node = 0, wl_socket = 0\<rparr>"

definition synthetic :: "(u32 \<times> u32) list \<Rightarrow> topology" where
  "synthetic slots = map (\<lambda>(n, s). \<lparr>wl_node = n, wl_socket = s\<rparr>) slots"

section \<open>CPU lists\<close>

definition u32_range :: "u32 \<Rightarrow> u32 \<Rightarrow> u32 list" where
  "u32_range lo hi = map of_nat [unat lo..<Suc (unat hi)]"

definition parse_chunk :: "string \<Rightarrow> u32 list" where
  "parse_chunk raw =
     (let chunk = trim raw
      in if chunk = [] then []
         else case split_once (CHR ''-'') chunk of
                Some (lo, hi) \<Rightarrow>
                  (case (u32_from_str lo, u32_from_str hi) of
                     (Some l, Some h) \<Rightarrow> if l \<le> h then u32_range l h else []
                   | _ \<Rightarrow> [])
              | None \<Rightarrow> (case u32_from_str chunk of Some v \<Rightarrow> [v] | None \<Rightarrow> []))"

definition parse_cpulist :: "string \<Rightarrow> u32 list" where
  "parse_cpulist s = concat (map parse_chunk (split_on (CHR '','') (trim s)))"

section \<open>Steal order\<close>

definition same_node :: "topology \<Rightarrow> nat \<Rightarrow> nat \<Rightarrow> bool" where
  "same_node t me i \<longleftrightarrow> wl_node (t ! i) = wl_node (t ! me) \<and> wl_socket (t ! i) = wl_socket (t ! me)"

definition same_socket :: "topology \<Rightarrow> nat \<Rightarrow> nat \<Rightarrow> bool" where
  "same_socket t me i \<longleftrightarrow> wl_socket (t ! i) = wl_socket (t ! me)"

definition victims :: "nat \<Rightarrow> nat \<Rightarrow> nat list" where
  "victims me n = map (\<lambda>offset. (me + offset) mod n) [1..<n]"

definition build_steal_order :: "nat \<Rightarrow> topology \<Rightarrow> nat list option" where
  "build_steal_order me t =
     (let n = length t
      in if n \<le> 1 then Some []
         else if n \<le> me then None
         else let vs = victims me n
              in Some (filter (same_node t me) vs @
                       filter (\<lambda>i. \<not> same_node t me i \<and> same_socket t me i) vs @
                       filter (\<lambda>i. \<not> same_node t me i \<and> \<not> same_socket t me i) vs))"

section \<open>Correctness of the order\<close>

definition tier :: "topology \<Rightarrow> nat \<Rightarrow> nat \<Rightarrow> nat" where
  "tier t me i = (if same_node t me i then 0 else if same_socket t me i then 1 else 2)"

definition distance :: "nat \<Rightarrow> nat \<Rightarrow> nat \<Rightarrow> nat" where
  "distance me n i = (if me < i then i - me else n + i - me)"

lemma victims_nth: "me < n \<Longrightarrow> 1 \<le> k \<Longrightarrow> k < n \<Longrightarrow> distance me n ((me + k) mod n) = k"
  by (cases "me + k < n") (auto simp: distance_def mod_if)

lemma victims_spec:
  assumes "me < n"
  shows "distinct (victims me n)" "set (victims me n) = {..<n} - {me}"
    "sorted_wrt (\<lambda>i j. distance me n i < distance me n j) (victims me n)"
proof -
  show sw: "sorted_wrt (\<lambda>i j. distance me n i < distance me n j) (victims me n)"
    unfolding victims_def sorted_wrt_map
    by (rule sorted_wrt_mono_rel [OF _ sorted_wrt_upt]) (use assms victims_nth in auto)
  have "distinct (map (distance me n) (victims me n))"
    using sw strict_sorted_iff [of "map (distance me n) (victims me n)"] by (simp add: sorted_wrt_map)
  then show "distinct (victims me n)" by (simp add: distinct_map)
  have "i \<in> set (victims me n)" if "i < n" "i \<noteq> me" for i
  proof -
    have "(me + distance me n i) mod n = i" "1 \<le> distance me n i" "distance me n i < n"
      using that assms by (auto simp: distance_def)
    then show ?thesis unfolding victims_def by force
  qed
  moreover have "i < n \<and> i \<noteq> me" if "i \<in> set (victims me n)" for i
    using that assms by (auto simp: victims_def mod_if split: if_splits)
  ultimately show "set (victims me n) = {..<n} - {me}" by blast
qed

text \<open>The steal order of a worker visits every other worker exactly once: first the workers of its
  own node and socket, then the others of its socket, then the rest, and within each of these groups in
  the order of the ring that starts after the worker itself, so that two workers of one group do not
  probe the same victim first. A single worker has nobody to visit.\<close>

theorem steal_order_tiers:
  assumes "me < length t"
  shows "\<exists>vs. build_steal_order me t = Some vs \<and> distinct vs \<and> set vs = {..<length t} - {me} \<and>
    sorted_wrt (\<lambda>i j. tier t me i < tier t me j \<or>
      tier t me i = tier t me j \<and> distance me (length t) i < distance me (length t) j) vs"
proof (cases "length t \<le> 1")
  case True
  then have "{..<length t} - {me} = {}" using assms by auto
  then show ?thesis using True by (simp add: build_steal_order_def)
next
  case False
  let ?vs = "victims me (length t)"
  let ?P = "\<lambda>i. same_node t me i" and ?Q = "\<lambda>i. same_socket t me i"
  note sp = victims_spec [OF assms]
  have b: "build_steal_order me t = Some (filter ?P ?vs @ filter (\<lambda>i. \<not> ?P i \<and> ?Q i) ?vs @ filter (\<lambda>i. \<not> ?P i \<and> \<not> ?Q i) ?vs)"
    using False assms by (simp add: build_steal_order_def Let_def)
  have f: "sorted_wrt (\<lambda>i j. tier t me i < tier t me j \<or>
      tier t me i = tier t me j \<and> distance me (length t) i < distance me (length t) j) (filter R ?vs)"
    if "\<And>i j. R i \<Longrightarrow> R j \<Longrightarrow> tier t me i = tier t me j" for R
    by (rule sorted_wrt_mono_rel [OF _ sorted_wrt_filter [OF sp(3)]]) (use that in auto)
  show ?thesis unfolding b
  proof (intro exI conjI, rule refl)
    show "sorted_wrt (\<lambda>i j. tier t me i < tier t me j \<or>
        tier t me i = tier t me j \<and> distance me (length t) i < distance me (length t) j)
      (filter ?P ?vs @ filter (\<lambda>i. \<not> ?P i \<and> ?Q i) ?vs @ filter (\<lambda>i. \<not> ?P i \<and> \<not> ?Q i) ?vs)"
      unfolding sorted_wrt_append by (intro conjI f) (auto simp: tier_def)
  qed (use sp in auto)
qed

theorem steal_order_tiers_witness:
  "\<exists>vs. build_steal_order 1 (synthetic [(0, 0), (0, 0), (1, 0), (2, 1)]) = Some vs \<and> set vs = {0, 2, 3}"
proof -
  have "{..<length (synthetic [(0, 0), (0, 0), (1, 0), (2, 1)])} - {1} = {0, 2, 3}" by (auto simp: synthetic_def)
  then show ?thesis using steal_order_tiers [of 1 "synthetic [(0, 0), (0, 0), (1, 0), (2, 1)]"]
    by (auto simp: synthetic_def)
qed

end
