(* ===== verification/Rt_Scheduler.thy ===== *)
theory Rt_Scheduler
  imports Rt_Locality "HOL-Library.Multiset"
begin

text \<open>
  The work-stealing scheduler, \<^verbatim>\<open>crates/mty-runtime/src/scheduler/mod.rs\<close> and \<^verbatim>\<open>work_stealing.rs\<close>.
  Each worker runs the loop of \<open>worker_loop_async\<close>; a step of the model is one atomic action of one
  worker (a pop, one attempt to steal, a park), so that any interleaving of workers and submitters is
  a sequence of actions. The two queues of the crossbeam-deque crate are a parameter: what a stealer
  may return is stated in the locale \<open>steal_queue\<close>. Running a task is the entry it leaves in
  \<open>sc_executed\<close>; what the task does is not modelled, and tasks it submits are further actions.
  Tokio handles, threads and the timer behind a park are left out: a parked worker may always wake,
  as the 50 ms timeout lets it.
\<close>

section \<open>State\<close>

datatype affinity = Sticky | Elastic

record spawn_task =
  st_id :: u64
  st_affinity :: affinity

record agent_route =
  ar_worker :: nat
  ar_affinity :: affinity

record worker_stats =
  tasks_executed :: u64
  tasks_stolen :: u64
  parks :: u64
  current_queue_depth :: u64

text \<open>Where a worker is in its loop: before the shutdown test, before the local pop, with the
  siblings still to probe and whether one was contended, before the injector, parked, left.\<close>

datatype phase = Top | Local | Scan "nat list" bool | Inject | Parked | Stopped

record worker_state =
  ws_deque :: "spawn_task list"
  ws_stats :: worker_stats
  ws_shutdown :: bool
  ws_notify :: bool
  ws_order :: "nat list"
  ws_phase :: phase

text \<open>A steal is counted under its source, \<open>None\<close> standing for the global injector, and its
  destination.\<close>

record scheduler =
  sc_workers :: "worker_state list"
  sc_injector :: "spawn_task list"
  sc_routes :: "u64 \<rightharpoonup> agent_route"
  sc_next :: u64
  sc_deterministic :: bool
  sc_shutdown_started :: bool
  sc_executed :: "spawn_task list"
  sc_steals :: "(nat option \<times> nat) list"

datatype steal = StealSuccess spawn_task "spawn_task list" "spawn_task list" | StealRetry | StealEmpty

text \<open>\<open>steal_batch_and_pop\<close> of a queue \<open>v\<close> into the local deque \<open>l\<close>: the task to run and both queues
  afterwards. The first argument is what the outcome may depend on besides, contention included.\<close>

type_synonym steal_fn = "nat \<Rightarrow> spawn_task list \<Rightarrow> spawn_task list \<Rightarrow> steal"

definition WorkerStats_default :: worker_stats where
  "WorkerStats_default = \<lparr>tasks_executed = 0, tasks_stolen = 0, parks = 0, current_queue_depth = 0\<rparr>"

definition launch_worker :: "topology \<Rightarrow> nat \<Rightarrow> worker_state option" where
  "launch_worker t i =
     map_option (\<lambda>order. \<lparr>ws_deque = [], ws_stats = WorkerStats_default, ws_shutdown = False,
       ws_notify = False, ws_order = order, ws_phase = Top\<rparr>) (build_steal_order i t)"

fun all_some :: "'a option list \<Rightarrow> 'a list option" where
  "all_some [] = Some []"
| "all_some (None # xs) = None"
| "all_some (Some x # xs) = map_option ((#) x) (all_some xs)"

text \<open>The detected topology is an argument; it has one entry per worker.\<close>

definition launch_pool :: "nat \<Rightarrow> (nat \<Rightarrow> topology) \<Rightarrow> worker_state list option" where
  "launch_pool n detect = all_some (map (launch_worker (detect (max n 1))) [0..<max n 1])"

definition multi_worker :: "nat \<Rightarrow> (nat \<Rightarrow> topology) \<Rightarrow> scheduler option" where
  "multi_worker n detect =
     map_option (\<lambda>ws. \<lparr>sc_workers = ws, sc_injector = [], sc_routes = Map.empty, sc_next = 0,
       sc_deterministic = False, sc_shutdown_started = False, sc_executed = [], sc_steals = []\<rparr>)
       (launch_pool n detect)"

definition deterministic_single :: "(nat \<Rightarrow> topology) \<Rightarrow> scheduler option" where
  "deterministic_single detect = map_option (\<lambda>s. s\<lparr>sc_deterministic := True\<rparr>) (multi_worker 1 detect)"

section \<open>The worker loop\<close>

definition upd_worker :: "nat \<Rightarrow> (worker_state \<Rightarrow> worker_state) \<Rightarrow> scheduler \<Rightarrow> scheduler" where
  "upd_worker i f s = s\<lparr>sc_workers := (sc_workers s)[i := f (sc_workers s ! i)]\<rparr>"

definition goto :: "nat \<Rightarrow> phase \<Rightarrow> scheduler \<Rightarrow> scheduler" where
  "goto i p = upd_worker i (\<lambda>w. w\<lparr>ws_phase := p\<rparr>)"

definition count_execute :: "worker_stats \<Rightarrow> worker_stats" where
  "count_execute st =
     (let st1 = st\<lparr>tasks_executed := tasks_executed st + 1\<rparr>
      in if 0 < current_queue_depth st1
         then st1\<lparr>current_queue_depth := current_queue_depth st1 - 1\<rparr> else st1)"

definition execute :: "nat \<Rightarrow> spawn_task \<Rightarrow> scheduler \<Rightarrow> scheduler" where
  "execute i t s =
     (upd_worker i (\<lambda>w. w\<lparr>ws_stats := count_execute (ws_stats w)\<rparr>) s)\<lparr>sc_executed := sc_executed s @ [t]\<rparr>"

definition record_steal :: "nat option \<Rightarrow> nat \<Rightarrow> scheduler \<Rightarrow> scheduler" where
  "record_steal src i s =
     (upd_worker i (\<lambda>w. w\<lparr>ws_stats := (ws_stats w)\<lparr>tasks_stolen := tasks_stolen (ws_stats w) + 1\<rparr>\<rparr>) s)
       \<lparr>sc_steals := sc_steals s @ [(src, i)]\<rparr>"

definition set_deque :: "nat \<Rightarrow> spawn_task list \<Rightarrow> scheduler \<Rightarrow> scheduler" where
  "set_deque i q = upd_worker i (\<lambda>w. w\<lparr>ws_deque := q\<rparr>)"

definition pop_local :: "nat \<Rightarrow> scheduler \<Rightarrow> scheduler" where
  "pop_local i s =
     (let w = sc_workers s ! i
      in if ws_deque w = [] then goto i (Scan (ws_order w) False) s
         else goto i Top (execute i (last (ws_deque w)) (set_deque i (butlast (ws_deque w)) s)))"

definition probe_sibling :: "steal_fn \<Rightarrow> nat \<Rightarrow> nat \<Rightarrow> nat \<Rightarrow> nat list \<Rightarrow> bool \<Rightarrow> scheduler \<Rightarrow> scheduler" where
  "probe_sibling ste c i j js retry s =
     (if length (sc_workers s) \<le> j \<or> j = i then goto i (Scan js retry) s
      else case ste c (ws_deque (sc_workers s ! j)) (ws_deque (sc_workers s ! i)) of
             StealSuccess t v l \<Rightarrow>
               goto i Top (execute i t (record_steal (Some j) i (set_deque i l (set_deque j v s))))
           | StealRetry \<Rightarrow> goto i (Scan js True) s
           | StealEmpty \<Rightarrow> goto i (Scan js retry) s)"

definition probe_injector :: "steal_fn \<Rightarrow> nat \<Rightarrow> nat \<Rightarrow> scheduler \<Rightarrow> scheduler" where
  "probe_injector sti c i s =
     (case sti c (sc_injector s) (ws_deque (sc_workers s ! i)) of
        StealSuccess t v l \<Rightarrow>
          goto i Top (execute i t (record_steal None i (set_deque i l (s\<lparr>sc_injector := v\<rparr>))))
      | StealRetry \<Rightarrow> goto i Top s
      | StealEmpty \<Rightarrow>
          goto i Parked (upd_worker i (\<lambda>w. w\<lparr>ws_stats := (ws_stats w)\<lparr>parks := parks (ws_stats w) + 1\<rparr>\<rparr>) s))"

definition worker_step :: "steal_fn \<Rightarrow> steal_fn \<Rightarrow> nat \<Rightarrow> nat \<Rightarrow> scheduler \<Rightarrow> scheduler" where
  "worker_step ste sti c i s =
     (case ws_phase (sc_workers s ! i) of
        Top \<Rightarrow> goto i (if ws_shutdown (sc_workers s ! i) then Stopped else Local) s
      | Local \<Rightarrow> pop_local i s
      | Scan [] retry \<Rightarrow> goto i (if retry then Top else Inject) s
      | Scan (j # js) retry \<Rightarrow> probe_sibling ste c i j js retry s
      | Inject \<Rightarrow> probe_injector sti c i s
      | Parked \<Rightarrow> goto i Top (upd_worker i (\<lambda>w. w\<lparr>ws_notify := False\<rparr>) s)
      | Stopped \<Rightarrow> s)"

section \<open>Submission, routes and shutdown\<close>

definition notify_one :: "nat \<Rightarrow> scheduler \<Rightarrow> scheduler" where
  "notify_one i = upd_worker i (\<lambda>w. w\<lparr>ws_notify := True\<rparr>)"

definition each_worker :: "(nat \<Rightarrow> scheduler \<Rightarrow> scheduler) \<Rightarrow> scheduler \<Rightarrow> scheduler" where
  "each_worker f s = foldl (\<lambda>s i. f i s) s [0..<length (sc_workers s)]"

definition submit :: "spawn_task \<Rightarrow> scheduler \<Rightarrow> scheduler" where
  "submit t s = each_worker notify_one (s\<lparr>sc_injector := sc_injector s @ [t]\<rparr>)"

definition deepen :: "nat \<Rightarrow> scheduler \<Rightarrow> scheduler" where
  "deepen i = upd_worker i (\<lambda>w. w\<lparr>ws_stats := (ws_stats w)
     \<lparr>current_queue_depth := current_queue_depth (ws_stats w) + 1\<rparr>\<rparr>)"

definition submit_to :: "nat \<Rightarrow> spawn_task \<Rightarrow> scheduler \<Rightarrow> scheduler" where
  "submit_to worker t s =
     (let i = worker mod length (sc_workers s); s1 = deepen i s
      in notify_one i (s1\<lparr>sc_injector := sc_injector s1 @ [t]\<rparr>))"

definition submit_pinned :: "nat \<Rightarrow> spawn_task \<Rightarrow> scheduler \<Rightarrow> scheduler \<times> bool" where
  "submit_pinned i t s =
     (if length (sc_workers s) \<le> i then (s, False)
      else let s1 = deepen i s in (notify_one i (s1\<lparr>sc_injector := sc_injector s1 @ [t]\<rparr>), True))"

text \<open>The flag and the wake-up of every worker; the joins that follow wait for the loops to leave.\<close>

definition shutdown :: "scheduler \<Rightarrow> scheduler" where
  "shutdown s =
     (if sc_shutdown_started s then s
      else each_worker (\<lambda>i. notify_one i \<circ> upd_worker i (\<lambda>w. w\<lparr>ws_shutdown := True\<rparr>))
             (s\<lparr>sc_shutdown_started := True\<rparr>))"

definition assign_worker :: "affinity \<Rightarrow> scheduler \<Rightarrow> scheduler \<times> nat" where
  "assign_worker a s =
     (case a of
        Sticky \<Rightarrow> (s, 0)
      | Elastic \<Rightarrow> (s\<lparr>sc_next := sc_next s + 1\<rparr>, unat (sc_next s) mod length (sc_workers s)))"

definition register_route :: "u64 \<Rightarrow> nat \<Rightarrow> affinity \<Rightarrow> scheduler \<Rightarrow> scheduler" where
  "register_route agent worker a s =
     s\<lparr>sc_routes := (sc_routes s)(agent \<mapsto> \<lparr>ar_worker = worker, ar_affinity = a\<rparr>)\<rparr>"

definition update_route_worker :: "u64 \<Rightarrow> nat \<Rightarrow> scheduler \<Rightarrow> scheduler" where
  "update_route_worker agent worker s =
     (case sc_routes s agent of
        Some r \<Rightarrow> s\<lparr>sc_routes := (sc_routes s)(agent \<mapsto> r\<lparr>ar_worker := worker\<rparr>)\<rparr>
      | None \<Rightarrow> s)"

definition agent_route_of :: "u64 \<Rightarrow> scheduler \<Rightarrow> agent_route option" where
  "agent_route_of agent s = sc_routes s agent"

text \<open>The worker whose Tokio handle is returned.\<close>

definition handle_for :: "nat \<Rightarrow> scheduler \<Rightarrow> nat" where
  "handle_for worker s = worker mod length (sc_workers s)"

definition any_handle :: "scheduler \<Rightarrow> scheduler \<times> nat" where
  "any_handle s = (s\<lparr>sc_next := sc_next s + 1\<rparr>, unat (sc_next s) mod length (sc_workers s))"

definition worker_stats_of :: "nat \<Rightarrow> scheduler \<Rightarrow> worker_stats" where
  "worker_stats_of worker s =
     (if worker < length (sc_workers s) then ws_stats (sc_workers s ! worker) else WorkerStats_default)"

section \<open>The load monitor\<close>

record load_monitor =
  lm_threshold :: u64
  lm_interval_ms :: u64
  lm_running :: bool

definition LoadMonitor_new :: load_monitor where
  "LoadMonitor_new = \<lparr>lm_threshold = 4, lm_interval_ms = 100, lm_running = True\<rparr>"

definition LoadMonitor_stop :: "load_monitor \<Rightarrow> load_monitor" where
  "LoadMonitor_stop m = m\<lparr>lm_running := False\<rparr>"

text \<open>\<open>max_by_key\<close> returns the last of the greatest elements, \<open>min_by_key\<close> the first of the least.\<close>

fun max_by_key :: "('a \<Rightarrow> 'k :: linorder) \<Rightarrow> 'a list \<Rightarrow> 'a option" where
  "max_by_key f [] = None"
| "max_by_key f (x # xs) = Some (foldl (\<lambda>m y. if f m \<le> f y then y else m) x xs)"

fun min_by_key :: "('a \<Rightarrow> 'k :: linorder) \<Rightarrow> 'a list \<Rightarrow> 'a option" where
  "min_by_key f [] = None"
| "min_by_key f (x # xs) = Some (foldl (\<lambda>m y. if f y < f m then y else m) x xs)"

definition sched_stats :: "scheduler \<Rightarrow> (nat \<times> worker_stats) list" where
  "sched_stats s = enumerate 0 (map ws_stats (sc_workers s))"

text \<open>\<open>entries\<close> is the routing table in the order in which the hash map is iterated.\<close>

definition sample_once :: "u64 \<Rightarrow> (u64 \<times> agent_route) list \<Rightarrow> scheduler \<Rightarrow> (nat \<times> nat \<times> u64) option" where
  "sample_once threshold entries s =
     (let snaps = sched_stats s; depth = (\<lambda>p. current_queue_depth (snd p))
      in if length snaps < 2 then None
         else case (max_by_key depth snaps, min_by_key depth snaps) of
           (Some busiest, Some lightest) \<Rightarrow>
             if fst busiest = fst lightest then None
             else let b = depth busiest; l = depth lightest
                  in if \<not> (threshold * max l 1 < b \<and> threshold \<le> b) then None
                     else map_option (\<lambda>(agent, _). (fst busiest, fst lightest, agent))
                            (List.find (\<lambda>(_, r). ar_worker r = fst busiest \<and> ar_affinity r = Elastic) entries)
         | _ \<Rightarrow> None)"

section \<open>Actions\<close>

datatype action = ASubmit spawn_task | ASubmitTo nat spawn_task | ASubmitPinned nat spawn_task | AShutdown | AStep nat nat

definition act :: "steal_fn \<Rightarrow> steal_fn \<Rightarrow> scheduler \<Rightarrow> action \<Rightarrow> scheduler" where
  "act ste sti s a =
     (case a of
        ASubmit t \<Rightarrow> submit t s
      | ASubmitTo w t \<Rightarrow> submit_to w t s
      | ASubmitPinned w t \<Rightarrow> fst (submit_pinned w t s)
      | AShutdown \<Rightarrow> shutdown s
      | AStep i c \<Rightarrow> if i < length (sc_workers s) then worker_step ste sti c i s else s)"

definition pending :: "scheduler \<Rightarrow> spawn_task multiset" where
  "pending s = mset (sc_injector s) + (\<Sum>w \<leftarrow> sc_workers s. mset (ws_deque w))"

text \<open>The tasks a sequence of actions submits to \<open>n\<close> workers.\<close>

fun submitted :: "nat \<Rightarrow> action list \<Rightarrow> spawn_task list" where
  "submitted n [] = []"
| "submitted n (ASubmit t # as) = t # submitted n as"
| "submitted n (ASubmitTo w t # as) = t # submitted n as"
| "submitted n (ASubmitPinned w t # as) = (if w < n then t # submitted n as else submitted n as)"
| "submitted n (_ # as) = submitted n as"

section \<open>Nothing is lost\<close>

text \<open>What the crate promises of a stealer: a success moves tasks and hands one out, none appears or
  disappears, and only an empty queue is reported empty.\<close>

locale steal_queue =
  fixes steal :: steal_fn
  assumes conserves: "steal c v l = StealSuccess t v' l' \<Longrightarrow> mset v + mset l = add_mset t (mset v' + mset l')"
    and empty: "steal c v l = StealEmpty \<Longrightarrow> v = []"

lemma upd_worker_simps [simp]:
  "length (sc_workers (upd_worker i f s)) = length (sc_workers s)"
  "sc_injector (upd_worker i f s) = sc_injector s" "sc_executed (upd_worker i f s) = sc_executed s"
  "sc_steals (upd_worker i f s) = sc_steals s" "sc_routes (upd_worker i f s) = sc_routes s"
  "i < length (sc_workers s) \<Longrightarrow> sc_workers (upd_worker i f s) ! i = f (sc_workers s ! i)"
  "j \<noteq> i \<Longrightarrow> sc_workers (upd_worker i f s) ! j = sc_workers s ! j"
  by (simp_all add: upd_worker_def)

lemma sum_list_update_mset:
  fixes f :: "'a \<Rightarrow> 'b multiset"
  assumes "i < length xs"
  shows "(\<Sum>x \<leftarrow> xs[i := y]. f x) + f (xs ! i) = (\<Sum>x \<leftarrow> xs. f x) + f y"
  using assms
proof (induction xs arbitrary: i)
  case (Cons a xs)
  then show ?case by (cases i) (auto simp: ac_simps)
qed simp

lemma sum_list_empty: "(\<Sum>x \<leftarrow> xs. f x) = {#} \<longleftrightarrow> (\<forall>x \<in> set xs. f x = {#})"
  by (induction xs) auto

lemma pending_upd:
  assumes "i < length (sc_workers s)"
  shows "pending (upd_worker i f s) + mset (ws_deque (sc_workers s ! i)) = pending s + mset (ws_deque (f (sc_workers s ! i)))"
  using sum_list_update_mset [OF assms, where y = "f (sc_workers s ! i)" and f = "\<lambda>w. mset (ws_deque w)"]
  by (simp add: pending_def upd_worker_def ac_simps)

lemma pending_same:
  assumes "i < length (sc_workers s)" "\<And>w. ws_deque (f w) = ws_deque w"
  shows "pending (upd_worker i f s) = pending s"
  using pending_upd [OF assms(1), of f] assms(2) by simp

lemma pending_log [simp]:
  "pending (s\<lparr>sc_executed := x\<rparr>) = pending s" "pending (s\<lparr>sc_steals := y\<rparr>) = pending s"
  "pending (s\<lparr>sc_shutdown_started := b\<rparr>) = pending s"
  by (simp_all add: pending_def)

definition total :: "scheduler \<Rightarrow> spawn_task multiset" where
  "total s = mset (sc_executed s) + pending s"

lemma total_same:
  "i < length (sc_workers s) \<Longrightarrow> total (goto i p s) = total s"
  "i < length (sc_workers s) \<Longrightarrow> total (record_steal src i s) = total s"
  "i < length (sc_workers s) \<Longrightarrow> total (upd_worker i (\<lambda>w. w\<lparr>ws_stats := g w\<rparr>) s) = total s"
  "i < length (sc_workers s) \<Longrightarrow> total (upd_worker i (\<lambda>w. w\<lparr>ws_notify := b\<rparr>) s) = total s"
  "i < length (sc_workers s) \<Longrightarrow> total (upd_worker i (\<lambda>w. w\<lparr>ws_shutdown := b\<rparr>) s) = total s"
  by (simp_all add: total_def goto_def record_steal_def pending_same)

lemma total_execute: "i < length (sc_workers s) \<Longrightarrow> total (execute i t s) = add_mset t (total s)"
  by (simp add: total_def execute_def pending_same)

lemma total_set_deque:
  "i < length (sc_workers s) \<Longrightarrow> total (set_deque i q s) + mset (ws_deque (sc_workers s ! i)) = total s + mset q"
  using pending_upd [of i s "\<lambda>w. w\<lparr>ws_deque := q\<rparr>"] by (simp add: total_def set_deque_def ac_simps)

lemma workers_length [simp]:
  "length (sc_workers (goto i p s)) = length (sc_workers s)"
  "length (sc_workers (execute i t s)) = length (sc_workers s)"
  "length (sc_workers (record_steal src i s)) = length (sc_workers s)"
  "length (sc_workers (set_deque i q s)) = length (sc_workers s)"
  by (simp_all add: goto_def execute_def record_steal_def set_deque_def)

lemma total_pop_local:
  assumes "i < length (sc_workers s)"
  shows "total (pop_local i s) = total s"
proof (cases "ws_deque (sc_workers s ! i) = []")
  case True
  then show ?thesis using assms by (simp add: pop_local_def total_same Let_def)
next
  case False
  let ?q = "ws_deque (sc_workers s ! i)"
  have "mset ?q = add_mset (last ?q) (mset (butlast ?q))"
    using append_butlast_last_id [OF False] by (metis mset_append mset.simps union_mset_add_mset_right add_0_right)
  with total_set_deque [OF assms, of "butlast ?q"] False assms show ?thesis
    by (simp add: pop_local_def total_same total_execute Let_def)
qed

lemma total_probe_sibling:
  assumes "steal_queue ste" "i < length (sc_workers s)"
  shows "total (probe_sibling ste c i j js retry s) = total s"
proof (cases "length (sc_workers s) \<le> j \<or> j = i")
  case False
  then have j: "j < length (sc_workers s)" "i \<noteq> j" by auto
  let ?v = "ws_deque (sc_workers s ! j)" and ?l = "ws_deque (sc_workers s ! i)"
  show ?thesis
  proof (cases "ste c ?v ?l")
    case (StealSuccess t v l)
    have "total (set_deque i l (set_deque j v s)) + mset ?l = total (set_deque j v s) + mset l"
      using total_set_deque [of i "set_deque j v s" l] assms(2) j by (simp add: set_deque_def)
    moreover have "total (set_deque j v s) + mset ?v = total s + mset v" by (rule total_set_deque [OF j(1)])
    moreover have "mset ?v + mset ?l = add_mset t (mset v + mset l)" by (rule steal_queue.conserves [OF assms(1) StealSuccess])
    ultimately have "add_mset t (total (set_deque i l (set_deque j v s))) + (mset ?v + mset ?l) = total s + (mset ?v + mset ?l)"
      by (metis (no_types, lifting) union_assoc union_commute union_mset_add_mset_left union_lcomm)
    then show ?thesis using StealSuccess False assms(2) by (simp add: probe_sibling_def total_same total_execute)
  qed (use False assms(2) in \<open>simp_all add: probe_sibling_def total_same\<close>)
qed (use assms(2) in \<open>auto simp: probe_sibling_def total_same\<close>)

lemma total_injector: "total (s\<lparr>sc_injector := v\<rparr>) + mset (sc_injector s) = total s + mset v"
  by (simp add: total_def pending_def ac_simps)

lemma total_probe_injector:
  assumes "steal_queue sti" "i < length (sc_workers s)"
  shows "total (probe_injector sti c i s) = total s"
proof (cases "sti c (sc_injector s) (ws_deque (sc_workers s ! i))")
  case (StealSuccess t v l)
  let ?l = "ws_deque (sc_workers s ! i)" and ?s = "s\<lparr>sc_injector := v\<rparr>"
  have "total (set_deque i l ?s) + mset ?l = total ?s + mset l" using total_set_deque [of i ?s l] assms(2) by simp
  moreover note total_injector [where s = s and v = v]
  moreover have "mset (sc_injector s) + mset ?l = add_mset t (mset v + mset l)" by (rule steal_queue.conserves [OF assms(1) StealSuccess])
  ultimately have "add_mset t (total (set_deque i l ?s)) + (mset (sc_injector s) + mset ?l) = total s + (mset (sc_injector s) + mset ?l)"
    by (metis (no_types, lifting) union_assoc union_commute union_mset_add_mset_left union_lcomm)
  then show ?thesis using StealSuccess assms(2) by (simp add: probe_injector_def total_same total_execute)
qed (use assms(2) in \<open>simp_all add: probe_injector_def total_same\<close>)

lemma total_worker_step:
  assumes "steal_queue ste" "steal_queue sti" "i < length (sc_workers s)"
  shows "total (worker_step ste sti c i s) = total s"
  using assms by (auto simp: worker_step_def total_same total_pop_local total_probe_sibling total_probe_injector
      split: phase.split list.split)

lemma each_worker_keeps:
  assumes "\<And>i s. i < length (sc_workers s) \<Longrightarrow> length (sc_workers (f i s)) = length (sc_workers s) \<and> total (f i s) = total s"
  shows "length (sc_workers (each_worker f s)) = length (sc_workers s) \<and> total (each_worker f s) = total s"
proof -
  have "length (sc_workers (foldl (\<lambda>s i. f i s) s is)) = length (sc_workers s) \<and> total (foldl (\<lambda>s i. f i s) s is) = total s"
    if "set is \<subseteq> {..<length (sc_workers s)}" for "is" s
    using that
  proof (induction "is" arbitrary: s)
    case (Cons i "is")
    then show ?case using assms [of i s] Cons.IH [of "f i s"] by simp
  qed simp
  then show ?thesis by (simp add: each_worker_def atLeast0LessThan)
qed

lemma total_submit:
  "length (sc_workers (submit t s)) = length (sc_workers s) \<and> total (submit t s) = add_mset t (total s)"
  using each_worker_keeps [of notify_one "s\<lparr>sc_injector := sc_injector s @ [t]\<rparr>"]
  by (simp add: submit_def notify_one_def total_same) (simp add: total_def pending_def)

lemma total_submit_at:
  assumes "i < length (sc_workers s)"
  defines "s1 \<equiv> deepen i s"
  shows "length (sc_workers (notify_one i (s1\<lparr>sc_injector := sc_injector s1 @ [t]\<rparr>))) = length (sc_workers s) \<and>
    total (notify_one i (s1\<lparr>sc_injector := sc_injector s1 @ [t]\<rparr>)) = add_mset t (total s)"
proof -
  have "total s1 = total s" "length (sc_workers s1) = length (sc_workers s)" using assms(1) by (simp_all add: s1_def deepen_def total_same)
  moreover have "total (s1\<lparr>sc_injector := sc_injector s1 @ [t]\<rparr>) = add_mset t (total s1)" by (simp add: total_def pending_def)
  ultimately show ?thesis using assms(1) by (simp add: notify_one_def total_same)
qed

lemma total_shutdown: "length (sc_workers (shutdown s)) = length (sc_workers s) \<and> total (shutdown s) = total s"
proof (cases "sc_shutdown_started s")
  case False
  have "total (s\<lparr>sc_shutdown_started := True\<rparr>) = total s" by (simp add: total_def)
  then show ?thesis using False
    each_worker_keeps [of "\<lambda>i. notify_one i \<circ> upd_worker i (\<lambda>w. w\<lparr>ws_shutdown := True\<rparr>)" "s\<lparr>sc_shutdown_started := True\<rparr>"]
    by (simp add: shutdown_def notify_one_def total_same)
qed (simp add: shutdown_def)

lemma length_worker_step: "length (sc_workers (worker_step ste sti c i s)) = length (sc_workers s)"
  by (simp add: worker_step_def pop_local_def probe_sibling_def probe_injector_def Let_def split: phase.split list.split steal.split)

lemma act_total:
  assumes "steal_queue ste" "steal_queue sti" "sc_workers s \<noteq> []"
  shows "length (sc_workers (act ste sti s a)) = length (sc_workers s)"
    "total (act ste sti s a) = total s + mset (submitted (length (sc_workers s)) [a])"
proof -
  have m: "w mod length (sc_workers s) < length (sc_workers s)" for w using assms(3) by simp
  show "length (sc_workers (act ste sti s a)) = length (sc_workers s)"
    using total_submit total_submit_at m total_shutdown length_worker_step
    by (auto simp: act_def submit_to_def submit_pinned_def Let_def split: action.split)
  show "total (act ste sti s a) = total s + mset (submitted (length (sc_workers s)) [a])"
    using total_submit total_submit_at m total_shutdown total_worker_step [OF assms(1,2)]
    by (cases a) (auto simp: act_def submit_to_def submit_pinned_def Let_def)
qed

lemma submitted_Cons: "submitted n (a # as) = submitted n [a] @ submitted n as"
  by (cases a) auto

lemma run_total:
  assumes "steal_queue ste" "steal_queue sti" "sc_workers s \<noteq> []"
  shows "total (foldl (act ste sti) s as) = total s + mset (submitted (length (sc_workers s)) as) \<and>
    length (sc_workers (foldl (act ste sti) s as)) = length (sc_workers s)"
  using assms(3)
proof (induction "as" arbitrary: s)
  case (Cons a "as")
  note a = act_total [OF assms(1,2) Cons.prems, of a]
  have "sc_workers (act ste sti s a) \<noteq> []" using a(1) Cons.prems by (metis length_0_conv)
  from Cons.IH [OF this] show ?case
    using a submitted_Cons [of "length (sc_workers s)" a "as"] by (simp add: ac_simps)
qed simp

lemma all_some_Some: "all_some xs = Some ys \<longleftrightarrow> xs = map Some ys"
proof (induction xs arbitrary: ys rule: all_some.induct)
  case (3 x xs)
  then show ?case by (cases ys) auto
qed auto

lemma multi_worker_start:
  assumes "multi_worker n detect = Some s"
  shows "length (sc_workers s) = max n 1" "total s = {#}"
    "\<And>i. i < max n 1 \<Longrightarrow> launch_worker (detect (max n 1)) i = Some (sc_workers s ! i)"
    "sc_executed s = []"
proof -
  let ?ws = "sc_workers s" and ?n = "max n 1"
  have ws: "map (launch_worker (detect ?n)) [0..<?n] = map Some ?ws" and s: "sc_injector s = []" "sc_executed s = []"
    using assms by (auto simp: multi_worker_def launch_pool_def all_some_Some)
  show "sc_executed s = []" by (rule s(2))
  from arg_cong [OF ws, of length] show len: "length ?ws = ?n" by simp
  show l: "launch_worker (detect ?n) i = Some (?ws ! i)" if "i < ?n" for i
    using arg_cong [OF ws, of "\<lambda>xs. xs ! i"] that len by simp
  have "mset (ws_deque w) = {#}" if "w \<in> set ?ws" for w
    using that l len by (auto simp: in_set_conv_nth launch_worker_def) (metis option.sel option.simps(3) map_option_eq_Some worker_state.select_convs(1) mset.simps(1))
  then show "total s = {#}" by (simp add: total_def pending_def s sum_list_empty)
qed

text \<open>
  C17. No task is lost and none runs twice. Whatever the order in which submitters, the shutdown and
  the workers' pops, steals and parks interleave, and whatever batches the queues hand out, at any
  moment the tasks submitted so far are exactly those that were executed, those in the injector
  and those in the workers' deques.
\<close>

theorem scheduler_conserves:
  assumes "steal_queue ste" "steal_queue sti" "multi_worker n detect = Some s0" "s = foldl (act ste sti) s0 as"
  shows "mset (submitted (max n 1) as) = mset (sc_executed s) + pending s"
proof -
  note m = multi_worker_start [OF assms(3)]
  have "sc_workers s0 \<noteq> []" using m(1) by auto
  from run_total [OF assms(1,2) this, of "as"] show ?thesis using m assms(4) by (simp add: total_def)
qed

section \<open>Everything is executed\<close>

definition wk_ok :: "nat \<Rightarrow> nat \<Rightarrow> worker_state \<Rightarrow> bool" where
  "wk_ok n i w \<longleftrightarrow> \<not> ws_shutdown w \<and> ws_phase w \<noteq> Stopped \<and> set (ws_order w) = {..<n} - {i} \<and> length (ws_order w) < n \<and>
     (case ws_phase w of Scan js r \<Rightarrow> length js < n | _ \<Rightarrow> True)"

definition all_ok :: "scheduler \<Rightarrow> bool" where
  "all_ok s \<longleftrightarrow> (\<forall>i < length (sc_workers s). wk_ok (length (sc_workers s)) i (sc_workers s ! i))"

lemma all_ok_upd:
  assumes "all_ok s" "i < length (sc_workers s)" "wk_ok (length (sc_workers s)) i (f (sc_workers s ! i))"
  shows "all_ok (upd_worker i f s)"
  using assms by (auto simp: all_ok_def upd_worker_def nth_list_update)

lemma all_ok_fields [simp]:
  "all_ok (s\<lparr>sc_executed := x\<rparr>) = all_ok s" "all_ok (s\<lparr>sc_steals := y\<rparr>) = all_ok s" "all_ok (s\<lparr>sc_injector := z\<rparr>) = all_ok s"
  by (simp_all add: all_ok_def)

lemma wk_ok_fields [simp]:
  "wk_ok n i (w\<lparr>ws_stats := x\<rparr>) = wk_ok n i w" "wk_ok n i (w\<lparr>ws_notify := b\<rparr>) = wk_ok n i w" "wk_ok n i (w\<lparr>ws_deque := q\<rparr>) = wk_ok n i w"
  by (simp_all add: wk_ok_def)

lemma all_ok_ops:
  assumes "all_ok s" "i < length (sc_workers s)"
  shows "all_ok (execute i t s)" "all_ok (record_steal src i s)" "all_ok (set_deque i q s)" "all_ok (notify_one i s)"
    "all_ok (deepen i s)" "all_ok (upd_worker i (\<lambda>w. w\<lparr>ws_stats := g w\<rparr>) s)" "all_ok (upd_worker i (\<lambda>w. w\<lparr>ws_notify := b\<rparr>) s)"
    "p \<noteq> Stopped \<Longrightarrow> (\<And>js r. p = Scan js r \<Longrightarrow> length js < length (sc_workers s)) \<Longrightarrow> all_ok (goto i p s)"
proof -
  have w: "wk_ok (length (sc_workers s)) i (sc_workers s ! i)" using assms by (simp add: all_ok_def)
  show "p \<noteq> Stopped \<Longrightarrow> (\<And>js r. p = Scan js r \<Longrightarrow> length js < length (sc_workers s)) \<Longrightarrow> all_ok (goto i p s)"
    unfolding goto_def by (rule all_ok_upd [OF assms]) (use w in \<open>auto simp: wk_ok_def split: phase.split\<close>)
  show "all_ok (execute i t s)" "all_ok (record_steal src i s)" "all_ok (set_deque i q s)" "all_ok (notify_one i s)"
    "all_ok (deepen i s)" "all_ok (upd_worker i (\<lambda>w. w\<lparr>ws_stats := g w\<rparr>) s)" "all_ok (upd_worker i (\<lambda>w. w\<lparr>ws_notify := b\<rparr>) s)"
    by (simp_all add: execute_def record_steal_def set_deque_def notify_one_def deepen_def all_ok_upd [OF assms] w)
qed

lemma all_ok_phase: "all_ok s \<Longrightarrow> i < length (sc_workers s) \<Longrightarrow> ws_phase (sc_workers s ! i) = Scan js r \<Longrightarrow> length js < length (sc_workers s)"
  "all_ok s \<Longrightarrow> i < length (sc_workers s) \<Longrightarrow> ws_phase (sc_workers s ! i) \<noteq> Stopped \<and> \<not> ws_shutdown (sc_workers s ! i) \<and>
     length (ws_order (sc_workers s ! i)) < length (sc_workers s) \<and> set (ws_order (sc_workers s ! i)) = {..<length (sc_workers s)} - {i}"
  by (auto simp: all_ok_def wk_ok_def)

lemma all_ok_worker_step:
  assumes "all_ok s" "i < length (sc_workers s)"
  shows "all_ok (worker_step ste sti c i s)"
proof -
  have order: "length (ws_order (sc_workers s ! i)) < length (sc_workers s)" using all_ok_phase(2) [OF assms] by simp
  have pop: "all_ok (pop_local i s)" using assms order by (auto simp: pop_local_def Let_def intro!: all_ok_ops)
  have sib: "all_ok (probe_sibling ste c i j js r s)" if "length (j # js) < length (sc_workers s)" for j js r
    using assms that by (auto simp: probe_sibling_def intro!: all_ok_ops split: steal.split)
  have inj: "all_ok (probe_injector sti c i s)" using assms by (auto simp: probe_injector_def intro!: all_ok_ops split: steal.split)
  show ?thesis
    using assms all_ok_phase [OF assms] pop sib inj
    by (auto simp: worker_step_def simp del: upd_worker_simps(6) intro!: all_ok_ops split: phase.split list.split)
qed

lemma each_worker_ok:
  assumes "\<And>i s. all_ok s \<Longrightarrow> i < length (sc_workers s) \<Longrightarrow> length (sc_workers (f i s)) = length (sc_workers s) \<and> all_ok (f i s)" "all_ok s"
  shows "all_ok (each_worker f s)"
proof -
  have "all_ok (foldl (\<lambda>s i. f i s) s is)" if "set is \<subseteq> {..<length (sc_workers s)}" "all_ok s" for "is" s
    using that
  proof (induction "is" arbitrary: s)
    case (Cons i "is")
    then show ?case using assms(1) [of s i] Cons.IH [of "f i s"] by simp
  qed simp
  then show ?thesis using assms(2) by (simp add: each_worker_def atLeast0LessThan)
qed

lemma notify_length [simp]: "length (sc_workers (notify_one i s)) = length (sc_workers s)" "length (sc_workers (deepen i s)) = length (sc_workers s)"
  by (simp_all add: notify_one_def deepen_def)

lemma all_ok_act:
  assumes "all_ok s" "sc_workers s \<noteq> []" "a \<noteq> AShutdown"
  shows "all_ok (act ste sti s a)"
proof -
  have m: "w mod length (sc_workers s) < length (sc_workers s)" for w using assms(2) by simp
  have at: "all_ok (notify_one i ((deepen i s)\<lparr>sc_injector := q\<rparr>))" if "i < length (sc_workers s)" for i q
    using assms(1) that by (intro all_ok_ops(4)) (simp_all add: all_ok_ops)
  have "all_ok (submit t s)" for t
    unfolding submit_def by (rule each_worker_ok) (simp_all add: all_ok_ops assms(1))
  then show ?thesis using assms at m all_ok_worker_step
    by (auto simp: act_def submit_to_def submit_pinned_def Let_def split: action.split)
qed

text \<open>What the probes of a worker running alone have seen: in a clean scan its own deque and those of
  the siblings already probed are empty. \<open>left\<close> bounds the steps until it executes a task.\<close>

definition clean :: "nat \<Rightarrow> scheduler \<Rightarrow> bool" where
  "clean i s \<longleftrightarrow>
     (let seen = (\<lambda>js. \<forall>j < length (sc_workers s). j \<notin> set js \<longrightarrow> ws_deque (sc_workers s ! j) = [])
      in case ws_phase (sc_workers s ! i) of Scan js r \<Rightarrow> \<not> r \<and> i \<notin> set js \<and> seen js | Inject \<Rightarrow> seen [] | _ \<Rightarrow> False)"

definition left :: "nat \<Rightarrow> scheduler \<Rightarrow> nat" where
  "left i s =
     (let n = length (sc_workers s)
      in case ws_phase (sc_workers s ! i) of
           Scan js r \<Rightarrow> if clean i s then length js + 2 else n + 7 + length js
         | Inject \<Rightarrow> if clean i s then 1 else n + 6
         | Parked \<Rightarrow> n + 5
         | Top \<Rightarrow> n + 4
         | Local \<Rightarrow> n + 3
         | Stopped \<Rightarrow> 0)"

definition uncontended :: "steal_fn \<Rightarrow> nat \<Rightarrow> bool" where
  "uncontended st c \<longleftrightarrow> (\<forall>v l. st c v l \<noteq> StealRetry)"

lemma executed_simps [simp]:
  "sc_executed (goto i p s) = sc_executed s" "sc_executed (record_steal src i s) = sc_executed s"
  "sc_executed (set_deque i q s) = sc_executed s" "sc_executed (execute i t s) = sc_executed s @ [t]"
  by (simp_all add: goto_def record_steal_def set_deque_def execute_def)

lemma goto_workers:
  assumes "i < length (sc_workers s)"
  shows "sc_workers (goto i p s) ! i = (sc_workers s ! i)\<lparr>ws_phase := p\<rparr>"
    "ws_deque (sc_workers (goto i p s) ! j) = ws_deque (sc_workers s ! j)"
  using assms by (cases "j = i"; simp add: goto_def upd_worker_def)+

lemma goto_clean:
  assumes "i < length (sc_workers s)"
  shows "clean i (goto i (Scan js r) s) \<longleftrightarrow> \<not> r \<and> i \<notin> set js \<and>
      (\<forall>j < length (sc_workers s). j \<notin> set js \<longrightarrow> ws_deque (sc_workers s ! j) = [])"
    "clean i (goto i Inject s) \<longleftrightarrow> (\<forall>j < length (sc_workers s). ws_deque (sc_workers s ! j) = [])"
  using assms by (simp_all add: clean_def goto_workers Let_def)

lemma goto_left:
  assumes "i < length (sc_workers s)"
  shows "left i (goto i p s) =
     (case p of
        Scan js r \<Rightarrow> if clean i (goto i p s) then length js + 2 else length (sc_workers s) + 7 + length js
      | Inject \<Rightarrow> if clean i (goto i p s) then 1 else length (sc_workers s) + 6
      | Parked \<Rightarrow> length (sc_workers s) + 5
      | Top \<Rightarrow> length (sc_workers s) + 4
      | Local \<Rightarrow> length (sc_workers s) + 3
      | Stopped \<Rightarrow> 0)"
  using assms by (simp add: left_def goto_workers Let_def split: phase.split)

definition advances :: "nat \<Rightarrow> scheduler \<Rightarrow> scheduler \<Rightarrow> bool" where
  "advances i s s' \<longleftrightarrow>
     (\<exists>t. sc_executed s' = sc_executed s @ [t]) \<and> ws_phase (sc_workers s' ! i) = Top \<or> sc_executed s' = sc_executed s \<and> left i s' < left i s"

lemma phase_after_execute: "i < length (sc_workers s) \<Longrightarrow> ws_phase (sc_workers (goto i p s) ! i) = p"
  by (simp add: goto_workers)

lemma pop_advances:
  assumes "all_ok s" "i < length (sc_workers s)" "ws_phase (sc_workers s ! i) = Local"
  shows "advances i s (pop_local i s)"
proof (cases "ws_deque (sc_workers s ! i) = []")
  case True
  have o: "length (ws_order (sc_workers s ! i)) < length (sc_workers s)" "set (ws_order (sc_workers s ! i)) = {..<length (sc_workers s)} - {i}"
    using all_ok_phase(2) [OF assms(1,2)] by auto
  have "clean i (goto i (Scan (ws_order (sc_workers s ! i)) False) s)"
    using o True assms(2) by (auto simp: goto_clean)
  then show ?thesis using True o assms(2,3) by (simp add: pop_local_def advances_def goto_left left_def [of i s] Let_def)
next
  case False
  then show ?thesis using assms(2) by (simp add: pop_local_def advances_def Let_def phase_after_execute)
qed

lemma sibling_advances:
  assumes "steal_queue ste" "uncontended ste c" "i < length (sc_workers s)" "ws_phase (sc_workers s ! i) = Scan (j # js) r"
  shows "advances i s (probe_sibling ste c i j js r s)"
proof -
  have skip: "advances i s (goto i (Scan js r) s)" if "clean i s \<Longrightarrow> j < length (sc_workers s) \<Longrightarrow> ws_deque (sc_workers s ! j) = []"
  proof -
    have "clean i (goto i (Scan js r) s)" if "clean i s"
      using \<open>clean i s \<Longrightarrow> j < length (sc_workers s) \<Longrightarrow> ws_deque (sc_workers s ! j) = []\<close> that assms(3,4)
      by (auto simp: goto_clean clean_def [of i s] Let_def)
    then show ?thesis using assms(3,4) by (auto simp: advances_def goto_left left_def [of i s] Let_def)
  qed
  show ?thesis
  proof (cases "length (sc_workers s) \<le> j \<or> j = i")
    case True
    have "clean i s \<Longrightarrow> j \<noteq> i" using assms(4) by (auto simp: clean_def [of i s] Let_def)
    then show ?thesis using True skip by (auto simp: probe_sibling_def)
  next
    case False
    show ?thesis
    proof (cases "ste c (ws_deque (sc_workers s ! j)) (ws_deque (sc_workers s ! i))")
      case StealEmpty
      then show ?thesis using False skip steal_queue.empty [OF assms(1) StealEmpty] by (simp add: probe_sibling_def)
    qed (use False assms(2,3) in \<open>auto simp: probe_sibling_def advances_def uncontended_def phase_after_execute\<close>)
  qed
qed

lemma injector_advances:
  assumes "steal_queue sti" "uncontended sti c" "i < length (sc_workers s)" "ws_phase (sc_workers s ! i) = Inject" "pending s \<noteq> {#}"
  shows "advances i s (probe_injector sti c i s)"
proof (cases "sti c (sc_injector s) (ws_deque (sc_workers s ! i))")
  case StealEmpty
  then have "sc_injector s = []" by (rule steal_queue.empty [OF assms(1)])
  then have "\<not> clean i s" using assms(4,5) by (auto simp: clean_def pending_def sum_list_empty Let_def in_set_conv_nth)
  then show ?thesis using StealEmpty assms(3,4) by (simp add: probe_injector_def advances_def goto_left left_def [of i s] Let_def)
qed (use assms(2,3) in \<open>auto simp: probe_injector_def advances_def uncontended_def phase_after_execute\<close>)

lemma step_advances:
  assumes "steal_queue ste" "steal_queue sti" "uncontended ste c" "uncontended sti c"
    "all_ok s" "i < length (sc_workers s)" "pending s \<noteq> {#}"
  shows "advances i s (worker_step ste sti c i s)"
proof (cases "ws_phase (sc_workers s ! i)")
  case Top
  then show ?thesis using assms(6) all_ok_phase(2) [OF assms(5,6)] by (simp add: worker_step_def advances_def goto_left left_def [of i s])
next
  case Local
  then show ?thesis using pop_advances assms by (simp add: worker_step_def)
next
  case (Scan js r)
  show ?thesis
  proof (cases js)
    case Nil
    have "clean i (goto i Inject s)" if "clean i s" using that assms(6) Scan Nil by (auto simp: goto_clean clean_def [of i s] Let_def)
    then show ?thesis using Scan Nil assms(6)
      by (auto simp: worker_step_def advances_def goto_left left_def [of i s] Let_def clean_def [of i s])
  next
    case (Cons j js')
    then show ?thesis using sibling_advances assms Scan by (simp add: worker_step_def)
  qed
next
  case Inject
  then show ?thesis using injector_advances assms by (simp add: worker_step_def)
next
  case Parked
  have "left i (goto i Top (upd_worker i f s)) = length (sc_workers s) + 4" for f using assms(6) by (simp add: goto_left)
  then show ?thesis using Parked by (simp add: worker_step_def advances_def left_def [of i s])
next
  case Stopped
  then show ?thesis using all_ok_phase(2) [OF assms(5,6)] by simp
qed

lemma length_executed_step: "\<exists>ts. sc_executed (worker_step ste sti c i s) = sc_executed s @ ts"
  by (auto simp: worker_step_def pop_local_def probe_sibling_def probe_injector_def Let_def
      split: phase.split list.split steal.split)

lemma left_bound: "all_ok s \<Longrightarrow> i < length (sc_workers s) \<Longrightarrow> left i s < 2 * length (sc_workers s) + 7"
  using all_ok_phase(1) [of s i] by (cases "ws_phase (sc_workers s ! i)") (auto simp: left_def Let_def)

lemma pending_empty_stays:
  assumes "steal_queue ste" "steal_queue sti" "i < length (sc_workers s)" "pending s = {#}"
  shows "pending (worker_step ste sti c i s) = {#}"
proof -
  obtain ts where "sc_executed (worker_step ste sti c i s) = sc_executed s @ ts" using length_executed_step by blast
  with total_worker_step [OF assms(1-3), of c] assms(4) show ?thesis by (simp add: total_def)
qed

lemma size_pending_step:
  assumes "steal_queue ste" "steal_queue sti" "i < length (sc_workers s)"
  shows "size (pending (worker_step ste sti c i s)) + length (sc_executed (worker_step ste sti c i s)) = size (pending s) + length (sc_executed s)"
  using arg_cong [OF total_worker_step [OF assms, of c], of size] by (simp add: total_def)

lemma drains:
  assumes "steal_queue ste" "steal_queue sti"
  shows "all_ok s \<Longrightarrow> i < length (sc_workers s) \<Longrightarrow> \<forall>c \<in> set cs. uncontended ste c \<and> uncontended sti c \<Longrightarrow>
    size (pending s) * (2 * length (sc_workers s) + 7) + left i s \<le> length cs \<Longrightarrow>
    pending (foldl (\<lambda>s c. worker_step ste sti c i s) s cs) = {#}"
proof (induction cs arbitrary: s)
  case Nil
  then show ?case by auto
next
  case (Cons c cs)
  let ?s = "worker_step ste sti c i s" and ?k = "2 * length (sc_workers s) + 7"
  have ok: "all_ok ?s" by (rule all_ok_worker_step [OF Cons.prems(1,2)])
  have len: "length (sc_workers ?s) = length (sc_workers s)" by (rule length_worker_step)
  show ?case
  proof (cases "pending s = {#}")
    case True
    have "pending (foldl (\<lambda>s c. worker_step ste sti c i s) s cs) = {#}"
      if "pending s = {#}" "i < length (sc_workers s)" for s cs
      using that
    proof (induction cs arbitrary: s)
      case (Cons c cs)
      then show ?case using pending_empty_stays [OF assms Cons.prems(2,1)] length_worker_step by simp
    qed simp
    then show ?thesis using True Cons.prems(2) by blast
  next
    case False
    have "advances i s ?s" using step_advances [OF assms _ _ Cons.prems(1,2) False] Cons.prems(3) by simp
    moreover note sz = size_pending_step [OF assms Cons.prems(2), of c]
    moreover have "left i ?s = length (sc_workers s) + 4" if "ws_phase (sc_workers ?s ! i) = Top" using that len by (simp add: left_def)
    moreover have "1 \<le> size (pending s)" using False by (simp add: Suc_le_eq nonempty_has_size)
    ultimately have "size (pending ?s) * ?k + left i ?s < size (pending s) * ?k + left i s"
    proof (cases "sc_executed ?s = sc_executed s")
      case False
      assume "1 \<le> size (pending s)" and a: "advances i s ?s" "ws_phase (sc_workers ?s ! i) = Top \<Longrightarrow> left i ?s = length (sc_workers s) + 4"
      have "size (pending s) = Suc (size (pending ?s))" "left i ?s < ?k" using False a sz by (auto simp: advances_def)
      then show ?thesis by simp
    qed (auto simp: advances_def)
    then have "size (pending ?s) * (2 * length (sc_workers ?s) + 7) + left i ?s \<le> length cs" using Cons.prems(4) len by simp
    from Cons.IH [OF ok _ _ this] show ?thesis using Cons.prems(2,3) len by simp
  qed
qed

lemma steal_order_set:
  assumes "i < length t" "build_steal_order i t = Some vs"
  shows "set vs = {..<length t} - {i}" "length vs < length t"
proof -
  have "set vs = {..<length t} - {i} \<and> length vs < length t"
  proof (cases "length t \<le> 1")
    case True
    then show ?thesis using assms by (auto simp: build_steal_order_def)
  next
    case False
    let ?v = "victims i (length t)"
    have v: "length ?v < length t" using assms(1) by (simp add: victims_def)
    have vs: "vs = filter (same_node t i) ?v @ filter (\<lambda>j. \<not> same_node t i j \<and> same_socket t i j) ?v @
        filter (\<lambda>j. \<not> same_node t i j \<and> \<not> same_socket t i j) ?v"
      using assms False by (simp add: build_steal_order_def Let_def)
    have "length (filter P xs @ filter (\<lambda>j. \<not> P j \<and> Q j) xs @ filter (\<lambda>j. \<not> P j \<and> \<not> Q j) xs) = length xs" for P Q and xs :: "nat list"
      by (induction xs) auto
    then have "length vs = length ?v" unfolding vs by blast
    moreover have "set vs = set ?v" unfolding vs by auto
    ultimately show ?thesis using victims_spec(2) [OF assms(1)] v by simp
  qed
  then show "set vs = {..<length t} - {i}" "length vs < length t" by auto
qed

lemma multi_worker_ok:
  assumes "multi_worker n detect = Some s" "length (detect (max n 1)) = max n 1"
  shows "all_ok s"
proof -
  note m = multi_worker_start [OF assms(1)]
  have "wk_ok (max n 1) i (sc_workers s ! i)" if i: "i < max n 1" for i
  proof -
    obtain vs where vs: "build_steal_order i (detect (max n 1)) = Some vs"
      "sc_workers s ! i = \<lparr>ws_deque = [], ws_stats = WorkerStats_default, ws_shutdown = False, ws_notify = False,
         ws_order = vs, ws_phase = Top\<rparr>"
      using m(3) [OF i] unfolding launch_worker_def map_option_eq_Some by metis
    then show ?thesis using steal_order_set [OF _ vs(1)] i assms(2) by (simp add: wk_ok_def)
  qed
  then show ?thesis using m(1) by (simp add: all_ok_def)
qed

lemma run_ok:
  assumes "all_ok s" "sc_workers s \<noteq> []" "AShutdown \<notin> set as" "steal_queue ste" "steal_queue sti"
  shows "all_ok (foldl (act ste sti) s as)"
  using assms(1-3)
proof (induction "as" arbitrary: s)
  case (Cons a "as")
  have "sc_workers (act ste sti s a) \<noteq> []"
    using act_total(1) [OF assms(4,5) Cons.prems(2), of a] Cons.prems(2) by (metis length_0_conv)
  then show ?case using Cons all_ok_act [of s a ste sti] by auto
qed simp

text \<open>
  C18. Every task is eventually executed. After any interleaving of submissions and worker steps in
  which the scheduler was not shut down, each worker is able to finish all pending work by itself:
  left to run without contention it executes every task still in the injector, in its own deque or in
  any sibling's, within a number of its steps that is linear in the pending tasks, so that all
  submitted tasks have been executed. In particular the steal order leaves no sibling out and a
  parked worker does not miss work.
\<close>

theorem scheduler_drains:
  assumes "steal_queue ste" "steal_queue sti" "multi_worker n detect = Some s0" "length (detect (max n 1)) = max n 1"
    and s: "s = foldl (act ste sti) s0 as" "AShutdown \<notin> set as" and i: "i < max n 1"
    and cs: "\<forall>c \<in> set cs. uncontended ste c \<and> uncontended sti c"
      "(size (pending s) + 1) * (2 * max n 1 + 7) \<le> length cs"
    and s': "s' = foldl (\<lambda>s c. act ste sti s (AStep i c)) s cs"
  shows "pending s' = {#} \<and> mset (sc_executed s') = mset (submitted (max n 1) as)"
proof -
  note m = multi_worker_start [OF assms(3)]
  have ne: "sc_workers s0 \<noteq> []" using m(1) by auto
  have r: "total s = mset (submitted (max n 1) as)" "length (sc_workers s) = max n 1"
    using run_total [OF assms(1,2) ne, of "as"] m(1,2) by (simp_all add: s)
  have ok: "all_ok s" unfolding s(1) by (rule run_ok [OF multi_worker_ok [OF assms(3,4)] ne s(2) assms(1,2)])
  have st: "foldl (\<lambda>s c. act ste sti s (AStep i c)) u cs = foldl (\<lambda>s c. worker_step ste sti c i s) u cs \<and>
      total (foldl (\<lambda>s c. worker_step ste sti c i s) u cs) = total u" if "i < length (sc_workers u)" for u cs
    using that
  proof (induction cs arbitrary: u)
    case (Cons c cs)
    then show ?case
      using Cons.IH [of "worker_step ste sti c i u"] total_worker_step [OF assms(1,2) Cons.prems, of c]
      by (simp add: act_def length_worker_step)
  qed simp
  have "left i s < 2 * max n 1 + 7" using left_bound [OF ok] i r(2) by simp
  then have "size (pending s) * (2 * length (sc_workers s) + 7) + left i s \<le> length cs" using cs(2) r(2) by (simp add: algebra_simps)
  from drains [OF assms(1,2) ok _ cs(1) this] have "pending s' = {#}" using st [of s cs] i r(2) by (simp add: s')
  moreover have "total s' = total s" using st [of s cs] i r(2) by (simp add: s')
  ultimately show ?thesis using r(1) by (simp add: total_def)
qed

section \<open>A queue and an example\<close>

text \<open>A queue that hands out its oldest task and moves half of the rest, and that is contended for odd
  inputs.\<close>

definition half_steal :: steal_fn where
  "half_steal c v l =
     (if odd c then StealRetry
      else case v of
             [] \<Rightarrow> StealEmpty
           | t # ts \<Rightarrow> StealSuccess t (drop (length ts div 2) ts) (l @ take (length ts div 2) ts))"

interpretation hs: steal_queue half_steal
proof
  show "mset v + mset l = add_mset t (mset v' + mset l')" if "half_steal c v l = StealSuccess t v' l'" for c v l t v' l'
  proof -
    have "mset ts = mset (take k ts) + mset (drop k ts)" for k and ts :: "spawn_task list"
      by (metis append_take_drop_id mset_append)
    then show ?thesis using that by (auto simp: half_steal_def ac_simps split: if_splits list.splits)
  qed
  show "v = []" if "half_steal c v l = StealEmpty" for c v l
    using that by (auto simp: half_steal_def split: if_splits list.splits)
qed

definition sample_task :: "u64 \<Rightarrow> spawn_task" where
  "sample_task k = \<lparr>st_id = k, st_affinity = Elastic\<rparr>"

definition sample_sched :: scheduler where
  "sample_sched = the (multi_worker 2 topology_flat)"

lemma multi_worker_launches:
  assumes "length (detect (max n 1)) = max n 1"
  shows "\<exists>s. multi_worker n detect = Some s"
proof -
  have "\<exists>w. launch_worker (detect (max n 1)) i = Some w" if "i < max n 1" for i
    using that assms by (auto simp: launch_worker_def build_steal_order_def Let_def)
  then obtain g where "\<forall>i < max n 1. launch_worker (detect (max n 1)) i = Some (g i)" by metis
  then have "map (launch_worker (detect (max n 1))) [0..<max n 1] = map Some (map g [0..<max n 1])" by simp
  then show ?thesis unfolding multi_worker_def launch_pool_def by (metis all_some_Some option.map(2))
qed

lemma sample_launch: "multi_worker 2 topology_flat = Some sample_sched"
  using multi_worker_launches [of topology_flat 2] by (auto simp: sample_sched_def topology_flat_def)

lemma executed_submit: "sc_executed (submit t s) = sc_executed s"
proof -
  have "sc_executed (foldl (\<lambda>s i. notify_one i s) s is) = sc_executed s" for "is" s
    by (induction "is" arbitrary: s) (simp_all add: notify_one_def)
  then show ?thesis by (simp add: submit_def each_worker_def)
qed

theorem scheduler_conserves_witness:
  "mset [sample_task 1, sample_task 2] =
     (let s = foldl (act half_steal half_steal) sample_sched [ASubmit (sample_task 1), AStep 0 0, ASubmitTo 5 (sample_task 2), AStep 0 0]
      in mset (sc_executed s) + pending s)"
  using scheduler_conserves [OF hs.steal_queue_axioms hs.steal_queue_axioms sample_launch refl,
      of "[ASubmit (sample_task 1), AStep 0 0, ASubmitTo 5 (sample_task 2), AStep 0 0]"] by (simp add: Let_def)

theorem scheduler_drains_witness:
  "mset (sc_executed (foldl (\<lambda>s c. act half_steal half_steal s (AStep 1 c))
     (foldl (act half_steal half_steal) sample_sched [ASubmit (sample_task 1), ASubmit (sample_task 2)]) (replicate 33 0))) =
   {#sample_task 1, sample_task 2#}"
proof -
  let ?as = "[ASubmit (sample_task 1), ASubmit (sample_task 2)]"
  let ?s = "foldl (act half_steal half_steal) sample_sched ?as"
  have ex: "sc_executed ?s = []"
    using multi_worker_start(4) [OF sample_launch] by (simp add: act_def executed_submit)
  have "mset (sc_executed ?s) + pending ?s = {#sample_task 1, sample_task 2#}"
    using scheduler_conserves [OF hs.steal_queue_axioms hs.steal_queue_axioms sample_launch refl, of ?as] by simp
  then have sz: "size (pending ?s) = 2" using ex by simp
  have u: "uncontended half_steal 0" by (auto simp: uncontended_def half_steal_def split: list.split)
  show ?thesis
    using scheduler_drains [OF hs.steal_queue_axioms hs.steal_queue_axioms sample_launch _ refl, of ?as 1 "replicate 33 0", OF _ _ _ _ _ refl]
      sz u by (simp add: topology_flat_def)
qed

section \<open>The monitor's suggestions\<close>

lemma foldl_pick_in: "foldl (\<lambda>m y. if P m y then y else m) x xs \<in> set (x # xs)"
proof (induction xs arbitrary: x)
  case (Cons y ys)
  then show ?case using Cons.IH [of "if P x y then y else x"] by (auto split: if_splits)
qed simp

lemma max_by_key_in: "max_by_key f xs = Some m \<Longrightarrow> m \<in> set xs"
  using foldl_pick_in by (cases xs) fastforce+

lemma min_by_key_in: "min_by_key f xs = Some m \<Longrightarrow> m \<in> set xs"
  using foldl_pick_in by (cases xs) fastforce+

lemma sched_stats_in: "(i, st) \<in> set (sched_stats s) \<longleftrightarrow> i < length (sc_workers s) \<and> st = ws_stats (sc_workers s ! i)"
  by (auto simp: sched_stats_def in_set_enumerate_eq)

text \<open>A suggested migration is between two existing workers whose depths differ by more than the
  threshold, and moves an elastic agent that is routed to the busier one.\<close>

lemma sample_once_sound:
  assumes "sample_once th es s = Some (from, to, agent)" "es = map (\<lambda>a. (a, the (sc_routes s a))) as" "set as = dom (sc_routes s)"
  shows "from < length (sc_workers s) \<and> to < length (sc_workers s) \<and> from \<noteq> to \<and>
    th * max (current_queue_depth (ws_stats (sc_workers s ! to))) 1 < current_queue_depth (ws_stats (sc_workers s ! from)) \<and>
    (\<exists>r. sc_routes s agent = Some r \<and> ar_worker r = from \<and> ar_affinity r = Elastic)"
proof -
  let ?d = "\<lambda>p :: nat \<times> worker_stats. current_queue_depth (snd p)"
  obtain b l a r where bl: "max_by_key ?d (sched_stats s) = Some b" "min_by_key ?d (sched_stats s) = Some l"
      "fst b \<noteq> fst l" "th * max (?d l) 1 < ?d b"
    and f: "List.find (\<lambda>(_, r). ar_worker r = fst b \<and> ar_affinity r = Elastic) es = Some (a, r)" "from = fst b" "to = fst l" "agent = a"
    using assms(1) by (auto simp: sample_once_def Let_def split: if_splits option.splits)
  have "(a, r) \<in> set es" "ar_worker r = fst b" "ar_affinity r = Elastic" using find_SomeD [OF f(1)] by auto
  moreover from this(1) have "sc_routes s a = Some r" using assms(2,3) by (auto simp: dom_def)
  ultimately show ?thesis
    using bl f max_by_key_in [OF bl(1)] min_by_key_in [OF bl(2)] by (cases b; cases l) (auto simp: sched_stats_in)
qed

end
