(* ===== verification/Fmt_Printer.thy ===== *)
theory Fmt_Printer
  imports Mty_Prelude
begin

text \<open>
  The layout engine of the formatter, \<^verbatim>\<open>crates/mty-fmt/src/doc.rs\<close> and \<^verbatim>\<open>printer.rs\<close>: documents and the
  two loops over an explicit stack, \<open>pretty\<close> and its look-ahead \<open>fits\<close>. The loops end because each
  round replaces the top of the stack by smaller documents. They are compared with a recursive
  definition of the layout; columns are natural numbers, a column being one character, that is one
  byte that does not continue a UTF-8 sequence.
\<close>

section \<open>Documents\<close>

datatype doc =
    DNil
  | DText string
  | DLine
  | DSoftLine
  | DNest nat doc
  | DGroup doc
  | DConcat doc doc

definition concat_all :: "doc list \<Rightarrow> doc" where
  "concat_all parts = foldl DConcat DNil parts"

definition doc_join :: "doc \<Rightarrow> doc list \<Rightarrow> doc" where
  "doc_join sep parts =
     (case parts of [] \<Rightarrow> DNil | d # ds \<Rightarrow> foldl (\<lambda>acc d. DConcat (DConcat acc sep) d) d ds)"

section \<open>Layout\<close>

datatype layout_mode = Flat | Break

definition chars_count :: "string \<Rightarrow> nat" where
  "chars_count s = length (filter (\<lambda>c. \<not> (128 \<le> (of_char c :: nat) \<and> (of_char c :: nat) < 192)) s)"

type_synonym frame = "nat \<times> layout_mode \<times> doc"

definition stack_size :: "frame list \<Rightarrow> nat" where
  "stack_size st = sum_list (map (\<lambda>(_, _, d). 2 * size d + 1) st)"

function fits_loop :: "nat \<Rightarrow> nat \<Rightarrow> frame list \<Rightarrow> bool" where
  "fits_loop width col stack =
     (if width < col then False
      else case stack of
        [] \<Rightarrow> True
      | (ind, m, d) # st \<Rightarrow>
          (case d of
             DNil \<Rightarrow> fits_loop width col st
           | DText s \<Rightarrow> fits_loop width (col + chars_count s) st
           | DLine \<Rightarrow> (case m of Flat \<Rightarrow> fits_loop width (col + 1) st | Break \<Rightarrow> True)
           | DSoftLine \<Rightarrow> (case m of Break \<Rightarrow> True | Flat \<Rightarrow> fits_loop width col st)
           | DNest n inner \<Rightarrow> fits_loop width col ((ind + n, m, inner) # st)
           | DGroup inner \<Rightarrow> fits_loop width col ((ind, Flat, inner) # st)
           | DConcat a b \<Rightarrow> fits_loop width col ((ind, m, a) # (ind, m, b) # st)))"
  by pat_completeness auto
termination
  by (relation "measure (\<lambda>(_, _, st). stack_size st)") (auto simp: stack_size_def)

definition fits :: "nat \<Rightarrow> nat \<Rightarrow> nat \<Rightarrow> layout_mode \<Rightarrow> doc \<Rightarrow> bool" where
  "fits width col indent m d = fits_loop width col [(indent, m, d)]"

definition break_line :: "nat \<Rightarrow> string" where
  "break_line indent = CHR 0x0A # replicate indent (CHR '' '')"

function pretty_loop :: "nat \<Rightarrow> frame list \<Rightarrow> nat \<Rightarrow> string \<Rightarrow> string" where
  "pretty_loop width stack col out =
     (case stack of
        [] \<Rightarrow> out
      | (indent, m, d) # st \<Rightarrow>
          (case d of
             DNil \<Rightarrow> pretty_loop width st col out
           | DText s \<Rightarrow> pretty_loop width st (col + chars_count s) (out @ s)
           | DLine \<Rightarrow>
               (case m of
                  Flat \<Rightarrow> pretty_loop width st (col + 1) (out @ '' '')
                | Break \<Rightarrow> pretty_loop width st indent (out @ break_line indent))
           | DSoftLine \<Rightarrow>
               (case m of
                  Break \<Rightarrow> pretty_loop width st indent (out @ break_line indent)
                | Flat \<Rightarrow> pretty_loop width st col out)
           | DNest n inner \<Rightarrow> pretty_loop width ((indent + n, m, inner) # st) col out
           | DGroup inner \<Rightarrow>
               pretty_loop width ((indent, if fits width col indent Flat inner then Flat else Break, inner) # st) col out
           | DConcat a b \<Rightarrow> pretty_loop width ((indent, m, a) # (indent, m, b) # st) col out))"
  by pat_completeness auto
termination
  by (relation "measure (\<lambda>(_, st, _, _). stack_size st)") (auto simp: stack_size_def)

declare fits_loop.simps [simp del] pretty_loop.simps [simp del]

definition pretty :: "doc \<Rightarrow> nat \<Rightarrow> string" where
  "pretty d width = pretty_loop width [(0, Flat, d)] 0 []"

section \<open>The look-ahead\<close>

primrec flat_width :: "doc \<Rightarrow> nat" where
  "flat_width DNil = 0"
| "flat_width (DText s) = chars_count s"
| "flat_width DLine = 1"
| "flat_width DSoftLine = 0"
| "flat_width (DNest n d) = flat_width d"
| "flat_width (DGroup d) = flat_width d"
| "flat_width (DConcat a b) = flat_width a + flat_width b"

lemma fits_loop_flat:
  "\<forall>(i, m, d) \<in> set st. m = Flat \<Longrightarrow> fits_loop w c st \<longleftrightarrow> c + sum_list (map (\<lambda>(i, m, d). flat_width d) st) \<le> w"
proof (induction w c st rule: fits_loop.induct)
  case (1 w c st)
  show ?case
  proof (cases "w < c")
    case True
    then show ?thesis by (subst fits_loop.simps) simp
  next
    case False
    then show ?thesis using 1
      by (subst fits_loop.simps) (auto split: list.split doc.split)
  qed
qed

lemma fits_iff: "fits w c i Flat d \<longleftrightarrow> c + flat_width d \<le> w"
  by (simp add: fits_def fits_loop_flat)

section \<open>A recursive layout\<close>

text \<open>The text a document contributes and the column after it.\<close>

primrec lay :: "doc \<Rightarrow> nat \<Rightarrow> nat \<Rightarrow> layout_mode \<Rightarrow> nat \<Rightarrow> string \<times> nat" where
  "lay DNil = (\<lambda>w i m c. ([], c))"
| "lay (DText s) = (\<lambda>w i m c. (s, c + chars_count s))"
| "lay DLine = (\<lambda>w i m c. if m = Flat then ('' '', c + 1) else (break_line i, i))"
| "lay DSoftLine = (\<lambda>w i m c. if m = Flat then ([], c) else (break_line i, i))"
| "lay (DNest n d) = (\<lambda>w i m c. lay d w (i + n) m c)"
| "lay (DGroup d) = (\<lambda>w i m c. lay d w i (if c + flat_width d \<le> w then Flat else Break) c)"
| "lay (DConcat a b) = (\<lambda>w i m c.
     let (s, c1) = lay a w i m c; (t, c2) = lay b w i m c1 in (s @ t, c2))"

lemma pretty_loop_lay:
  "pretty_loop w ((i, m, d) # st) c out = (case lay d w i m c of (s, c1) \<Rightarrow> pretty_loop w st c1 (out @ s))"
proof (induction d arbitrary: i m st c out)
  case (DConcat a b)
  then show ?case by (subst pretty_loop.simps) (simp add: split_beta Let_def)
next
  case (DGroup d)
  then show ?case by (subst pretty_loop.simps) (simp add: fits_iff)
qed (subst pretty_loop.simps; simp split: layout_mode.split)+

lemma pretty_lay: "pretty d w = fst (lay d w 0 Flat 0)"
  by (simp add: pretty_def pretty_loop_lay split_beta pretty_loop.simps [of w "[]"])

section \<open>What a layout keeps\<close>

primrec flat_text :: "doc \<Rightarrow> string" where
  "flat_text DNil = []"
| "flat_text (DText s) = s"
| "flat_text DLine = '' ''"
| "flat_text DSoftLine = []"
| "flat_text (DNest n d) = flat_text d"
| "flat_text (DGroup d) = flat_text d"
| "flat_text (DConcat a b) = flat_text a @ flat_text b"

lemma chars_count_append [simp]: "chars_count (s @ t) = chars_count s + chars_count t"
  by (simp add: chars_count_def)

lemma flat_width_text: "chars_count (flat_text d) = flat_width d"
  by (induction d) (auto simp: chars_count_def)

text \<open>A document that is laid out flat and fits is its flat text, with all groups inside flat.\<close>

lemma lay_flat: "c + flat_width d \<le> w \<Longrightarrow> lay d w i Flat c = (flat_text d, c + flat_width d)"
  by (induction d arbitrary: i c) (auto simp: Let_def)

definition ink :: "string \<Rightarrow> string" where
  "ink s = filter (\<lambda>c. c \<noteq> CHR '' '' \<and> c \<noteq> CHR 0x0A) s"

lemma ink_append [simp]: "ink (s @ t) = ink s @ ink t"
  by (simp add: ink_def)

lemma ink_break [simp]: "ink (break_line i) = []" "ink '' '' = []" "ink [] = []"
  by (simp_all add: ink_def break_line_def)

lemma lay_ink: "ink (fst (lay d w i m c)) = ink (flat_text d)"
  by (induction d arbitrary: i m c) (auto simp: Let_def split_beta)

text \<open>The column after a document is the width of the last line.\<close>

definition last_line :: "string \<Rightarrow> string" where
  "last_line s = rev (takeWhile (\<lambda>c. c \<noteq> CHR 0x0A) (rev s))"

primrec one_line :: "doc \<Rightarrow> bool" where
  "one_line DNil = True"
| "one_line (DText s) \<longleftrightarrow> CHR 0x0A \<notin> set s"
| "one_line DLine = True"
| "one_line DSoftLine = True"
| "one_line (DNest n d) = one_line d"
| "one_line (DGroup d) = one_line d"
| "one_line (DConcat a b) \<longleftrightarrow> one_line a \<and> one_line b"

lemma last_line_simps:
  "CHR 0x0A \<notin> set t \<Longrightarrow> last_line (s @ t) = last_line s @ t"
  "last_line (s @ break_line i) = replicate i (CHR '' '')"
proof -
  have "CHR 0x0A \<notin> set t \<Longrightarrow> takeWhile (\<lambda>c. c \<noteq> CHR 0x0A) (rev t @ xs) = rev t @ takeWhile (\<lambda>c. c \<noteq> CHR 0x0A) xs" for xs
    by (rule takeWhile_append2) auto
  then show "CHR 0x0A \<notin> set t \<Longrightarrow> last_line (s @ t) = last_line s @ t" by (simp add: last_line_def)
  have "takeWhile (\<lambda>c. c \<noteq> CHR 0x0A) (replicate i (CHR '' '') @ CHR 0x0A # xs) = replicate i (CHR '' '')" for xs
    by (induction i) auto
  then show "last_line (s @ break_line i) = replicate i (CHR '' '')" by (simp add: last_line_def break_line_def)
qed

lemma chars_count_spaces [simp]: "chars_count (replicate i (CHR '' '')) = i" "chars_count '' '' = 1" "chars_count [] = 0"
  by (simp_all add: chars_count_def)

lemma lay_column:
  "one_line d \<Longrightarrow> chars_count (last_line out) = c \<Longrightarrow>
   chars_count (last_line (out @ fst (lay d w i m c))) = snd (lay d w i m c)"
proof (induction d arbitrary: out i m c)
  case (DConcat a b)
  let ?a = "lay a w i m c"
  have "chars_count (last_line (out @ fst ?a)) = snd ?a" using DConcat by simp
  from DConcat.IH(2) [OF _ this, of i m] DConcat.prems(1) show ?case by (simp add: Let_def split_beta)
qed (auto simp: last_line_simps)

text \<open>
  C40. The stack-driven printer computes the recursive layout, and it always ends. A group is laid out
  flat exactly when its flat width fits in what is left of the line, counted from the actual width of
  the text already on that line; a document that fits is printed as its flat text; and whatever
  the width, a layout only chooses white space: without blanks and newlines the output is the text
  of the document.
\<close>

theorem pretty_layout:
  assumes "one_line d"
  shows "pretty d w = fst (lay d w 0 Flat 0) \<and>
    (\<forall>c i. fits w c i Flat d \<longleftrightarrow> c + chars_count (flat_text d) \<le> w) \<and>
    chars_count (last_line (pretty d w)) = snd (lay d w 0 Flat 0) \<and>
    ink (pretty d w) = ink (flat_text d) \<and>
    (chars_count (flat_text d) \<le> w \<longrightarrow> pretty d w = flat_text d)"
proof (intro conjI)
  show "chars_count (last_line (pretty d w)) = snd (lay d w 0 Flat 0)"
    using lay_column [OF assms, of "[]" 0 w 0 Flat] by (simp add: pretty_lay last_line_def)
  show "chars_count (flat_text d) \<le> w \<longrightarrow> pretty d w = flat_text d"
    using lay_flat [of 0 d w 0] by (simp add: pretty_lay flat_width_text)
qed (simp_all add: pretty_lay lay_ink fits_iff flat_width_text)

text \<open>A call whose arguments do not fit on a line of ten columns.\<close>

definition sample_call :: doc where
  "sample_call = DConcat (DText ''f('') (DConcat
     (DGroup (DNest 2 (DConcat DSoftLine (doc_join (DConcat (DText '','') DLine) [DText ''alpha'', DText ''beta'']))))
     (DText '')''))"

theorem pretty_layout_witness:
  "pretty sample_call 10 = ''f('' @ break_line 2 @ ''alpha,'' @ break_line 2 @ ''beta)'' \<and>
   ink (pretty sample_call 10) = ''f(alpha,beta)'' \<and> pretty sample_call 20 = ''f(alpha, beta)''"
proof -
  have o: "one_line sample_call" by (simp add: sample_call_def doc_join_def)
  have f: "chars_count (flat_text sample_call) \<le> 20" by (simp add: sample_call_def doc_join_def chars_count_def)
  show ?thesis
    using pretty_layout [OF o, of 10] pretty_layout [OF o, of 20] f
    by (simp add: sample_call_def doc_join_def chars_count_def ink_def break_line_def numeral_2_eq_2 Let_def)
qed

end
