(* ===== verification/Hir_Nodes.thy ===== *)
theory Hir_Nodes
  imports Mty_Prelude
begin

text \<open>
  The high-level IR the front end hands to the borrow checker, \<^verbatim>\<open>crates/mty-hir/src/nodes.rs\<close>. The
  Rust nodes refer to each other by arena indices; lowering allocates every child before its parent
  and shares none, so the arena is read here as the tree it represents and a pass that looks a node
  up by its index is a recursion over that tree. Type and pattern annotations that no modelled pass
  follows keep their index. A pass that threads a state through a list or an optional child
  composes the state transformers of the children with \<open>seq_all\<close> and \<open>seq_opt\<close>.
\<close>

record source_span =
  sp_start :: u32
  sp_end :: u32

type_synonym type_id = nat
type_synonym pat_id = nat

datatype hir_literal =
    LInt int "string option"
  | LFloat u64 "string option"
  | LStr string
  | LChar nat
  | LBool bool
  | LDuration u64 string
  | LSize u64 string

datatype bin_op =
    BAdd | BSub | BMul | BDiv | BRem | BBitAnd | BBitOr | BBitXor | BShl | BShr
  | BEq | BNe | BLt | BLe | BGt | BGe | BAnd | BOr | BRange | BRangeEq
  | BAssign | BAssignAdd | BAssignSub | BAssignMul | BAssignDiv | BAssignRem
  | BAssignBitAnd | BAssignBitOr | BAssignBitXor | BAssignShl | BAssignShr

datatype un_op = UNeg | UNot | UDeref

record hir_param =
  hp_name :: string
  hp_ty :: "type_id option"
  hp_span :: source_span
  hp_attrs :: "string list"
  hp_is_mut :: bool

datatype expr =
    ELiteral hir_literal
  | EPath "string list"
  | ECall expr "arg list"
  | EMethodCall expr string "arg list"
  | EField expr string
  | EIndex expr expr
  | EBinary bin_op expr expr
  | EUnary un_op expr
  | EIf expr block "expr option"
  | EMatch expr "match_arm list"
  | EFor pat_id expr block
  | EWhile expr block
  | ELoop block
  | EReturn "expr option"
  | EBreak "expr option"
  | EContinue
  | EBlock block
  | ETuple "expr list"
  | EArray "expr list"
  | EStruct "string list" "(string \<times> expr) list"
  | EMap "(expr \<times> expr) list"
  | ESend expr string "arg list"
  | EAsk expr string "arg list"
  | EDeadline expr expr
  | EQuestion expr
  | EMove expr
  | EBorrow bool expr
  | ESpawn bool expr
  | EDetach expr
  | EJoin expr
  | EHtmlTemplate string
  | EUnsafe block
  | EArena string expr
  | ETaskScope "expr option" block
  | EBudget "(string \<times> expr) list" expr
  | ESandbox string "(string list \<times> expr) list" block
  | ECast expr type_id
  | ELambda "hir_param list" "type_id option" block
  | EIfLet pat_id expr block "expr option"
  | EWhileLet pat_id expr block
  | ERun expr
  | EPathGeneric "string list" "type_id list"
  | EError
and block = Block "stmt list" "expr option"
and stmt = SLet pat_id "type_id option" "expr option" bool | SExpr expr
and arg = Arg "string option" (arg_value: expr)
and match_arm = Arm pat_id "expr option" expr

definition seq_all :: "('s \<Rightarrow> 's) list \<Rightarrow> 's \<Rightarrow> 's" where
  "seq_all fs s = foldl (\<lambda>s f. f s) s fs"

definition seq_opt :: "('s \<Rightarrow> 's) option \<Rightarrow> 's \<Rightarrow> 's" where
  "seq_opt fo s = (case fo of None \<Rightarrow> s | Some f \<Rightarrow> f s)"

record hir_row_var =
  rv_name :: string
  rv_idx :: u32

datatype hir_effect_row = RowClosed "string list" | RowOpen "string list" "hir_row_var list"

record hir_tool_attr =
  ta_description :: string
  ta_capability :: "string option"
  ta_extra :: "(string \<times> string) list"
  ta_span :: source_span

record hir_fn =
  fn_name :: string
  fn_is_pub :: bool
  fn_is_unsafe :: bool
  fn_generics :: "string list"
  fn_params :: "hir_param list"
  fn_ret :: "type_id option"
  fn_effects :: "string list"
  fn_effect_row :: "hir_effect_row option"
  fn_body :: "block option"
  fn_tool_attr :: "hir_tool_attr option"
  fn_is_variadic :: bool
  fn_span :: source_span

end
