(* ===== verification/Borrow_Diag.thy ===== *)
theory Borrow_Diag
  imports Hir_Nodes
begin

text \<open>
  Diagnostics, \<^verbatim>\<open>crates/mty-diagnostics/src/diagnostic.rs\<close>, the borrow-checker codes of \<^verbatim>\<open>codes.rs\<close>,
  and the constructors of \<^verbatim>\<open>crates/mty-borrow/src/diag.rs\<close> with their message texts. All of them are
  errors with a code between MT3001 and MT3015; the rendered form of a code has four digits.
\<close>

section \<open>Diagnostics\<close>

type_synonym diag_code = u16

datatype diag_severity = SevError | SevWarning | SevNote | SevHelp

record diag_label =
  lb_start :: nat
  lb_end :: nat
  lb_message :: string

record diagnostic =
  dg_code :: diag_code
  dg_severity :: diag_severity
  dg_primary :: diag_label
  dg_secondary :: "diag_label list"
  dg_notes :: "string list"
  dg_helps :: "string list"

definition DiagCode_as_str :: "diag_code \<Rightarrow> string" where
  "DiagCode_as_str c =
     (let ds = show_nat (unat c) in ''MT'' @ replicate (4 - length ds) (CHR ''0'') @ ds)"

definition Diagnostic_error :: "diag_code \<Rightarrow> diag_label \<Rightarrow> diagnostic" where
  "Diagnostic_error c l = \<lparr>dg_code = c, dg_severity = SevError, dg_primary = l, dg_secondary = [],
     dg_notes = [], dg_helps = []\<rparr>"

definition with_note :: "diagnostic \<Rightarrow> string \<Rightarrow> diagnostic" where
  "with_note d n = d\<lparr>dg_notes := dg_notes d @ [n]\<rparr>"

definition with_help :: "diagnostic \<Rightarrow> string \<Rightarrow> diagnostic" where
  "with_help d h = d\<lparr>dg_helps := dg_helps d @ [h]\<rparr>"

definition with_secondary :: "diagnostic \<Rightarrow> diag_label \<Rightarrow> diagnostic" where
  "with_secondary d l = d\<lparr>dg_secondary := dg_secondary d @ [l]\<rparr>"

definition label :: "source_span \<Rightarrow> string \<Rightarrow> diag_label" where
  "label sp msg = \<lparr>lb_start = unat (sp_start sp), lb_end = unat (sp_end sp), lb_message = msg\<rparr>"

section \<open>Constructors of the borrow checker\<close>

definition use_after_move :: "string \<Rightarrow> source_span \<Rightarrow> source_span \<Rightarrow> diagnostic" where
  "use_after_move name sp moved_at =
     with_secondary
       (Diagnostic_error 3001 (label sp (''use of moved value `'' @ name @ ''`'')))
       \<lparr>lb_start = unat (sp_start moved_at), lb_end = unat (sp_end moved_at), lb_message = ''value moved here''\<rparr>"

definition move_out_of_borrow :: "string \<Rightarrow> source_span \<Rightarrow> diagnostic" where
  "move_out_of_borrow name sp =
     Diagnostic_error 3002 (label sp (''cannot move out of `'' @ name @ ''` because it is borrowed''))"

definition borrow_after_move :: "string \<Rightarrow> source_span \<Rightarrow> source_span \<Rightarrow> diagnostic" where
  "borrow_after_move name sp moved_at =
     with_secondary
       (Diagnostic_error 3003 (label sp (''cannot borrow `'' @ name @ ''` after it was moved'')))
       \<lparr>lb_start = unat (sp_start moved_at), lb_end = unat (sp_end moved_at), lb_message = ''value moved here''\<rparr>"

definition mut_borrow_while_shared :: "string \<Rightarrow> source_span \<Rightarrow> diagnostic" where
  "mut_borrow_while_shared name sp =
     Diagnostic_error 3004
       (label sp (''cannot borrow `'' @ name @ ''` as mutable while shared borrows exist''))"

definition shared_borrow_while_mut :: "string \<Rightarrow> source_span \<Rightarrow> diagnostic" where
  "shared_borrow_while_mut name sp =
     Diagnostic_error 3005
       (label sp (''cannot borrow `'' @ name @ ''` as shared while a mutable borrow is live''))"

definition two_mut_borrows :: "string \<Rightarrow> source_span \<Rightarrow> diagnostic" where
  "two_mut_borrows name sp =
     Diagnostic_error 3006 (label sp (''`'' @ name @ ''` is already mutably borrowed''))"

definition borrow_outlives_owner :: "string \<Rightarrow> source_span \<Rightarrow> diagnostic" where
  "borrow_outlives_owner name sp =
     Diagnostic_error 3007 (label sp (''borrow of `'' @ name @ ''` outlives its owner''))"

definition cannot_move_borrowed :: "string \<Rightarrow> source_span \<Rightarrow> diagnostic" where
  "cannot_move_borrowed name sp =
     Diagnostic_error 3008 (label sp (''cannot move `'' @ name @ ''` while it is borrowed''))"

definition move_out_of_ref :: "source_span \<Rightarrow> diagnostic" where
  "move_out_of_ref sp = Diagnostic_error 3009 (label sp ''cannot move out of a reference'')"

definition move_out_of_ref_named :: "string \<Rightarrow> source_span \<Rightarrow> diagnostic" where
  "move_out_of_ref_named name sp =
     Diagnostic_error 3009
       (label sp (''cannot move out of `*'' @ name @
          ''`: dereferencing a reference does not transfer ownership''))"

definition mut_borrow_while_shared_place :: "string \<Rightarrow> source_span \<Rightarrow> diagnostic" where
  "mut_borrow_while_shared_place pl sp =
     Diagnostic_error 3004
       (label sp (''cannot borrow `'' @ pl @
          ''` as mutable while shared borrows of an overlapping place exist''))"

definition shared_borrow_while_mut_place :: "string \<Rightarrow> source_span \<Rightarrow> diagnostic" where
  "shared_borrow_while_mut_place pl sp =
     Diagnostic_error 3005
       (label sp (''cannot borrow `'' @ pl @
          ''` as shared while a mutable borrow of an overlapping place is live''))"

definition two_mut_borrows_place :: "string \<Rightarrow> source_span \<Rightarrow> diagnostic" where
  "two_mut_borrows_place pl sp =
     Diagnostic_error 3006
       (label sp (''`'' @ pl @ ''` (or an overlapping place) is already mutably borrowed''))"

definition arena_escape :: "string \<Rightarrow> source_span \<Rightarrow> diagnostic" where
  "arena_escape name sp =
     Diagnostic_error 3010
       (label sp (''value `'' @ name @
          ''` allocated in the arena cannot escape it; promote with `move` first''))"

definition non_sendable_message_arg :: "string \<Rightarrow> source_span \<Rightarrow> diagnostic" where
  "non_sendable_message_arg name sp =
     Diagnostic_error 3011
       (label sp (''argument `'' @ name @ ''` to a cross-agent message is not Sendable''))"

definition mut_borrow_of_immut_local :: "string \<Rightarrow> source_span \<Rightarrow> diagnostic" where
  "mut_borrow_of_immut_local name sp =
     Diagnostic_error 3013
       (label sp (''cannot mutably borrow immutable local `'' @ name @ ''` (add `mut` to its binding)''))"

definition assign_to_immut_local :: "string \<Rightarrow> source_span \<Rightarrow> diagnostic" where
  "assign_to_immut_local name sp =
     Diagnostic_error 3014 (label sp (''cannot assign to immutable local `'' @ name @ ''`''))"

definition use_of_uninitialized :: "string \<Rightarrow> source_span \<Rightarrow> diagnostic" where
  "use_of_uninitialized name sp =
     Diagnostic_error 3015 (label sp (''use of possibly uninitialized binding `'' @ name @ ''`''))"

lemmas borrow_diag_defs =
  use_after_move_def move_out_of_borrow_def borrow_after_move_def mut_borrow_while_shared_def
  shared_borrow_while_mut_def two_mut_borrows_def borrow_outlives_owner_def cannot_move_borrowed_def
  move_out_of_ref_def move_out_of_ref_named_def mut_borrow_while_shared_place_def
  shared_borrow_while_mut_place_def two_mut_borrows_place_def arena_escape_def
  non_sendable_message_arg_def mut_borrow_of_immut_local_def assign_to_immut_local_def
  use_of_uninitialized_def Diagnostic_error_def with_secondary_def

text \<open>An error of the borrow checker: MT3001 to MT3015 other than the const-context code, which no
  pass of this crate emits.\<close>

definition is_borrow_error :: "diagnostic \<Rightarrow> bool" where
  "is_borrow_error d \<longleftrightarrow> dg_severity d = SevError \<and> 3001 \<le> dg_code d \<and> dg_code d \<le> 3015 \<and> dg_code d \<noteq> 3012"

lemma borrow_errors [simp]:
  "is_borrow_error (use_after_move n s a)" "is_borrow_error (move_out_of_borrow n s)"
  "is_borrow_error (borrow_after_move n s a)" "is_borrow_error (mut_borrow_while_shared n s)"
  "is_borrow_error (shared_borrow_while_mut n s)" "is_borrow_error (two_mut_borrows n s)"
  "is_borrow_error (borrow_outlives_owner n s)" "is_borrow_error (cannot_move_borrowed n s)"
  "is_borrow_error (move_out_of_ref s)" "is_borrow_error (move_out_of_ref_named n s)"
  "is_borrow_error (mut_borrow_while_shared_place n s)" "is_borrow_error (shared_borrow_while_mut_place n s)"
  "is_borrow_error (two_mut_borrows_place n s)" "is_borrow_error (arena_escape n s)"
  "is_borrow_error (non_sendable_message_arg n s)" "is_borrow_error (mut_borrow_of_immut_local n s)"
  "is_borrow_error (assign_to_immut_local n s)" "is_borrow_error (use_of_uninitialized n s)"
  by (simp_all add: is_borrow_error_def borrow_diag_defs)

end
