(* ===== verification/Diag_Fix.thy ===== *)
theory Diag_Fix
  imports Borrow_Diag
begin

text \<open>
  Fix proposals and source positions, \<^verbatim>\<open>crates/mty-diagnostics/src/fix.rs\<close>: the kinds of fixes, the builder
  of a fix with the unified diff it emits, the conversion of a byte offset to a line and a column,
  spans, source snippets, and the result document of \<^verbatim>\<open>mty check --json\<close>. A confidence is an \<open>f32\<close>
  that is only passed along, so it is a type parameter. The envelope and its JSON text are not
  modelled. Positions are shown to determine the offset they were computed from.
\<close>

section \<open>Fixes\<close>

datatype fix_kind =
    FkUntaint
  | FkMissingImport
  | FkAddEffect
  | FkAddCapability
  | FkRenameToMatchDecl
  | FkWrapInSome
  | FkTypeConversion
  | FkDeclareProtocolMessage
  | FkAddClone
  | FkTakeReference
  | FkAddMutability
  | FkBalanceDelimiters
  | FkAddMatchArm
  | FkRemoveUnreachable
  | FkCorrectMacroAttr
  | FkAddReturnType
  | FkAddTypeAnnotation
  | FkAddStructField
  | FkUnpackQuestion
  | FkInitializeBinding
  | FkOther

fun fix_kind_as_str :: "fix_kind \<Rightarrow> string" where
  "fix_kind_as_str FkUntaint = ''untaint''"
| "fix_kind_as_str FkMissingImport = ''missing_import''"
| "fix_kind_as_str FkAddEffect = ''add_effect''"
| "fix_kind_as_str FkAddCapability = ''add_capability''"
| "fix_kind_as_str FkRenameToMatchDecl = ''rename_to_match_decl''"
| "fix_kind_as_str FkWrapInSome = ''wrap_in_some''"
| "fix_kind_as_str FkTypeConversion = ''type_conversion''"
| "fix_kind_as_str FkDeclareProtocolMessage = ''declare_protocol_message''"
| "fix_kind_as_str FkAddClone = ''add_clone''"
| "fix_kind_as_str FkTakeReference = ''take_reference''"
| "fix_kind_as_str FkAddMutability = ''add_mutability''"
| "fix_kind_as_str FkBalanceDelimiters = ''balance_delimiters''"
| "fix_kind_as_str FkAddMatchArm = ''add_match_arm''"
| "fix_kind_as_str FkRemoveUnreachable = ''remove_unreachable''"
| "fix_kind_as_str FkCorrectMacroAttr = ''correct_macro_attr''"
| "fix_kind_as_str FkAddReturnType = ''add_return_type''"
| "fix_kind_as_str FkAddTypeAnnotation = ''add_type_annotation''"
| "fix_kind_as_str FkAddStructField = ''add_struct_field''"
| "fix_kind_as_str FkUnpackQuestion = ''unpack_question''"
| "fix_kind_as_str FkInitializeBinding = ''initialize_binding''"
| "fix_kind_as_str FkOther = ''other''"

record 'f fix_alternative =
  fa_label :: string
  fa_diff :: string
  fa_rationale :: string
  fa_confidence :: 'f

record 'f fix_builder =
  fb_label :: string
  fb_rationale :: string
  fb_confidence :: 'f
  fb_diff :: string

definition FixBuilder_new :: "string \<Rightarrow> string \<Rightarrow> 'f \<Rightarrow> 'f fix_builder" where
  "FixBuilder_new lbl rationale confidence =
     \<lparr>fb_label = lbl, fb_rationale = rationale, fb_confidence = confidence, fb_diff = []\<rparr>"

text \<open>The lines of one side of a hunk, each with its tag.\<close>

definition tagged :: "char \<Rightarrow> string list \<Rightarrow> string" where
  "tagged c ls = concat (map (\<lambda>l. c # l @ [CHR 0x0A]) ls)"

definition unified_diff :: "string \<Rightarrow> u32 \<Rightarrow> string list \<Rightarrow> string list \<Rightarrow> string" where
  "unified_diff file line_no old_lines new_lines =
     ''--- a/'' @ file @ [CHR 0x0A] @
     ''+++ b/'' @ file @ [CHR 0x0A] @
     ''@@ -'' @ show_nat (unat line_no) @ '','' @ show_nat (length old_lines) @
     '' +'' @ show_nat (unat line_no) @ '','' @ show_nat (length new_lines) @ '' @@'' @ [CHR 0x0A] @
     tagged (CHR ''-'') old_lines @ tagged (CHR ''+'') new_lines"

definition set_diff :: "string \<Rightarrow> 'f fix_builder \<Rightarrow> 'f fix_builder" where
  "set_diff d b = b\<lparr>fb_diff := d\<rparr>"

definition replace_line :: "string \<Rightarrow> u32 \<Rightarrow> string \<Rightarrow> string \<Rightarrow> 'f fix_builder \<Rightarrow> 'f fix_builder" where
  "replace_line file line_no old_line new_line b = b\<lparr>fb_diff := unified_diff file line_no [old_line] [new_line]\<rparr>"

definition replace_lines :: "string \<Rightarrow> u32 \<Rightarrow> string list \<Rightarrow> string list \<Rightarrow> 'f fix_builder \<Rightarrow> 'f fix_builder" where
  "replace_lines file line_no old_lines new_lines b = b\<lparr>fb_diff := unified_diff file line_no old_lines new_lines\<rparr>"

definition insert_before :: "string \<Rightarrow> u32 \<Rightarrow> string list \<Rightarrow> 'f fix_builder \<Rightarrow> 'f fix_builder" where
  "insert_before file line_no ls b =
     (let header = ''--- a/'' @ file @ [CHR 0x0A] @ ''+++ b/'' @ file @ [CHR 0x0A] @
            ''@@ -'' @ show_nat (unat line_no) @ '',0 +'' @ show_nat (unat line_no) @ '','' @
            show_nat (length ls) @ '' @@'' @ [CHR 0x0A]
      in b\<lparr>fb_diff := header @ tagged (CHR ''+'') ls\<rparr>)"

definition fix_build :: "'f fix_builder \<Rightarrow> 'f fix_alternative" where
  "fix_build b = \<lparr>fa_label = fb_label b, fa_diff = fb_diff b, fa_rationale = fb_rationale b,
     fa_confidence = fb_confidence b\<rparr>"

section \<open>Positions\<close>

text \<open>One byte of the scan: the pair of line and column, both \<open>u32\<close>.\<close>

definition advance :: "u32 \<times> u32 \<Rightarrow> char \<Rightarrow> u32 \<times> u32" where
  "advance = (\<lambda>(line, col) b. if b = CHR 0x0A then (line + 1, 1) else (line, col + 1))"

definition offset_to_line_col :: "string \<Rightarrow> nat \<Rightarrow> u32 \<times> u32" where
  "offset_to_line_col src offset = foldl advance (1, 1) (take (min (length src) offset) src)"

record span_info =
  si_file :: string
  si_line :: u32
  si_col :: u32
  si_len :: u32
  si_byte_start :: u32
  si_byte_end :: u32

definition span_info_from :: "string \<Rightarrow> string \<Rightarrow> nat \<Rightarrow> nat \<Rightarrow> span_info" where
  "span_info_from file src start stop =
     (let (line, col) = offset_to_line_col src start; safe_end = max stop start
      in \<lparr>si_file = file, si_line = line, si_col = col, si_len = of_nat (safe_end - start),
          si_byte_start = of_nat start, si_byte_end = of_nat safe_end\<rparr>)"

record source_snippet =
  sn_start_line :: u32
  sn_lines :: "string list"

definition snippet_around :: "string \<Rightarrow> u32 \<Rightarrow> u32 \<Rightarrow> source_snippet" where
  "snippet_around src line_no context =
     (let lines = split_on (CHR 0x0A) src
      in if lines = [] then \<lparr>sn_start_line = 1, sn_lines = []\<rparr>
         else let idx = min (unat line_no - 1) (length lines - 1);
                  start = idx - unat context;
                  stop = min (idx + unat context + 1) (length lines)
              in \<lparr>sn_start_line = of_nat (start + 1), sn_lines = take (stop - start) (drop start lines)\<rparr>)"

section \<open>The result document\<close>

fun severity_str :: "diag_severity \<Rightarrow> string" where
  "severity_str SevError = ''error''"
| "severity_str SevWarning = ''warning''"
| "severity_str SevNote = ''note''"
| "severity_str SevHelp = ''help''"

record check_span =
  cs_file :: string
  cs_line :: u32
  cs_col :: u32
  cs_end_line :: u32
  cs_end_col :: u32

record check_diagnostic =
  cd_code :: string
  cd_severity :: string
  cd_message :: string
  cd_span :: check_span

record check_result =
  cr_ok :: bool
  cr_path :: string
  cr_diagnostics :: "check_diagnostic list"

definition check_diagnostic_of :: "string \<Rightarrow> string \<Rightarrow> diagnostic \<Rightarrow> check_diagnostic" where
  "check_diagnostic_of path source d =
     (let start = lb_start (dg_primary d); stop = lb_end (dg_primary d);
          (line, col) = offset_to_line_col source start;
          (end_line, end_col) =
            (if start < stop then offset_to_line_col source stop else (line, col + 1))
      in \<lparr>cd_code = DiagCode_as_str (dg_code d), cd_severity = severity_str (dg_severity d),
          cd_message = lb_message (dg_primary d),
          cd_span = \<lparr>cs_file = path, cs_line = line, cs_col = col, cs_end_line = end_line, cs_end_col = end_col\<rparr>\<rparr>)"

definition build_check_result :: "diagnostic list \<Rightarrow> string \<Rightarrow> string \<Rightarrow> check_result" where
  "build_check_result diags path source =
     \<lparr>cr_ok = (\<not> (\<exists>d \<in> set diags. dg_severity d = SevError)), cr_path = path,
      cr_diagnostics = map (check_diagnostic_of path source) diags\<rparr>"

section \<open>Positions determine offsets\<close>

text \<open>The bytes of some lines with their terminators.\<close>

definition lines_size :: "string list \<Rightarrow> nat" where
  "lines_size ls = sum_list (map (\<lambda>l. length l + 1) ls)"

lemma split_on_append:
  "split_on c (p @ s) =
     butlast (split_on c p) @ (last (split_on c p) @ hd (split_on c s)) # tl (split_on c s)"
proof (induction p)
  case Nil
  show ?case by simp
next
  case (Cons x xs)
  obtain y ys where "split_on c xs = y # ys" by (cases "split_on c xs") auto
  with Cons show ?case by (cases ys) auto
qed

lemma lines_size_split: "lines_size (butlast (split_on c p)) + length (last (split_on c p)) = length p"
proof (induction p)
  case (Cons x xs)
  obtain y ys where "split_on c xs = y # ys" by (cases "split_on c xs") auto
  with Cons show ?case by (cases ys) (auto simp: lines_size_def)
qed (simp add: lines_size_def)

lemma scan_lines:
  "foldl advance (1, 1) p =
     (of_nat (length (split_on (CHR 0x0A) p)), of_nat (length (last (split_on (CHR 0x0A) p))) + 1)"
proof (induction p rule: rev_induct)
  case (snoc x xs)
  then show ?case
    by (cases "x = CHR 0x0A") (simp_all add: advance_def split_on_append)
qed simp

lemma offset_lines:
  "offset_to_line_col src off =
     (let ls = split_on (CHR 0x0A) (take off src) in (of_nat (length ls), of_nat (length (last ls)) + 1))"
  by (simp add: offset_to_line_col_def scan_lines Let_def min_def)

text \<open>What a line and a column say in terms of the lines of the source.\<close>

lemma offset_position:
  assumes "length src + 1 < 2 ^ 32" "off \<le> length src" "offset_to_line_col src off = (line, col)"
  defines "L \<equiv> split_on (CHR 0x0A) src"
  shows "1 \<le> unat line \<and> unat line \<le> length L \<and> 1 \<le> unat col \<and> unat col - 1 \<le> length (L ! (unat line - 1)) \<and>
    off = lines_size (take (unat line - 1) L) + (unat col - 1)"
proof -
  let ?p = "take off src" and ?s = "drop off src"
  define P where "P = split_on (CHR 0x0A) ?p"
  have P: "P \<noteq> []" by (simp add: P_def)
  have size: "lines_size (butlast P) + length (last P) = off"
    using lines_size_split [of "CHR 0x0A" ?p] assms(2) by (simp add: P_def min_def)
  have "length ls \<le> lines_size ls" for ls by (induction ls) (auto simp: lines_size_def)
  from this [of "butlast P"] have "length P - 1 \<le> lines_size (butlast P)" by simp
  then have le: "length P \<le> length src + 1" "length (last P) + 1 \<le> length src + 1"
    using assms(2) size by linarith+
  have u: "unat line = length P" "unat col = length (last P) + 1"
  proof -
    have "line = of_nat (length P)" "col = of_nat (length (last P) + 1)"
      using assms(3) by (auto simp: offset_lines Let_def P_def ac_simps)
    moreover have "length P < 4294967296" "length (last P) + 1 < 4294967296" using assms(1) le by simp_all
    ultimately show "unat line = length P" "unat col = length (last P) + 1" by (simp_all only: unat_of_nat_u32)
  qed
  have L: "L = butlast P @ (last P @ hd (split_on (CHR 0x0A) ?s)) # tl (split_on (CHR 0x0A) ?s)"
    using split_on_append [of "CHR 0x0A" ?p ?s] by (simp add: L_def P_def)
  obtain B l where B: "P = B @ [l]" using P by (cases P rule: rev_cases) auto
  have "Suc 0 \<le> length (split_on (CHR 0x0A) ?s)" by (simp add: Suc_le_eq)
  with u size show ?thesis unfolding L B by (simp add: nth_append)
qed

lemma snippet_shows:
  fixes n k :: u32
  assumes "1 \<le> unat n" "unat n \<le> length (split_on (CHR 0x0A) src)" "length src + 1 < 2 ^ 32"
  defines "sn \<equiv> snippet_around src n k"
  shows "1 \<le> unat (sn_start_line sn) \<and> unat (sn_start_line sn) \<le> unat n \<and>
    unat n - unat (sn_start_line sn) < length (sn_lines sn) \<and>
    sn_lines sn ! (unat n - unat (sn_start_line sn)) = split_on (CHR 0x0A) src ! (unat n - 1) \<and>
    length (sn_lines sn) \<le> 2 * unat k + 1"
proof -
  let ?L = "split_on (CHR 0x0A) src" and ?i = "unat n - 1"
  define a where "a = ?i - unat k"
  have idx: "min ?i (length ?L - 1) = ?i" using assms(2) by simp
  have sn: "sn = \<lparr>sn_start_line = of_nat (a + 1), sn_lines = take (min (?i + unat k + 1) (length ?L) - a) (drop a ?L)\<rparr>"
    unfolding sn_def snippet_around_def Let_def idx a_def by simp
  have "a + 1 < 4294967296" using unat_u32_less [of n] assms(1) unfolding a_def by linarith
  then have start: "unat (of_nat (a + 1) :: u32) = a + 1" by (rule unat_of_nat_u32)
  have sn': "unat (sn_start_line sn) = a + 1" "sn_lines sn = take (min (?i + unat k + 1) (length ?L) - a) (drop a ?L)"
    using start by (simp_all only: sn source_snippet.simps)
  show ?thesis using assms(1,2) unfolding sn' by (auto simp: a_def)
qed

lemma lines_size_take_mono: "i \<le> j \<Longrightarrow> lines_size (take i ls) \<le> lines_size (take j ls)"
proof -
  assume "i \<le> j"
  then have "take j ls = take i ls @ take (j - i) (drop i ls)" by (metis le_add_diff_inverse take_add)
  then show ?thesis by (simp add: lines_size_def)
qed

lemma lines_size_take_Suc:
  "i < length ls \<Longrightarrow> lines_size (take (Suc i) ls) = lines_size (take i ls) + length (ls ! i) + 1"
  by (simp add: lines_size_def take_Suc_conv_app_nth)

lemma offset_mono:
  assumes "length src + 1 < 2 ^ 32" "i < j" "j \<le> length src"
    "offset_to_line_col src i = (l1, c1)" "offset_to_line_col src j = (l2, c2)"
  shows "l1 < l2 \<or> l1 = l2 \<and> c1 < c2"
proof -
  let ?L = "split_on (CHR 0x0A) src"
  have p1: "1 \<le> unat l1" "1 \<le> unat c1" "i = lines_size (take (unat l1 - 1) ?L) + (unat c1 - 1)"
    using offset_position [OF assms(1) _ assms(4)] assms(2,3) by simp_all
  have p2: "1 \<le> unat l2" "unat l2 \<le> length ?L" "1 \<le> unat c2" "unat c2 - 1 \<le> length (?L ! (unat l2 - 1))"
      "j = lines_size (take (unat l2 - 1) ?L) + (unat c2 - 1)"
    using offset_position [OF assms(1,3,5)] by blast+
  have "\<not> unat l2 < unat l1"
  proof
    assume "unat l2 < unat l1"
    then have "lines_size (take (unat l2) ?L) \<le> lines_size (take (unat l1 - 1) ?L)" by (intro lines_size_take_mono) simp
    moreover have "lines_size (take (unat l2) ?L) = lines_size (take (unat l2 - 1) ?L) + length (?L ! (unat l2 - 1)) + 1"
      using lines_size_take_Suc [of "unat l2 - 1" ?L] p2(1,2) by simp
    ultimately show False using p1(3) p2(4,5) assms(2) by linarith
  qed
  moreover have "unat c1 < unat c2" if e: "unat l1 = unat l2"
    using p1(2,3) p2(3,5) assms(2) unfolding e by linarith
  ultimately show ?thesis by (auto simp: word_less_nat_alt word_unat_eq_iff)
qed

text \<open>
  A span can be used to edit. For a source below the range of \<open>u32\<close>, the line and the column of a
  span lie in the source and, with the lengths of the lines, give back the byte offset they were
  computed from; the byte bounds and the length agree, an end before the start counting as the
  start; and the three-line snippet taken at the span shows the line of the span.
\<close>

theorem span_info_located:
  assumes "length src + 1 < 2 ^ 32" "start \<le> length src" "stop \<le> length src"
    and si: "si = span_info_from file src start stop" and L: "L = split_on (CHR 0x0A) src"
    and sn: "sn = snippet_around src (si_line si) 1"
  shows "1 \<le> unat (si_line si) \<and> unat (si_line si) \<le> length L \<and>
    unat (si_col si) - 1 \<le> length (L ! (unat (si_line si) - 1)) \<and>
    start = lines_size (take (unat (si_line si) - 1) L) + (unat (si_col si) - 1) \<and>
    unat (si_byte_start si) = start \<and> unat (si_byte_end si) = max start stop \<and>
    unat (si_byte_start si) + unat (si_len si) = unat (si_byte_end si) \<and>
    sn_lines sn ! (unat (si_line si) - unat (sn_start_line sn)) = L ! (unat (si_line si) - 1) \<and>
    unat (si_line si) - unat (sn_start_line sn) < length (sn_lines sn) \<and> length (sn_lines sn) \<le> 3"
proof -
  obtain line col where lc: "offset_to_line_col src start = (line, col)" by fastforce
  have s: "si_line si = line" "si_col si = col" "si_byte_start si = of_nat start"
      "si_byte_end si = of_nat (max stop start)" "si_len si = of_nat (max stop start - start)"
    using lc by (simp_all add: si span_info_from_def Let_def)
  note pos = offset_position [OF assms(1,2) lc]
  have "max stop start < 4294967296" "start < 4294967296" using assms(1-3) by simp_all
  moreover from this have "max stop start - start < 4294967296" by linarith
  ultimately have "unat (si_byte_start si) = start" "unat (si_byte_end si) = max start stop"
      "unat (si_byte_start si) + unat (si_len si) = unat (si_byte_end si)"
    by (simp_all only: s unat_of_nat_u32)
  with snippet_shows [of line src 1] pos assms(1) show ?thesis by (simp add: s(1,2) L sn)
qed

theorem span_info_located_witness:
  "si_line (span_info_from ''a'' (''ab'' @ [CHR 0x0A] @ ''cd'') 4 5) = 2 \<and>
   sn_lines (snippet_around (''ab'' @ [CHR 0x0A] @ ''cd'') 2 1) ! 1 = ''cd'' \<and>
   (4 :: nat) = lines_size (take 1 (split_on (CHR 0x0A) (''ab'' @ [CHR 0x0A] @ ''cd''))) + 1"
  using span_info_located [of "''ab'' @ [CHR 0x0A] @ ''cd''" 4 5 _ "''a''", OF _ _ _ refl refl refl]
  by (simp add: span_info_from_def offset_to_line_col_def advance_def snippet_around_def Let_def)

text \<open>
  The result document of a check. It is reported as passed exactly when no diagnostic is an error;
  it has one entry per diagnostic, in order; and the span of a diagnostic that starts inside the
  source, or that is empty, ends strictly after its start, so that it always covers something.
\<close>

theorem check_result_spans:
  assumes "length src + 2 < 2 ^ 32"
    and "\<forall>d \<in> set diags. lb_start (dg_primary d) < length src \<or> lb_end (dg_primary d) \<le> lb_start (dg_primary d)"
    and r: "r = build_check_result diags path src"
  shows "(cr_ok r \<longleftrightarrow> (\<forall>d \<in> set diags. dg_severity d \<noteq> SevError)) \<and>
    map cd_message (cr_diagnostics r) = map (lb_message \<circ> dg_primary) diags \<and>
    (\<forall>c \<in> set (cr_diagnostics r). cs_file (cd_span c) = path \<and>
      (cs_line (cd_span c) < cs_end_line (cd_span c) \<or>
       cs_line (cd_span c) = cs_end_line (cd_span c) \<and> cs_col (cd_span c) < cs_end_col (cd_span c)))"
proof -
  have "cs_file (cd_span c) = path \<and> (cs_line (cd_span c) < cs_end_line (cd_span c) \<or>
      cs_line (cd_span c) = cs_end_line (cd_span c) \<and> cs_col (cd_span c) < cs_end_col (cd_span c))"
    if d: "d \<in> set diags" and c: "c = check_diagnostic_of path src d" for d c
  proof -
    let ?a = "lb_start (dg_primary d)" and ?b = "lb_end (dg_primary d)"
    have cap: "offset_to_line_col src n = offset_to_line_col src (min n (length src))" for n
      by (simp add: offset_to_line_col_def min.commute)
    obtain l1 c1 where p1: "offset_to_line_col src ?a = (l1, c1)" by fastforce
    obtain l2 c2 where p2: "offset_to_line_col src ?b = (l2, c2)" by fastforce
    show ?thesis
    proof (cases "?a < ?b")
      case True
      then have lt: "?a < length src" using assms(2) d by auto
      have "l1 < l2 \<or> l1 = l2 \<and> c1 < c2"
        by (rule offset_mono [of src ?a "min ?b (length src)"]) (use assms(1) True lt p1 p2 cap [of ?b] in auto)
      with True p1 p2 show ?thesis by (simp add: c check_diagnostic_of_def)
    next
      case False
      have "offset_to_line_col src (min ?a (length src)) = (l1, c1)" using p1 cap [of ?a] by metis
      from offset_position [OF _ _ this] have "unat c1 - 1 \<le> length src" using assms(1) by auto
      then have "c1 < c1 + 1" using assms(1) unat_u32_less [of c1]
        by (simp add: word_less_nat_alt unat_word_ariths)
      with False p1 show ?thesis by (simp add: c check_diagnostic_of_def)
    qed
  qed
  then show ?thesis
    by (auto simp: r build_check_result_def check_diagnostic_of_def Let_def split_beta)
qed

definition sample_diags :: "diagnostic list" where
  "sample_diags = [Diagnostic_error 3001 \<lparr>lb_start = 1, lb_end = 4, lb_message = ''m''\<rparr>,
     (Diagnostic_error 3002 \<lparr>lb_start = 4, lb_end = 4, lb_message = ''n''\<rparr>)\<lparr>dg_severity := SevNote\<rparr>]"

theorem check_result_spans_witness:
  "\<not> cr_ok (build_check_result sample_diags ''p'' (''ab'' @ [CHR 0x0A] @ ''cd'')) \<and>
   map cd_message (cr_diagnostics (build_check_result sample_diags ''p'' (''ab'' @ [CHR 0x0A] @ ''cd''))) = [''m'', ''n'']"
  using check_result_spans [of "''ab'' @ [CHR 0x0A] @ ''cd''" sample_diags _ "''p''", OF _ _ refl]
  by (simp add: sample_diags_def Diagnostic_error_def)

end
