(* ===== verification/Diag_Apply.thy ===== *)
theory Diag_Apply
  imports Diag_Fix
begin

text \<open>
  Applying fixes, \<^verbatim>\<open>crates/mty-diagnostics/src/apply.rs\<close>: the hunks of a unified diff, their headers, and
  the splice into the lines of a source. A result is \<open>Applied\<close>, \<open>Refused\<close> (the value \<open>None\<close> of the
  code) or \<open>Panicked\<close>, when a body line starts with a character of several bytes and is cut after
  its first byte. The applier is compared with the emitter of \<open>Diag_Fix\<close>: what a fix of the builder
  does to a source, that it can be undone, and that several hunks do not disturb each other. Diffs with
  context lines between their changes are outside what the emitter produces, and are mishandled.
\<close>

section \<open>Hunks\<close>

record hunk_spec =
  hs_old_line :: u32
  hs_old_len :: u32

record hunk =
  hk_spec :: hunk_spec
  hk_body :: "string list"

definition parse_hunk_header :: "string \<Rightarrow> hunk_spec option" where
  "parse_hunk_header s =
     (case strip_prefix ''@@'' s of None \<Rightarrow> None | Some r1 \<Rightarrow>
      (case strip_prefix ''-'' (trim_start r1) of None \<Rightarrow> None | Some rest \<Rightarrow>
       (let lhs = takeWhile (\<lambda>c. c \<noteq> CHR '' '') rest;
            (line_part, len_part) = (case split_once (CHR '','') lhs of Some p \<Rightarrow> p | None \<Rightarrow> (lhs, ''1''))
        in case u32_from_str line_part of None \<Rightarrow> None | Some l \<Rightarrow>
           (case u32_from_str len_part of None \<Rightarrow> None | Some n \<Rightarrow> Some \<lparr>hs_old_line = l, hs_old_len = n\<rparr>))))"

text \<open>The body of a hunk and the lines from which the scan goes on. A final empty line is not part of
  the body.\<close>

fun collect_body :: "string list \<Rightarrow> string list \<times> string list" where
  "collect_body [] = ([], [])"
| "collect_body (l # ls) =
     (if starts_with l ''@@'' \<or> (ls = [] \<and> l = []) then ([], l # ls)
      else let (body, rest) = collect_body ls in (l # body, rest))"

lemma collect_body_shorter: "length (snd (collect_body ls)) \<le> length ls"
  by (induction ls rule: collect_body.induct) (auto simp: Let_def split_beta)

function parse_hunk_lines :: "string list \<Rightarrow> hunk list" where
  "parse_hunk_lines [] = []"
| "parse_hunk_lines (l # ls) =
     (if \<not> starts_with l ''@@'' then parse_hunk_lines ls
      else case parse_hunk_header l of
             None \<Rightarrow> parse_hunk_lines ls
           | Some spec \<Rightarrow> \<lparr>hk_spec = spec, hk_body = fst (collect_body ls)\<rparr> # parse_hunk_lines (snd (collect_body ls)))"
  by pat_completeness auto
termination
  by (relation "measure length") (auto simp: le_imp_less_Suc collect_body_shorter)

definition parse_hunks :: "string \<Rightarrow> hunk list" where
  "parse_hunks diff = parse_hunk_lines (split_on (CHR 0x0A) diff)"

section \<open>Applying a hunk\<close>

datatype apply_result = Applied string | Refused | Panicked

datatype entry_kind = Rem | Add | Ctx

text \<open>\<open>split_at(1)\<close> panics unless the second byte, if there is one, starts a character.\<close>

definition cut_after_first :: "string \<Rightarrow> bool" where
  "cut_after_first raw \<longleftrightarrow>
     (case raw of _ # c # _ \<Rightarrow> \<not> (128 \<le> (of_char c :: nat) \<and> (of_char c :: nat) < 192) | _ \<Rightarrow> True)"

definition classify_line :: "string \<Rightarrow> (entry_kind \<times> string) list" where
  "classify_line raw =
     (if hd raw = CHR ''-'' then [(Rem, tl raw)]
      else if hd raw = CHR ''+'' then [(Add, tl raw)]
      else if hd raw = CHR '' '' then [(Ctx, tl raw)]
      else if hd raw = CHR 0x5C then []
      else [(Ctx, raw)])"

fun classify :: "string list \<Rightarrow> (entry_kind \<times> string) list option" where
  "classify [] = Some []"
| "classify (raw # rs) =
     (if raw = [] then classify rs
      else if \<not> cut_after_first raw then None
      else map_option ((@) (classify_line raw)) (classify rs))"

definition is_ctx :: "entry_kind \<times> string \<Rightarrow> bool" where
  "is_ctx e \<longleftrightarrow> fst e = Ctx"

definition is_rem :: "entry_kind \<times> string \<Rightarrow> bool" where
  "is_rem e \<longleftrightarrow> fst e = Rem"

definition trim_context :: "(entry_kind \<times> string) list \<Rightarrow> (entry_kind \<times> string) list" where
  "trim_context es = rev (dropWhile is_ctx (rev (dropWhile is_ctx es)))"

text \<open>\<open>Vec::insert\<close>, once per line of the chunk.\<close>

definition insert_lines :: "nat \<Rightarrow> string list \<Rightarrow> string list \<Rightarrow> string list" where
  "insert_lines at chunk ls =
     foldl (\<lambda>ls (off, l). take (at + off) ls @ l # drop (at + off) ls) ls (enumerate 0 chunk)"

text \<open>The validation walk: the removed lines are the lines of the source from \<open>i\<close> on.\<close>

fun old_matches :: "string list \<Rightarrow> nat \<Rightarrow> (entry_kind \<times> string) list \<Rightarrow> bool" where
  "old_matches src i [] = True"
| "old_matches src i ((k, want) # es) =
     (if k = Rem then i < length src \<and> src ! i = want \<and> old_matches src (Suc i) es
      else old_matches src i es)"

definition replace_block :: "nat \<Rightarrow> nat \<Rightarrow> string list \<Rightarrow> string list \<Rightarrow> string list" where
  "replace_block start stop chunk src =
     concat (map (\<lambda>(idx, l). (if idx = start then chunk else []) @ (if start \<le> idx \<and> idx < stop then [] else [l]))
       (enumerate 0 src))"

definition apply_hunk :: "string \<Rightarrow> hunk \<Rightarrow> apply_result" where
  "apply_hunk source h =
     (case classify (hk_body h) of
        None \<Rightarrow> Panicked
      | Some es0 \<Rightarrow>
          let leading_ctx = of_nat (length (takeWhile is_ctx es0)) :: u32;
              entries = trim_context es0;
              n_rem = length (filter is_rem entries);
              source_lines = split_on (CHR 0x0A) source;
              start = unat (hs_old_line (hk_spec h) + leading_ctx) - 1;
              chunk = map snd (filter (\<lambda>e. \<not> is_rem e) entries)
          in if n_rem = 0 \<or> hs_old_len (hk_spec h) = 0
             then if length source_lines < start then Refused
                  else Applied (str_join [CHR 0x0A] (insert_lines start chunk source_lines))
             else if length source_lines < start + n_rem then Refused
             else if \<not> old_matches source_lines start entries then Refused
             else Applied (str_join [CHR 0x0A] (replace_block start (start + n_rem) chunk source_lines)))"

fun apply_next :: "apply_result \<Rightarrow> hunk \<Rightarrow> apply_result" where
  "apply_next (Applied s) h = apply_hunk s h"
| "apply_next r h = r"

definition apply_unified_diff :: "string \<Rightarrow> string \<Rightarrow> apply_result" where
  "apply_unified_diff source diff =
     (let hunks = parse_hunks diff
      in if hunks = [] then Refused
         else foldl apply_next (Applied source) (sort_key (\<lambda>h. - int (unat (hs_old_line (hk_spec h)))) hunks))"

text \<open>The first alternative that applies; \<open>None\<close> is a panic on the way.\<close>

fun try_apply_alternatives :: "string \<Rightarrow> string list \<Rightarrow> (string \<times> bool) option" where
  "try_apply_alternatives source [] = Some (source, False)"
| "try_apply_alternatives source (d # ds) =
     (case apply_unified_diff source d of
        Applied s \<Rightarrow> Some (s, True)
      | Refused \<Rightarrow> try_apply_alternatives source ds
      | Panicked \<Rightarrow> None)"

section \<open>The loops as splices\<close>

lemma insert_lines_eq:
  "at \<le> length ls \<Longrightarrow> insert_lines at chunk ls = take at ls @ chunk @ drop at ls"
proof (induction chunk rule: rev_induct)
  case (snoc x xs)
  then show ?case by (simp add: insert_lines_def enumerate_append_eq)
qed (simp add: insert_lines_def)

lemma old_matches_eq:
  "i + length (filter is_rem es) \<le> length src \<Longrightarrow>
   old_matches src i es \<longleftrightarrow> take (length (filter is_rem es)) (drop i src) = map snd (filter is_rem es)"
proof (induction es arbitrary: i)
  case (Cons e es)
  obtain k w where e: "e = (k, w)" by (cases e)
  show ?case
  proof (cases "k = Rem")
    case True
    with Cons e have "drop i src = src ! i # drop (Suc i) src" by (simp add: is_rem_def Cons_nth_drop_Suc)
    with True Cons e show ?thesis by (simp add: is_rem_def)
  qed (use Cons e in \<open>simp add: is_rem_def\<close>)
qed simp

lemma replace_block_pass:
  "stop \<le> n \<or> n + length ls \<le> start \<Longrightarrow> start < stop \<Longrightarrow>
   concat (map (\<lambda>(idx, l). (if idx = start then chunk else []) @ (if start \<le> idx \<and> idx < stop then [] else [l]))
     (enumerate n ls)) = ls"
  by (induction ls arbitrary: n) auto

lemma replace_block_eat:
  "start < n \<Longrightarrow> n + length ls \<le> stop \<Longrightarrow>
   concat (map (\<lambda>(idx, l). (if idx = start then chunk else []) @ (if start \<le> idx \<and> idx < stop then [] else [l]))
     (enumerate n ls)) = []"
  by (auto simp: in_set_enumerate_eq)

lemma replace_block_eq:
  assumes "start < stop" "stop \<le> length src"
  shows "replace_block start stop chunk src = take start src @ chunk @ drop stop src"
proof -
  obtain a x b c where src: "src = a @ x # b @ c" "length a = start" "length b = stop - Suc start"
  proof (rule that)
    show "src = take start src @ src ! start # take (stop - Suc start) (drop (Suc start) src) @ drop stop src"
      using assms append_take_drop_id [of "stop - Suc start" "drop (Suc start) src"] id_take_nth_drop [of start src]
      by simp
  qed (use assms in auto)
  have "replace_block start stop chunk src = a @ chunk @ c"
    using assms src(2,3) replace_block_pass [of stop 0 a start chunk] replace_block_pass [of stop stop c start chunk]
      replace_block_eat [of start "Suc start" b stop chunk]
    by (simp add: replace_block_def src(1) enumerate_append_eq)
  moreover have "stop - start = Suc (length b)" using assms src(3) by simp
  ultimately show ?thesis using src(1,2) by simp
qed

section \<open>The text of a diff\<close>

text \<open>A line of the source: no newline, and not starting in the middle of a character.\<close>

definition line_ok :: "string \<Rightarrow> bool" where
  "line_ok l \<longleftrightarrow> CHR 0x0A \<notin> set l \<and> cut_after_first (CHR ''-'' # l)"

type_synonym change = "u32 \<times> string list \<times> string list"

definition hunk_head :: "change \<Rightarrow> string" where
  "hunk_head = (\<lambda>(n, old, new). ''@@ -'' @ show_nat (unat n) @ '','' @ show_nat (length old) @
     '' +'' @ show_nat (unat n) @ '','' @ show_nat (length new) @ '' @@'')"

definition hunk_lines :: "change \<Rightarrow> string list" where
  "hunk_lines = (\<lambda>(n, old, new). map ((#) (CHR ''-'')) old @ map ((#) (CHR ''+'')) new)"

definition hunk_of :: "change \<Rightarrow> hunk" where
  "hunk_of = (\<lambda>(n, old, new). \<lparr>hk_spec = \<lparr>hs_old_line = n, hs_old_len = of_nat (length old)\<rparr>, hk_body = hunk_lines (n, old, new)\<rparr>)"

definition change_ok :: "change \<Rightarrow> bool" where
  "change_ok = (\<lambda>(n, old, new). length old < 2 ^ 32 \<and> list_all line_ok old \<and> list_all line_ok new)"

text \<open>A diff of one file with several hunks.\<close>

definition diff_text :: "string \<Rightarrow> change list \<Rightarrow> string" where
  "diff_text file cs = ''--- a/'' @ file @ [CHR 0x0A] @ ''+++ b/'' @ file @ [CHR 0x0A] @
     concat (map (\<lambda>(n, old, new). hunk_head (n, old, new) @ [CHR 0x0A] @ tagged (CHR ''-'') old @ tagged (CHR ''+'') new) cs)"

lemma unified_diff_text: "unified_diff file n old new = diff_text file [(n, old, new)]"
  by (simp add: unified_diff_def diff_text_def hunk_head_def)

lemma insert_before_diff: "fb_diff (insert_before file n ls b) = diff_text file [(n, [], ls)]"
proof -
  have "show_nat 0 = ''0''" by (simp add: show_nat.simps [of 0] digit_char_def char_of_def bit_numeral_rec bit_Suc_0_iff)
  then show ?thesis by (simp add: insert_before_def diff_text_def hunk_head_def tagged_def Let_def)
qed

lemma split_tagged:
  "list_all line_ok ls \<Longrightarrow> c \<noteq> CHR 0x0A \<Longrightarrow>
   split_on (CHR 0x0A) (tagged c ls @ t) = map ((#) c) ls @ split_on (CHR 0x0A) t"
proof (induction ls)
  case (Cons l ls)
  have "split_on (CHR 0x0A) ((c # l) @ CHR 0x0A # tagged c ls @ t) = (c # l) # split_on (CHR 0x0A) (tagged c ls @ t)"
    by (rule split_on_append_sep) (use Cons.prems in \<open>auto simp: line_ok_def\<close>)
  with Cons show ?case by (simp add: tagged_def)
qed (simp add: tagged_def)

lemma hunk_head_no_newline: "CHR 0x0A \<notin> set (hunk_head c)"
  using show_nat_notin [of "CHR 0x0A"] by (auto simp: hunk_head_def split: prod.splits)

lemma split_hunks:
  "list_all change_ok cs \<Longrightarrow>
   split_on (CHR 0x0A) (concat (map (\<lambda>(n, old, new). hunk_head (n, old, new) @ [CHR 0x0A] @ tagged (CHR ''-'') old @ tagged (CHR ''+'') new) cs)) =
     concat (map (\<lambda>c. hunk_head c # hunk_lines c) cs) @ [[]]"
proof (induction cs)
  case (Cons c cs)
  obtain n old new where c: "c = (n, old, new)" by (cases c)
  from Cons show ?case
    using split_on_append_sep [OF hunk_head_no_newline [of c]]
    by (simp add: c change_ok_def split_tagged hunk_lines_def)
qed simp

lemma split_diff_text:
  assumes "CHR 0x0A \<notin> set file" "list_all change_ok cs"
  shows "split_on (CHR 0x0A) (diff_text file cs) =
    (''--- a/'' @ file) # (''+++ b/'' @ file) # concat (map (\<lambda>c. hunk_head c # hunk_lines c) cs) @ [[]]"
proof -
  have "CHR 0x0A \<notin> set (''--- a/'' @ file)" "CHR 0x0A \<notin> set (''+++ b/'' @ file)" using assms(1) by auto
  note split_on_append_sep [OF this(1)] split_on_append_sep [OF this(2)]
  with split_hunks [OF assms(2)] show ?thesis by (simp add: diff_text_def)
qed

section \<open>Reading it back\<close>

lemma parse_hunk_head:
  assumes "change_ok (n, old, new)"
  shows "parse_hunk_header (hunk_head (n, old, new)) = Some \<lparr>hs_old_line = n, hs_old_len = of_nat (length old)\<rparr>"
proof -
  let ?k = "show_nat (length old)" and ?n = "show_nat (unat n)"
  have sp: "CHR '' '' \<notin> set (?n @ CHR '','' # ?k)" using show_nat_notin [of "CHR '' ''"] by auto
  have "takeWhile (\<lambda>c. c \<noteq> CHR '' '') ((?n @ CHR '','' # ?k) @ CHR '' '' # r) = ?n @ CHR '','' # ?k" for r
    using sp by (subst takeWhile_append2) auto
  then have tw: "takeWhile (\<lambda>c. c \<noteq> CHR '' '') (?n @ CHR '','' # ?k @ CHR '' '' # r) = ?n @ CHR '','' # ?k" for r
    by simp
  have so: "split_once (CHR '','') (?n @ CHR '','' # ?k) = Some (?n, ?k)"
    by (rule split_once_append) (simp add: show_nat_notin)
  have u: "u32_from_str ?n = Some n" "u32_from_str ?k = Some (of_nat (length old))"
    using assms unat_u32_less [of n] by (simp_all add: u32_from_str_show change_ok_def)
  show ?thesis
    by (simp add: parse_hunk_header_def hunk_head_def trim_start_def is_space_def tw so u Let_def)
qed

lemma collect_hunk_lines:
  "list_all (\<lambda>l. \<not> starts_with l ''@@'' \<and> l \<noteq> []) ls \<Longrightarrow> rest = [[]] \<or> rest \<noteq> [] \<and> starts_with (hd rest) ''@@'' \<Longrightarrow>
   collect_body (ls @ rest) = (ls, rest)"
  by (induction ls) (auto simp: neq_Nil_conv starts_with_def)

lemma starts_with_hunk_head [simp]: "starts_with (hunk_head c) ''@@''"
  by (simp add: hunk_head_def starts_with_def split: prod.splits)

lemma parse_all_hunks:
  "list_all change_ok cs \<Longrightarrow>
   parse_hunk_lines (concat (map (\<lambda>c. hunk_head c # hunk_lines c) cs) @ [[]]) = map hunk_of cs"
proof (induction cs)
  case Nil
  show ?case by (simp add: starts_with_def)
next
  case (Cons c cs)
  obtain n old new where c: "c = (n, old, new)" by (cases c)
  let ?rest = "concat (map (\<lambda>c. hunk_head c # hunk_lines c) cs) @ [[]]"
  have "collect_body (hunk_lines c @ ?rest) = (hunk_lines c, ?rest)"
    by (rule collect_hunk_lines) (auto simp: c hunk_lines_def list_all_iff starts_with_def [of "_ # _"], cases cs, auto)
  with Cons parse_hunk_head [of n old new] show ?case by (simp add: c hunk_of_def)
qed

lemma parse_diff_text:
  assumes "CHR 0x0A \<notin> set file" "list_all change_ok cs"
  shows "parse_hunks (diff_text file cs) = map hunk_of cs"
  using assms by (simp add: parse_hunks_def split_diff_text starts_with_def parse_all_hunks)

section \<open>A change as a splice\<close>

definition put_lines :: "change \<Rightarrow> string list \<Rightarrow> string list" where
  "put_lines = (\<lambda>(n, old, new) ls. take (unat n - 1) ls @ new @ drop (unat n - 1 + length old) ls)"

definition old_present :: "change \<Rightarrow> string list \<Rightarrow> bool" where
  "old_present = (\<lambda>(n, old, new) ls. unat n - 1 \<le> length ls \<and> take (length old) (drop (unat n - 1) ls) = old)"

definition spliced :: "string \<Rightarrow> change \<Rightarrow> apply_result" where
  "spliced src c =
     (let ls = split_on (CHR 0x0A) src
      in if old_present c ls then Applied (str_join [CHR 0x0A] (put_lines c ls)) else Refused)"

lemma classify_hunk_lines:
  assumes "change_ok (n, old, new)"
  shows "classify (hunk_lines (n, old, new)) = Some (map (Pair Rem) old @ map (Pair Add) new)"
proof -
  have cut: "cut_after_first (c # l)" if "line_ok l" for c l
    using that by (simp add: line_ok_def cut_after_first_def split: list.splits)
  have "classify (map ((#) (CHR ''+'')) new) = Some (map (Pair Add) new)" if "list_all line_ok new" for new
    using that by (induction new) (auto simp: cut classify_line_def)
  then have "list_all line_ok old \<Longrightarrow> list_all line_ok new \<Longrightarrow>
      classify (map ((#) (CHR ''-'')) old @ map ((#) (CHR ''+'')) new) = Some (map (Pair Rem) old @ map (Pair Add) new)"
    by (induction old) (auto simp: cut classify_line_def)
  with assms show ?thesis by (simp add: change_ok_def hunk_lines_def)
qed

lemma no_context:
  "trim_context (map (Pair Rem) old @ map (Pair Add) new) = map (Pair Rem) old @ map (Pair Add) new"
  "takeWhile is_ctx (map (Pair Rem) old @ map (Pair Add) new) = []"
proof -
  let ?es = "map (Pair Rem) old @ map (Pair Add) new"
  have nc: "\<forall>e \<in> set ?es. \<not> is_ctx e" by (auto simp: is_ctx_def)
  have "dropWhile is_ctx ?es = ?es" "dropWhile is_ctx (rev ?es) = rev ?es"
    by (rule dropWhile_none, use nc in auto)+
  then show "trim_context ?es = ?es" unfolding trim_context_def by (simp only: rev_rev_ident)
  show "takeWhile is_ctx ?es = []" using nc by (cases ?es) auto
qed

lemma apply_hunk_of:
  assumes "change_ok c"
  shows "apply_hunk src (hunk_of c) = spliced src c"
proof -
  obtain n old new where c: "c = (n, old, new)" by (cases c)
  let ?es = "map (Pair Rem) old @ map (Pair Add) new" and ?ls = "split_on (CHR 0x0A) src" and ?i = "unat n - 1"
  note tr = no_context(1) [of old new]
  have lead: "length (takeWhile is_ctx ?es) = 0" by (simp only: no_context list.size)
  have old0: "(of_nat (length old) :: u32) = 0 \<longleftrightarrow> old = []"
    using assms unat_of_nat_u32 [of "length old"] by (auto simp: c change_ok_def)
  have eq: "apply_hunk src (hunk_of c) =
      (if old = [] then if length ?ls < ?i then Refused else Applied (str_join [CHR 0x0A] (insert_lines ?i new ?ls))
       else if length ?ls < ?i + length old then Refused
       else if \<not> old_matches ?ls ?i ?es then Refused
       else Applied (str_join [CHR 0x0A] (replace_block ?i (?i + length old) new ?ls)))"
    using classify_hunk_lines [of n old new] assms
    by (simp add: apply_hunk_def hunk_of_def c tr lead old0 Let_def filter_map comp_def is_rem_def)
  show ?thesis
  proof (cases "old = []")
    case True
    then show ?thesis unfolding eq
      by (simp add: c spliced_def old_present_def put_lines_def insert_lines_eq Let_def)
  next
    case False
    have m: "old_matches ?ls ?i ?es \<longleftrightarrow> take (length old) (drop ?i ?ls) = old" if "?i + length old \<le> length ?ls"
      using old_matches_eq [of ?i ?es ?ls] that by (simp add: filter_map comp_def is_rem_def)
    have l: "?i + length old \<le> length ?ls" if "take (length old) (drop ?i ?ls) = old"
      using arg_cong [OF that, of length] False by (cases old) (auto simp: min_def split: if_splits)
    show ?thesis unfolding eq using False m l replace_block_eq [of ?i "?i + length old" ?ls new]
      by (auto simp: c Let_def spliced_def old_present_def put_lines_def)
  qed
qed

section \<open>The contract between emitter and applier\<close>

text \<open>What the command line and the language server rely on: an emitted fix, applied to any source,
  replaces the old lines where they stand and is refused where they do not.\<close>

locale fix_format =
  fixes emit :: "string \<Rightarrow> u32 \<Rightarrow> string list \<Rightarrow> string list \<Rightarrow> string"
    and run :: "string \<Rightarrow> string \<Rightarrow> apply_result"
  assumes exact: "CHR 0x0A \<notin> set file \<Longrightarrow> change_ok (n, old, new) \<Longrightarrow> run src (emit file n old new) = spliced src (n, old, new)"
begin

lemma splice_lines_ok:
  assumes "change_ok (n, old, new)"
  shows "\<forall>l \<in> set (put_lines (n, old, new) (split_on (CHR 0x0A) src)). CHR 0x0A \<notin> set l"
  using assms split_on_pieces [of _ "CHR 0x0A" src]
  by (auto simp: put_lines_def change_ok_def list_all_iff line_ok_def dest: in_set_takeD in_set_dropD)

text \<open>The reverse fix, at the same line, restores the source, unless the fix deleted all of it.\<close>

lemma undo:
  assumes fl: "CHR 0x0A \<notin> set file" and ok: "change_ok (n, old, new)" "change_ok (n, new, old)"
    and applied: "run src (emit file n old new) = Applied out"
    and ne: "put_lines (n, old, new) (split_on (CHR 0x0A) src) \<noteq> []"
  shows "run out (emit file n new old) = Applied src"
proof -
  let ?L = "split_on (CHR 0x0A) src" and ?i = "unat n - 1"
  have pres: "old_present (n, old, new) ?L" and out: "out = str_join [CHR 0x0A] (put_lines (n, old, new) ?L)"
    using applied exact [OF fl ok(1), of src] by (simp_all add: spliced_def Let_def split: if_splits)
  have M: "split_on (CHR 0x0A) out = put_lines (n, old, new) ?L"
    unfolding out by (rule split_on_join [OF ne splice_lines_ok [OF ok(1)]])
  have i: "?i \<le> length ?L" "take (length old) (drop ?i ?L) = old" using pres by (simp_all add: old_present_def)
  have "take ?i ?L @ old @ drop (?i + length old) ?L = ?L"
    using i(2) append_take_drop_id [of "length old" "drop ?i ?L"] append_take_drop_id [of ?i ?L] by (simp add: add.commute)
  with i have "old_present (n, new, old) (put_lines (n, old, new) ?L)" "put_lines (n, new, old) (put_lines (n, old, new) ?L) = ?L"
    by (simp_all add: old_present_def put_lines_def)
  then show ?thesis
    using exact [OF fl ok(2), of out] by (simp add: spliced_def M str_join_split)
qed

end

lemma apply_diff_text:
  assumes "CHR 0x0A \<notin> set file" "change_ok c"
  shows "apply_unified_diff src (diff_text file [c]) = spliced src c"
  using assms by (simp add: apply_unified_diff_def parse_diff_text apply_hunk_of)

interpretation patch: fix_format unified_diff apply_unified_diff
  by unfold_locales (simp add: unified_diff_text apply_diff_text)

text \<open>
  C21. A fix does what it says. The diff that the builder emits for replacing lines, or for inserting
  before a line, is read back by the applier: applied to any source, it replaces exactly the old
  lines at their place by the new ones and changes nothing else, and if the old lines are not there
  it is refused, never half applied.
\<close>

theorem fix_applies:
  assumes "CHR 0x0A \<notin> set file" "change_ok (n, old, new)"
    and L: "L = split_on (CHR 0x0A) src" and i: "i = unat n - 1"
  shows "apply_unified_diff src (fa_diff (fix_build (replace_lines file n old new b))) =
      (if i \<le> length L \<and> take (length old) (drop i L) = old
       then Applied (str_join [CHR 0x0A] (take i L @ new @ drop (i + length old) L)) else Refused) \<and>
    apply_unified_diff src (fa_diff (fix_build (insert_before file n new b))) =
      (if i \<le> length L then Applied (str_join [CHR 0x0A] (take i L @ new @ drop i L)) else Refused)"
proof -
  have "change_ok (n, [], new)" using assms(2) by (simp add: change_ok_def)
  then show ?thesis
    using patch.exact [OF assms(1,2), of src] apply_diff_text [OF assms(1), of "(n, [], new)" src]
    by (simp add: fix_build_def replace_lines_def insert_before_diff spliced_def old_present_def put_lines_def L i Let_def)
qed

theorem fix_applies_witness:
  "apply_unified_diff (''a'' @ [CHR 0x0A] @ ''b'') (fa_diff (fix_build (replace_lines ''f'' 2 [''b''] [''c'', ''d''] (FixBuilder_new [] [] ())))) =
     Applied (''a'' @ [CHR 0x0A] @ ''c'' @ [CHR 0x0A] @ ''d'') \<and>
   apply_unified_diff ''x'' (fa_diff (fix_build (replace_lines ''f'' 2 [''b''] [''c'', ''d''] (FixBuilder_new [] [] ())))) = Refused"
  using fix_applies [of "''f''" 2 "[''b'']" "[''c'', ''d'']" _ "''a'' @ [CHR 0x0A] @ ''b''" _ "FixBuilder_new [] [] ()", OF _ _ refl refl]
    fix_applies [of "''f''" 2 "[''b'']" "[''c'', ''d'']" _ "''x''" _ "FixBuilder_new [] [] ()", OF _ _ refl refl]
  by (simp add: change_ok_def line_ok_def cut_after_first_def)

text \<open>
  C26. A fix can be taken back. After a fix was applied, the fix that exchanges its old and its new
  lines at the same place is accepted and restores the source byte for byte, unless the fix deleted
  every line of the source.
\<close>

theorem fix_undo:
  assumes "CHR 0x0A \<notin> set file" "change_ok (n, old, new)" "length new < 2 ^ 32"
    and "apply_unified_diff src (unified_diff file n old new) = Applied out"
    and "new \<noteq> [] \<or> length old < length (split_on (CHR 0x0A) src)"
  shows "apply_unified_diff out (unified_diff file n new old) = Applied src"
proof (rule patch.undo [OF assms(1,2) _ assms(4)])
  show "change_ok (n, new, old)" using assms(2,3) by (simp add: change_ok_def)
  let ?L = "split_on (CHR 0x0A) src"
  have "put_lines (n, old, new) ?L = [] \<Longrightarrow> new = [] \<and> length ?L \<le> length old" by (auto simp: put_lines_def)
  then show "put_lines (n, old, new) ?L \<noteq> []" using assms(5) by fastforce
qed

theorem fix_undo_witness:
  "apply_unified_diff (''a'' @ [CHR 0x0A] @ ''c'') (unified_diff ''f'' 2 [''c''] [''b'']) = Applied (''a'' @ [CHR 0x0A] @ ''b'')"
proof -
  have "apply_unified_diff (''a'' @ [CHR 0x0A] @ ''b'') (unified_diff ''f'' 2 [''b''] [''c'']) = Applied (''a'' @ [CHR 0x0A] @ ''c'')"
    by (subst patch.exact) (simp_all add: change_ok_def line_ok_def cut_after_first_def spliced_def old_present_def put_lines_def)
  then show ?thesis
    by (rule fix_undo [rotated 3]) (simp_all add: change_ok_def line_ok_def cut_after_first_def)
qed

section \<open>Several hunks\<close>

text \<open>The changes fit the lines \<open>L\<close> from position \<open>p\<close> on: each finds its old lines, and starts
  after the one before it.\<close>

fun changes_fit :: "nat \<Rightarrow> string list \<Rightarrow> change list \<Rightarrow> bool" where
  "changes_fit p L [] = True"
| "changes_fit p L ((n, old, new) # cs) =
     (1 \<le> unat n \<and> p \<le> unat n - 1 \<and> old_present (n, old, new) L \<and> change_ok (n, old, new) \<and>
      changes_fit (unat n - 1 + max 1 (length old)) L cs)"

text \<open>All changes at once, with the line numbers of the original.\<close>

fun patched :: "nat \<Rightarrow> string list \<Rightarrow> change list \<Rightarrow> string list" where
  "patched p L [] = drop p L"
| "patched p L ((n, old, new) # cs) =
     take (unat n - 1 - p) (drop p L) @ new @ patched (unat n - 1 + length old) L cs"

lemma patched_prefix:
  "q \<le> p \<Longrightarrow> changes_fit p L cs \<Longrightarrow> take q L @ patched q L cs = take p L @ patched p L cs"
proof (cases cs)
  case (Cons c cs')
  assume "q \<le> p" "changes_fit p L cs"
  obtain n old new where c: "c = (n, old, new)" by (cases c)
  have "take q L @ take (unat n - 1 - q) (drop q L) = take (unat n - 1) L" if "q \<le> unat n - 1" for q
    using that by (metis le_add_diff_inverse take_add)
  from this [of q] this [of p] show ?thesis using Cons c \<open>q \<le> p\<close> \<open>changes_fit p L cs\<close> by simp
qed simp

lemma changes_fit_later: "changes_fit p L cs \<Longrightarrow> (n, old, new) \<in> set cs \<Longrightarrow> p \<le> unat n - 1 \<and> 1 \<le> unat n \<and> change_ok (n, old, new)"
proof (induction p L cs rule: changes_fit.induct)
  case (2 p L n' old' new' cs)
  then show ?case by (cases "(n, old, new) \<in> set cs") auto
qed simp

lemma changes_sorted:
  "changes_fit p L cs \<Longrightarrow>
   sort_key (\<lambda>h. - int (unat (hs_old_line (hk_spec h)))) (map hunk_of cs) = rev (map hunk_of cs)"
proof (induction p L cs rule: changes_fit.induct)
  case (2 p L n old new cs)
  define f :: "hunk \<Rightarrow> int" where "f = (\<lambda>h. - int (unat (hs_old_line (hk_spec h))))"
  have fit: "changes_fit (unat n - 1 + max 1 (length old)) L cs" "1 \<le> unat n"
    using "2.prems" unfolding changes_fit.simps by blast+
  have last: "\<forall>y \<in> set ys. f y < f x \<Longrightarrow> insort_key f x ys = ys @ [x]" for x ys by (induction ys) auto
  have "f h < f (hunk_of (n, old, new))" if "h \<in> hunk_of ` set cs" for h
  proof -
    obtain n' old' new' where "(n', old', new') \<in> set cs" "h = hunk_of (n', old', new')" using \<open>h \<in> _\<close> by auto
    moreover from changes_fit_later [OF fit(1) this(1)] fit(2) have "unat n < unat n'" by linarith
    ultimately show ?thesis by (simp add: f_def hunk_of_def word_less_nat_alt flip: word_less_def)
  qed
  moreover have "sort_key f (map hunk_of cs) = rev (map hunk_of cs)" using "2.IH" [OF fit(1)] by (simp only: f_def)
  ultimately show ?case unfolding f_def [symmetric] by (simp add: last)
qed simp

lemma patched_lines_ok:
  "\<forall>l \<in> set L. CHR 0x0A \<notin> set l \<Longrightarrow> changes_fit p L cs \<Longrightarrow> \<forall>l \<in> set (patched q L cs). CHR 0x0A \<notin> set l"
proof (induction q L cs arbitrary: p rule: patched.induct)
  case (2 q L n old new cs)
  then have "\<forall>l \<in> set (patched (unat n - 1 + length old) L cs). CHR 0x0A \<notin> set l" by auto
  with 2 show ?case by (auto simp: change_ok_def list_all_iff line_ok_def dest!: in_set_takeD in_set_dropD)
qed (auto dest: in_set_dropD)

lemma apply_changes:
  assumes "L = split_on (CHR 0x0A) src"
  shows "changes_fit p L cs \<Longrightarrow>
    foldl apply_next (Applied src) (rev (map hunk_of cs)) = Applied (str_join [CHR 0x0A] (take p L @ patched p L cs))"
proof (induction cs arbitrary: p)
  case Nil
  then show ?case by (simp add: assms str_join_split)
next
  case (Cons c cs)
  obtain n old new where c: "c = (n, old, new)" by (cases c)
  let ?i = "unat n - 1"
  let ?p = "?i + max 1 (length old)" and ?q = "?i + length old"
  have fit: "p \<le> ?i" "old_present c L" "change_ok c" "changes_fit ?p L cs" using Cons.prems unfolding c changes_fit.simps by blast+
  define M where "M = take ?q L @ patched ?q L cs"
  have M: "M = take ?p L @ patched ?p L cs" unfolding M_def by (rule patched_prefix [OF _ fit(4)]) simp
  have "\<forall>l \<in> set L. CHR 0x0A \<notin> set l" using split_on_pieces assms by blast
  then have "\<forall>l \<in> set M. CHR 0x0A \<notin> set l" using patched_lines_ok [OF _ fit(4)] by (auto simp: M_def dest: in_set_takeD)
  moreover have "M \<noteq> []" by (simp add: M assms)
  ultimately have split: "split_on (CHR 0x0A) (str_join [CHR 0x0A] M) = M" by (intro split_on_join)
  have i: "?i \<le> length L" "take (length old) (drop ?i L) = old" using fit(2) by (simp_all add: c old_present_def)
  from arg_cong [OF i(2), of length] i(1) have q: "?q \<le> length L" by (auto simp: min_def split: if_splits)
  have "old_present c M" "put_lines c M = take ?i L @ new @ patched ?q L cs"
    using i q by (simp_all add: c old_present_def put_lines_def M_def take_drop [symmetric] drop_take)
  then have "apply_hunk (str_join [CHR 0x0A] M) (hunk_of c) = Applied (str_join [CHR 0x0A] (take ?i L @ new @ patched ?q L cs))"
    by (simp add: apply_hunk_of [OF fit(3)] spliced_def split Let_def)
  moreover have "take p L @ take (?i - p) (drop p L) = take ?i L" using fit(1) by (metis le_add_diff_inverse take_add)
  then have "take p L @ patched p L (c # cs) = take ?i L @ new @ patched ?q L cs"
    unfolding c patched.simps append_assoc [symmetric] by (simp only:)
  ultimately show ?case using Cons.IH [OF fit(4)] unfolding M [symmetric] by simp
qed

text \<open>
  C25. Hunks do not disturb each other. Given the hunks of a diff in ascending order without overlap,
  the applier, which works from the last hunk to the first on the text it has changed already,
  gives what replacing all blocks at once by their line numbers in the original would give.
\<close>

theorem hunks_independent:
  assumes "CHR 0x0A \<notin> set file" "cs \<noteq> []" "changes_fit 0 (split_on (CHR 0x0A) src) cs"
  shows "apply_unified_diff src (diff_text file cs) =
    Applied (str_join [CHR 0x0A] (patched 0 (split_on (CHR 0x0A) src) cs))"
proof -
  have "list_all change_ok cs" using changes_fit_later [OF assms(3)] by (auto simp: list_all_iff)
  then show ?thesis
    using assms changes_sorted [OF assms(3)] apply_changes [OF refl assms(3)]
    by (simp add: apply_unified_diff_def parse_diff_text)
qed

theorem hunks_independent_witness:
  "apply_unified_diff (str_join [CHR 0x0A] [''a'', ''b'', ''c'']) (diff_text ''f'' [(1, [''a''], [''x'', ''y'']), (3, [''c''], [])]) =
   Applied (str_join [CHR 0x0A] [''x'', ''y'', ''b''])"
  by (subst hunks_independent) (simp_all add: old_present_def change_ok_def line_ok_def cut_after_first_def)



end
