(* ===== verification/Lsp_Edits.thy ===== *)
theory Lsp_Edits
  imports Diag_Apply
begin

text \<open>
  Positions and edits of the language server, \<^verbatim>\<open>crates/mty-lsp/src/line_index.rs\<close> and \<^verbatim>\<open>diff_apply.rs\<close>. A
  position counts UTF-16 code units from the start of its line, the compiler counts bytes. The
  characters of a string are the maximal runs of a byte and the continuation bytes after it; a
  character takes two code units when its first byte starts a sequence of four. Slices of a valid
  source are valid exactly when they end at the start of a character, which is what the test for
  valid UTF-8 is modelled by. The scan for hunks and their headers repeats that of \<^verbatim>\<open>apply.rs\<close> line by
  line, so the definitions of \<open>Diag_Apply\<close> are used for it.
  The edits are compared with what \<open>apply_unified_diff\<close> does with the same diff: they agree inside the
  file and differ on its last line.
\<close>

section \<open>Characters\<close>

definition is_cont :: "char \<Rightarrow> bool" where
  "is_cont c \<longleftrightarrow> 128 \<le> (of_char c :: nat) \<and> (of_char c :: nat) < 192"

function str_chars :: "string \<Rightarrow> string list" where
  "str_chars [] = []"
| "str_chars (b # bs) = (b # takeWhile is_cont bs) # str_chars (dropWhile is_cont bs)"
  by pat_completeness auto
termination
  by (relation "measure length") (auto simp: le_imp_less_Suc length_dropWhile_le)

definition len_utf16 :: "string \<Rightarrow> nat" where
  "len_utf16 c = (if 240 \<le> (of_char (hd c) :: nat) then 2 else 1)"

definition utf16_len :: "string \<Rightarrow> u32" where
  "utf16_len s = sum_list (map (\<lambda>c. of_nat (len_utf16 c)) (str_chars s))"

section \<open>The line index\<close>

record line_index =
  li_line_starts :: "u32 list"
  li_len :: u32

definition LineIndex_new :: "string \<Rightarrow> line_index" where
  "LineIndex_new source =
     \<lparr>li_line_starts = 0 # map (\<lambda>(i, _). of_nat (i + 1)) (filter (\<lambda>(_, b). b = CHR 0x0A) (enumerate 0 source)),
      li_len = of_nat (length source)\<rparr>"

definition line_count :: "line_index \<Rightarrow> nat" where
  "line_count li = length (li_line_starts li)"

definition index_is_empty :: "line_index \<Rightarrow> bool" where
  "index_is_empty li \<longleftrightarrow> li_len li = 0"

text \<open>\<open>binary_search\<close> on a sorted vector: the place of the element, or where it would be inserted.\<close>

definition binary_search :: "u32 list \<Rightarrow> u32 \<Rightarrow> (nat, nat) result" where
  "binary_search xs x =
     (if x \<in> set xs then Inr (length (takeWhile (\<lambda>y. y \<noteq> x) xs)) else Inl (length (filter (\<lambda>y. y < x) xs)))"

definition offset_to_position :: "line_index \<Rightarrow> string \<Rightarrow> u32 \<Rightarrow> u32 \<times> u32" where
  "offset_to_position li source offset0 =
     (let offset = min offset0 (li_len li);
          line = (case binary_search (li_line_starts li) offset of Inr i \<Rightarrow> i | Inl i \<Rightarrow> i - 1);
          line_start = unat (li_line_starts li ! line);
          line_end = unat offset;
          bytes = take (min line_end (length source) - line_start) (drop line_start source);
          valid = (min line_end (length source) = length source \<or> \<not> is_cont (source ! line_end))
      in (of_nat line, utf16_len (if valid then bytes else [])))"

text \<open>The loop over the characters of a line: code units and bytes so far.\<close>

fun consume :: "u32 \<Rightarrow> u32 \<Rightarrow> u32 \<Rightarrow> string list \<Rightarrow> u32" where
  "consume character utf16_count byte_in_line [] = byte_in_line"
| "consume character utf16_count byte_in_line (c # cs) =
     (if character \<le> utf16_count then byte_in_line
      else consume character (utf16_count + of_nat (len_utf16 c)) (byte_in_line + of_nat (length c)) cs)"

definition strip_newline :: "string \<Rightarrow> string" where
  "strip_newline s = (if s \<noteq> [] \<and> last s = CHR 0x0A then butlast s else s)"

definition position_to_offset :: "line_index \<Rightarrow> string \<Rightarrow> u32 \<Rightarrow> u32 \<Rightarrow> u32" where
  "position_to_offset li source line0 character =
     (let starts = li_line_starts li;
          line = min (unat line0) (length starts - 1);
          line_start = unat (starts ! line);
          next_line_start = (if line + 1 < length starts then unat (starts ! (line + 1)) else length source);
          line_text = strip_newline (take (next_line_start - line_start) (drop line_start source));
          offset = of_nat line_start + consume character 0 0 (str_chars line_text)
      in min offset (li_len li))"

section \<open>Diffs as text edits\<close>

record lsp_position =
  pos_line :: u32
  pos_character :: u32

record text_edit =
  te_start :: lsp_position
  te_end :: lsp_position
  te_new_text :: string

definition line_start_position :: "u32 \<Rightarrow> string list \<Rightarrow> lsp_position" where
  "line_start_position line_idx source_lines =
     (if length source_lines \<le> unat line_idx
      then let total = of_nat (length source_lines) :: u32;
               last_line = (if source_lines = [] then [] else last source_lines)
           in \<lparr>pos_line = (if total = 0 then 0 else total - 1), pos_character = utf16_len last_line\<rparr>
      else \<lparr>pos_line = line_idx, pos_character = 0\<rparr>)"

text \<open>The validation walk; past the end of the source it sees empty lines.\<close>

fun lsp_old_matches :: "string list \<Rightarrow> nat \<Rightarrow> (entry_kind \<times> string) list \<Rightarrow> bool" where
  "lsp_old_matches src i [] = True"
| "lsp_old_matches src i ((k, want) # es) =
     (if k = Rem then (if i < length src then src ! i else []) = want \<and> lsp_old_matches src (Suc i) es
      else lsp_old_matches src i es)"

definition edit_text :: "(entry_kind \<times> string) list \<Rightarrow> string" where
  "edit_text es = concat (map (\<lambda>(_, t). t @ [CHR 0x0A]) (filter (\<lambda>e. \<not> is_rem e) es))"

text \<open>The outer option is \<open>None\<close> when the code panics.\<close>

definition hunk_to_text_edit :: "hunk \<Rightarrow> string \<Rightarrow> text_edit option option" where
  "hunk_to_text_edit h source =
     (case classify (hk_body h) of
        None \<Rightarrow> None
      | Some es0 \<Rightarrow>
          let leading_ctx = of_nat (length (takeWhile is_ctx es0)) :: u32;
              entries = trim_context es0;
              n_rem = length (filter is_rem entries);
              source_lines = split_on (CHR 0x0A) source;
              first = hs_old_line (hk_spec h) + leading_ctx;
              start_line_0 = (if first = 0 then 0 else first - 1);
              start_pos = line_start_position start_line_0 source_lines
          in if n_rem = 0 \<or> hs_old_len (hk_spec h) = 0
             then Some (Some \<lparr>te_start = start_pos, te_end = start_pos, te_new_text = edit_text entries\<rparr>)
             else let end_line_0 = start_line_0 + of_nat n_rem
                  in if length source_lines + 1 < unat end_line_0 then Some None
                     else if \<not> lsp_old_matches source_lines (unat start_line_0) entries then Some None
                     else Some (Some \<lparr>te_start = start_pos, te_end = line_start_position end_line_0 source_lines,
                                      te_new_text = edit_text entries\<rparr>))"

fun push_edits :: "hunk list \<Rightarrow> string \<Rightarrow> text_edit list option" where
  "push_edits [] source = Some []"
| "push_edits (h # hs) source =
     (case hunk_to_text_edit h source of
        None \<Rightarrow> None
      | Some e \<Rightarrow> map_option ((@) (case e of None \<Rightarrow> [] | Some x \<Rightarrow> [x])) (push_edits hs source))"

definition unified_diff_to_text_edits :: "string \<Rightarrow> string \<Rightarrow> text_edit list option" where
  "unified_diff_to_text_edits diff source = push_edits (parse_hunk_lines (split_on (CHR 0x0A) diff)) source"

text \<open>What a client does with an edit: the text between the two positions is replaced.\<close>

definition apply_text_edit :: "text_edit \<Rightarrow> string \<Rightarrow> string" where
  "apply_text_edit e source =
     (let li = LineIndex_new source;
          a = position_to_offset li source (pos_line (te_start e)) (pos_character (te_start e));
          b = position_to_offset li source (pos_line (te_end e)) (pos_character (te_end e))
      in take (unat a) source @ te_new_text e @ drop (unat b) source)"

section \<open>Lines and their offsets\<close>

definition lines_text :: "string list \<Rightarrow> string" where
  "lines_text ls = concat (map (\<lambda>l. l @ [CHR 0x0A]) ls)"

lemma lines_text_simps [simp]:
  "lines_text [] = []" "lines_text (l # ls) = l @ CHR 0x0A # lines_text ls" "lines_text (xs @ ys) = lines_text xs @ lines_text ys"
  by (simp_all add: lines_text_def)

lemma length_lines_text [simp]: "length (lines_text ls) = lines_size ls"
  by (induction ls) (simp_all add: lines_size_def)

lemma str_join_lines: "ys \<noteq> [] \<Longrightarrow> str_join [CHR 0x0A] (xs @ ys) = lines_text xs @ str_join [CHR 0x0A] ys"
proof (induction xs)
  case (Cons x xs)
  then show ?case by (cases "xs @ ys") auto
qed simp

text \<open>A source is the lines before line \<open>k\<close> and the rest.\<close>

lemma source_at_line:
  assumes "k < length (split_on (CHR 0x0A) src)"
  shows "take (lines_size (take k (split_on (CHR 0x0A) src))) src = lines_text (take k (split_on (CHR 0x0A) src))"
    "drop (lines_size (take k (split_on (CHR 0x0A) src))) src = str_join [CHR 0x0A] (drop k (split_on (CHR 0x0A) src))"
proof -
  let ?L = "split_on (CHR 0x0A) src"
  have "src = lines_text (take k ?L) @ str_join [CHR 0x0A] (drop k ?L)"
    using str_join_lines [of "drop k ?L" "take k ?L"] assms by (simp add: str_join_split)
  then show "take (lines_size (take k ?L)) src = lines_text (take k ?L)" "drop (lines_size (take k ?L)) src = str_join [CHR 0x0A] (drop k ?L)"
    by (metis append_eq_conv_conj length_lines_text)+
qed

lemma newline_offsets:
  "map (\<lambda>(i, _). i + 1) (filter (\<lambda>(_, b). b = CHR 0x0A) (enumerate n s)) =
     map (\<lambda>k. n + lines_size (take (Suc k) (split_on (CHR 0x0A) s))) [0..<length (split_on (CHR 0x0A) s) - 1]"
proof (induction s arbitrary: n)
  case (Cons x xs)
  obtain y ys where L: "split_on (CHR 0x0A) xs = y # ys" by (cases "split_on (CHR 0x0A) xs") auto
  have shift: "map f [0..<Suc m] = f 0 # map (\<lambda>k. f (Suc k)) [0..<m]" for f :: "nat \<Rightarrow> nat" and m
    by (simp add: upt_conv_Cons map_Suc_upt [symmetric] comp_def del: upt_Suc)
  show ?case
  proof (cases "x = CHR 0x0A")
    case True
    with Cons.IH [of "Suc n"] L show ?thesis by (simp add: shift lines_size_def del: upt_Suc)
  next
    case False
    with Cons.IH [of "Suc n"] L show ?thesis by (auto simp: lines_size_def)
  qed
qed simp

lemma line_starts:
  "li_line_starts (LineIndex_new src) =
     map (\<lambda>k. of_nat (lines_size (take k (split_on (CHR 0x0A) src)))) [0..<length (split_on (CHR 0x0A) src)]"
proof -
  let ?L = "split_on (CHR 0x0A) src"
  obtain m where m: "length ?L = Suc m" by (cases ?L) auto
  have conv: "map (\<lambda>(i, _). of_nat (i + 1) :: u32) xs = map of_nat (map (\<lambda>(i, _). i + 1) xs)" for xs :: "(nat \<times> char) list"
    by (induction xs) auto
  have "li_line_starts (LineIndex_new src) = 0 # map (\<lambda>k. of_nat (lines_size (take (Suc k) ?L))) [0..<m]"
    unfolding LineIndex_new_def conv newline_offsets by (simp add: m comp_def del: of_nat_Suc of_nat_add)
  also have "\<dots> = map (\<lambda>k. of_nat (lines_size (take k ?L))) [0..<Suc m]"
    by (simp add: upt_conv_Cons map_Suc_upt [symmetric] comp_def lines_size_def del: upt_Suc)
  finally show ?thesis by (simp add: m)
qed

lemma lines_size_le: "k < length (split_on (CHR 0x0A) src) \<Longrightarrow> lines_size (take k (split_on (CHR 0x0A) src)) \<le> length src"
  using arg_cong [OF source_at_line(1), of k src length] by simp

lemma str_join_head: "ls \<noteq> [] \<Longrightarrow> str_join [CHR 0x0A] ls = hd ls @ (if tl ls = [] then [] else CHR 0x0A # str_join [CHR 0x0A] (tl ls))"
  by (cases ls rule: list.exhaust) (auto simp: neq_Nil_conv)

section \<open>Code units\<close>

definition units :: "string list \<Rightarrow> nat" where
  "units cs = sum_list (map len_utf16 cs)"

lemma units_simps [simp]: "units [] = 0" "units (c # cs) = len_utf16 c + units cs"
  by (simp_all add: units_def)

lemma len_utf16_pos: "0 < len_utf16 c" "len_utf16 c \<le> 2"
  by (simp_all add: len_utf16_def)

lemma concat_str_chars [simp]: "concat (str_chars s) = s"
  by (induction s rule: str_chars.induct) auto

lemma units_str_chars: "units (str_chars s) \<le> 2 * length s"
proof (induction s rule: str_chars.induct)
  case (2 b bs)
  have "length (dropWhile is_cont bs) \<le> length bs" by (rule length_dropWhile_le)
  with 2 len_utf16_pos(2) [of "b # takeWhile is_cont bs"] show ?case by simp
qed simp

lemma str_chars_append: "s = [] \<or> \<not> is_cont (hd s) \<Longrightarrow> str_chars (p @ s) = str_chars p @ str_chars s"
proof (induction p rule: str_chars.induct)
  case (2 b bs)
  have "takeWhile is_cont (bs @ s) = takeWhile is_cont bs \<and> dropWhile is_cont (bs @ s) = dropWhile is_cont bs @ s"
    using "2.prems" by (induction bs) (cases s; auto)+
  then show ?case using 2 by simp
qed simp

lemma utf16_len_units: "utf16_len s = of_nat (units (str_chars s))"
proof -
  have "sum_list (map (\<lambda>c. of_nat (len_utf16 c) :: u32) cs) = of_nat (units cs)" for cs by (induction cs) auto
  then show ?thesis by (simp add: utf16_len_def)
qed

text \<open>The loop stops exactly after the characters whose code units were asked for.\<close>

lemma consume_exact:
  "n + units (xs @ ys) < 4294967296 \<Longrightarrow> b + length (concat (xs @ ys)) < 4294967296 \<Longrightarrow>
   consume (of_nat (n + units xs)) (of_nat n) (of_nat b) (xs @ ys) = of_nat (b + length (concat xs))"
proof (induction xs arbitrary: n b)
  case Nil
  show ?case by (cases ys) auto
next
  case (Cons c xs)
  have u: "units (xs @ ys) = units xs + units ys" by (simp add: units_def)
  have "\<not> (of_nat (n + units (c # xs)) :: u32) \<le> of_nat n"
    using Cons.prems(1) len_utf16_pos(1) [of c] unat_of_nat_u32 [of n] unat_of_nat_u32 [of "n + units (c # xs)"] u
    by (simp add: word_le_nat_alt del: of_nat_add)
  with Cons.IH [of "n + len_utf16 c" "b + length c"] Cons.prems show ?case
    by (simp add: ac_simps)
qed

section \<open>Positions of lines\<close>

text \<open>Sources for which the counters of the index do not overflow.\<close>

definition indexable :: "string \<Rightarrow> bool" where
  "indexable src \<longleftrightarrow> 2 * length src + 2 < 2 ^ 32"

lemma length_split_on: "length (split_on c s) \<le> length s + 1"
  by (induction s) (auto split: list.splits)

lemma line_slice:
  assumes "indexable src" "k < length (split_on (CHR 0x0A) src)" "k' = of_nat k"
  shows "position_to_offset (LineIndex_new src) src k' ch =
    min (of_nat (lines_size (take k (split_on (CHR 0x0A) src))) + consume ch 0 0 (str_chars (split_on (CHR 0x0A) src ! k)))
      (of_nat (length src))"
proof -
  let ?L = "split_on (CHR 0x0A) src" and ?s = "li_line_starts (LineIndex_new src)"
  let ?a = "lines_size (take k ?L)"
  have k: "unat k' = k"
    using assms length_split_on [of "CHR 0x0A" src] by (simp add: indexable_def unat_of_nat_u32)
  have st: "unat (?s ! j) = lines_size (take j ?L)" if "j < length ?L" for j
    using that lines_size_le [OF that] assms(1) by (simp add: line_starts indexable_def unat_of_nat_u32)
  have len: "length ?s = length ?L" by (simp add: line_starts)
  define nx where "nx = (if k + 1 < length ?s then unat (?s ! (k + 1)) else length src)"
  have rest: "drop ?a src = ?L ! k @ (if k + 1 = length ?L then [] else CHR 0x0A # str_join [CHR 0x0A] (drop (Suc k) ?L))"
    using source_at_line(2) [OF assms(2)] str_join_head [of "drop k ?L"] assms(2)
    by (simp add: hd_drop_conv_nth tl_drop drop_Suc split: if_splits)
  have free: "CHR 0x0A \<notin> set (?L ! k)" using split_on_pieces [OF nth_mem [OF assms(2)]] .
  have "strip_newline (take (nx - ?a) (drop ?a src)) = ?L ! k"
  proof (cases "k + 1 < length ?L")
    case True
    then have "nx - ?a = length (?L ! k) + 1" using st [of "k + 1"] by (simp add: nx_def len lines_size_take_Suc)
    with True rest show ?thesis by (simp add: strip_newline_def butlast_append)
  next
    case False
    with assms(2) rest have r: "drop ?a src = ?L ! k" by simp
    have "take (nx - ?a) (drop ?a src) = drop ?a src" using False by (simp add: nx_def len)
    then have "take (nx - ?a) (drop ?a src) = ?L ! k" unfolding r .
    with free show ?thesis by (auto simp: strip_newline_def dest: last_in_set)
  qed
  moreover have "min (unat k') (length ?s - 1) = k" using k assms(2) by (simp add: len)
  moreover have "li_len (LineIndex_new src) = of_nat (length src)" by (simp add: LineIndex_new_def)
  ultimately show ?thesis unfolding position_to_offset_def Let_def by (simp only: nx_def [symmetric] st [OF assms(2)])
qed

lemma start_of_line:
  assumes "indexable src" "k < length (split_on (CHR 0x0A) src)" "k' = of_nat k"
  shows "unat (position_to_offset (LineIndex_new src) src k' 0) = lines_size (take k (split_on (CHR 0x0A) src))"
proof -
  have "consume 0 0 0 cs = 0" for cs by (cases cs) auto
  then show ?thesis
    using lines_size_le [OF assms(2)] assms(1)
    by (simp add: line_slice [OF assms] indexable_def min_def word_le_nat_alt unat_of_nat_u32)
qed

lemma position_in_line:
  assumes "indexable src" "k < length (split_on (CHR 0x0A) src)" "k' = of_nat k"
    and line: "split_on (CHR 0x0A) src ! k = p @ r" "r = [] \<or> \<not> is_cont (hd r)"
  shows "unat (position_to_offset (LineIndex_new src) src k' (utf16_len p)) = lines_size (take k (split_on (CHR 0x0A) src)) + length p"
proof -
  let ?L = "split_on (CHR 0x0A) src"
  let ?a = "lines_size (take k ?L)"
  have "length (str_join [CHR 0x0A] (drop k ?L)) \<ge> length (p @ r)"
    using str_join_head [of "drop k ?L"] assms(2) line(1) by (simp add: hd_drop_conv_nth)
  then have le: "?a + length (p @ r) \<le> length src"
    using source_at_line [OF assms(2)] lines_size_le [OF assms(2)] by (metis add.commute le_diff_conv2 length_drop)
  have "consume (of_nat (0 + units (str_chars p))) (of_nat 0) (of_nat 0) (str_chars p @ str_chars r) =
      of_nat (0 + length (concat (str_chars p)))"
    by (rule consume_exact) (use assms(1) le units_str_chars [of "p @ r"] str_chars_append [OF line(2), of p] in \<open>simp_all add: indexable_def\<close>)
  then show ?thesis
    using le assms(1)
    by (simp add: line_slice [OF assms(1-3)] line(1) str_chars_append [OF line(2)] utf16_len_units indexable_def
        min_def word_le_nat_alt unat_of_nat_u32 flip: of_nat_add)
qed

lemma end_of_source:
  assumes "indexable src" "length (split_on (CHR 0x0A) src) \<le> unat i"
  defines "q \<equiv> line_start_position i (split_on (CHR 0x0A) src)"
  shows "unat (position_to_offset (LineIndex_new src) src (pos_line q) (pos_character q)) = length src"
proof -
  let ?L = "split_on (CHR 0x0A) src"
  obtain k where k: "length ?L = Suc k" by (cases ?L) auto
  have "Suc k < 4294967296" using k length_split_on [of "CHR 0x0A" src] assms(1) by (simp add: indexable_def)
  then have "(of_nat (Suc k) :: u32) \<noteq> 0" using unat_of_nat_u32 [of "Suc k"] by (metis nat.distinct(1) unsigned_0)
  then have q: "pos_line q = of_nat k" "pos_character q = utf16_len (?L ! k @ [])"
    using assms(2) k by (simp_all add: q_def line_start_position_def last_conv_nth)
  have "unat (position_to_offset (LineIndex_new src) src (of_nat k) (utf16_len (?L ! k))) = lines_size (take k ?L) + length (?L ! k)"
    by (rule position_in_line [OF assms(1)]) (use k in auto)
  also have "take k ?L = butlast ?L" using k by (simp add: butlast_conv_take)
  also have "?L ! k = last ?L" using k by (simp add: last_conv_nth)
  finally show ?thesis using q lines_size_split [of "CHR 0x0A" src] k by (simp add: last_conv_nth)
qed

section \<open>Offsets and positions\<close>

lemma search_starts:
  fixes f :: "nat \<Rightarrow> nat"
  assumes mono: "\<And>i j. i < j \<Longrightarrow> j < m \<Longrightarrow> f i < f j" and bound: "\<And>i. i < m \<Longrightarrow> f i < 4294967296"
    and k: "k < m" "f k \<le> off" "off < 4294967296" "k + 1 < m \<Longrightarrow> off < f (k + 1)"
  shows "(case binary_search (map (\<lambda>i. of_nat (f i)) [0..<m]) (of_nat off) of Inr i \<Rightarrow> i | Inl i \<Rightarrow> i - 1) = k"
proof -
  have eq: "(of_nat (f i) :: u32) = of_nat off \<longleftrightarrow> f i = off" "(of_nat (f i) :: u32) < of_nat off \<longleftrightarrow> f i < off" if "i < m" for i
    using bound [OF that] k(3) by (simp_all add: word_unat_eq_iff word_less_nat_alt unat_of_nat_u32)
  have below: "f i < f k" if "i < k" for i using mono that k(1) by simp
  have above: "off < f i" if "k < i" "i < m" for i
    using that k(4) mono [of "k + 1" i] by (cases "i = k + 1") auto
  have up: "[0..<m] = [0..<k] @ k # [Suc k..<m]" using k(1) upt_add_eq_append [of 0 k "m - k"] by (simp add: upt_conv_Cons)
  show ?thesis
  proof (cases "f k = off")
    case True
    have ne: "(of_nat (f i) :: u32) \<noteq> of_nat off" if "i < k" for i
      using eq(1) [of i] below [OF that] True that k(1) by simp
    have "takeWhile (\<lambda>y. y \<noteq> of_nat off) (map (\<lambda>i. of_nat (f i) :: u32) [0..<m]) = map (\<lambda>i. of_nat (f i)) [0..<k]"
      unfolding up map_append list.map by (subst takeWhile_append2) (use ne True in auto)
    moreover have "(of_nat off :: u32) \<in> (\<lambda>i. of_nat (f i)) ` {0..<m}" using True k(1) by auto
    ultimately show ?thesis by (simp add: binary_search_def)
  next
    case False
    have "f i \<noteq> off" if "i < m" for i
      using that False below [of i] above [of i] k(2) by (cases i k rule: linorder_cases) auto
    then have "(of_nat off :: u32) \<notin> (\<lambda>i. of_nat (f i)) ` {0..<m}" using eq(1) by fastforce
    moreover have "filter (\<lambda>y. y < of_nat off) (map (\<lambda>i. of_nat (f i) :: u32) [0..<m]) = map (\<lambda>i. of_nat (f i)) [0..<Suc k]"
    proof -
      have "f i < off" if "i < Suc k" for i using that below [of i] k(2) False by (cases "i = k") auto
      then have "filter (\<lambda>i. f i < off) [0..<m] = [0..<k] @ [k]"
        unfolding up filter_append using above by (auto simp: filter_empty_conv intro!: filter_True)
          (metis less_or_eq_imp_le linorder_not_less Suc_le_eq)
      moreover have "filter (\<lambda>y. y < of_nat off) (map (\<lambda>i. of_nat (f i) :: u32) [0..<m]) = map (\<lambda>i. of_nat (f i)) (filter (\<lambda>i. f i < off) [0..<m])"
        unfolding filter_map comp_def by (rule arg_cong [where f = "map _"], rule filter_cong) (use eq(2) in auto)
      ultimately show ?thesis by simp
    qed
    ultimately show ?thesis by (simp add: binary_search_def del: upt_Suc)
  qed
qed

text \<open>An offset is inside one line: the part of it before, and the part after.\<close>

lemma offset_in_line:
  assumes "off \<le> length src"
  obtains k q r where "k < length (split_on (CHR 0x0A) src)" "split_on (CHR 0x0A) src ! k = q @ r"
    "off = lines_size (take k (split_on (CHR 0x0A) src)) + length q" "r \<noteq> [] \<Longrightarrow> off < length src \<and> src ! off = hd r"
proof -
  let ?P = "split_on (CHR 0x0A) (take off src)" and ?S = "split_on (CHR 0x0A) (drop off src)"
  obtain B q where P: "?P = B @ [q]" by (cases ?P rule: rev_cases) auto
  have L: "split_on (CHR 0x0A) src = B @ (q @ hd ?S) # tl ?S"
    using split_on_append [of "CHR 0x0A" "take off src" "drop off src"] by (simp add: P)
  have "off = lines_size B + length q"
    using lines_size_split [of "CHR 0x0A" "take off src"] assms by (simp add: P)
  moreover have "off < length src \<and> src ! off = hd (hd ?S)" if "hd ?S \<noteq> []"
  proof -
    have "drop off src = hd ?S @ (if tl ?S = [] then [] else CHR 0x0A # str_join [CHR 0x0A] (tl ?S))"
      using str_join_head [of ?S] by (simp add: str_join_split)
    with that have "drop off src \<noteq> []" "hd (drop off src) = hd (hd ?S)" by (metis append_is_Nil_conv, metis hd_append2)
    then show ?thesis by (metis drop_eq_Nil hd_drop_conv_nth linorder_not_le)
  qed
  ultimately show ?thesis by (intro that [of "length B" q "hd ?S"]) (simp_all add: L)
qed

text \<open>
  C24. Positions round trip. For a source below two gigabytes, converting the byte offset of a character,
  or the end of the source, to an editor position in lines and UTF-16 code units, and back, gives the
  same offset.
\<close>

theorem position_roundtrip:
  assumes "indexable src" "off \<le> length src" "off = length src \<or> \<not> is_cont (src ! off)"
    and "li = LineIndex_new src" "(line, ch) = offset_to_position li src (of_nat off)"
  shows "position_to_offset li src line ch = of_nat off"
proof -
  let ?L = "split_on (CHR 0x0A) src"
  obtain k q r where k: "k < length ?L" "?L ! k = q @ r" and off: "off = lines_size (take k ?L) + length q"
    and r: "r \<noteq> [] \<Longrightarrow> off < length src \<and> src ! off = hd r"
    using offset_in_line [OF assms(2)] by metis
  let ?a = "lines_size (take k ?L)"
  have b: "off < 4294967296" "length src < 4294967296" using assms(1,2) by (simp_all add: indexable_def)
  have mn: "min (of_nat off :: u32) (of_nat (length src)) = of_nat off" "unat (of_nat off :: u32) = off"
    using b assms(2) by (simp_all add: min_def word_le_nat_alt unat_of_nat_u32)
  have srch: "(case binary_search (li_line_starts li) (of_nat off) of Inr i \<Rightarrow> i | Inl i \<Rightarrow> i - 1) = k"
    unfolding assms(4) line_starts
  proof (rule search_starts)
    fix i j assume "i < j" "j < length ?L"
    then show "lines_size (take i ?L) < lines_size (take j ?L)"
      using lines_size_take_Suc [of i ?L] lines_size_take_mono [of "Suc i" j ?L] by simp
  next
    show "off < lines_size (take (k + 1) ?L)" if "k + 1 < length ?L"
      using lines_size_take_Suc [OF k(1)] k(2) off by simp
  qed (use k(1) off b lines_size_le [of _ src] in \<open>auto intro: le_less_trans\<close>)
  have "drop ?a src = q @ r @ (if tl (drop k ?L) = [] then [] else CHR 0x0A # str_join [CHR 0x0A] (tl (drop k ?L)))"
    using source_at_line(2) [OF k(1)] str_join_head [of "drop k ?L"] k by (simp add: hd_drop_conv_nth)
  then have slice: "take (off - ?a) (drop ?a src) = q" by (simp add: off)
  have st: "unat (li_line_starts li ! k) = ?a"
    using k(1) b(2) lines_size_le [OF k(1)] by (simp add: assms(4) line_starts unat_of_nat_u32)
  have "line = of_nat k" "ch = utf16_len q"
    using assms(5) assms(2,3) unfolding offset_to_position_def Let_def
    by (auto simp: assms(4) LineIndex_new_def [THEN arg_cong, of li_len] mn srch [unfolded assms(4)] st [unfolded assms(4)] slice)
  moreover have "unat (position_to_offset li src (of_nat k) (utf16_len q)) = off"
    using position_in_line [OF assms(1) k(1) refl k(2)] r assms(3) off by (cases "r = []") (auto simp: assms(4))
  ultimately have "unat (position_to_offset li src line ch) = off" by simp
  with mn(2) show ?thesis by (simp add: word_unat_eq_iff)
qed

theorem position_roundtrip_witness:
  "position_to_offset (LineIndex_new (''ab'' @ [CHR 0x0A, CHR 0xC3, CHR 0xA9] @ ''c'')) (''ab'' @ [CHR 0x0A, CHR 0xC3, CHR 0xA9] @ ''c'') 1 1 = 5"
proof -
  let ?s = "''ab'' @ [CHR 0x0A, CHR 0xC3, CHR 0xA9] @ ''c''"
  have "(1, 1) = offset_to_position (LineIndex_new ?s) ?s (of_nat 5)"
    by (simp add: offset_to_position_def LineIndex_new_def binary_search_def utf16_len_def len_utf16_def is_cont_def Let_def min_def)
  from position_roundtrip [OF _ _ _ refl this] show ?thesis by (simp add: indexable_def is_cont_def)
qed

section \<open>Edits against the applier\<close>

lemma lsp_old_matches_eq:
  "i + length (filter is_rem es) \<le> length src \<Longrightarrow> lsp_old_matches src i es = old_matches src i es"
proof (induction es arbitrary: i)
  case (Cons e es)
  obtain k w where e: "e = (k, w)" by (cases e)
  with Cons show ?case by (cases "k = Rem") (auto simp: is_rem_def)
qed simp

lemma edit_of_hunk:
  assumes ok: "change_ok (n, old, new)" and L: "L = split_on (CHR 0x0A) src" and i: "i = unat n - 1"
    and fits: "i + length old \<le> length L" "length L < 4294967296"
  shows "\<exists>a b. unat a = i \<and> unat b = i + length old \<and> hunk_to_text_edit (hunk_of (n, old, new)) src =
    Some (if take (length old) (drop i L) = old
          then Some \<lparr>te_start = line_start_position a L, te_end = line_start_position b L, te_new_text = lines_text new\<rparr>
          else None)"
proof -
  let ?es = "map (Pair Rem) old @ map (Pair Add) new"
  define a where "a = (if n = 0 then 0 else n - 1)"
  have ua: "unat a = i"
    using i by (auto simp: a_def unat_minus_one)
  have ub: "unat (a + of_nat (length old)) = i + length old"
    using ua fits unat_of_nat_u32 [of "length old"] by (simp add: unat_word_ariths)
  note tr = no_context(1) [of old new]
  have lead: "n + of_nat (length (takeWhile is_ctx ?es)) = n" by (simp add: no_context(2) del: map_append takeWhile_append)
  have old0: "(of_nat (length old) :: u32) = 0 \<longleftrightarrow> old = []"
    using ok unat_of_nat_u32 [of "length old"] by (auto simp: change_ok_def)
  have text_eq: "edit_text ?es = lines_text new" by (simp add: edit_text_def lines_text_def filter_map comp_def is_rem_def)
  have m: "lsp_old_matches L i ?es \<longleftrightarrow> take (length old) (drop i L) = old"
    using lsp_old_matches_eq [of i ?es L] old_matches_eq [of i ?es L] fits(1) by (simp add: filter_map comp_def is_rem_def)
  have cls: "classify (hk_body (hunk_of (n, old, new))) = Some ?es"
    and spec: "hs_old_line (hk_spec (hunk_of (n, old, new))) = n" "hs_old_len (hk_spec (hunk_of (n, old, new))) = of_nat (length old)"
    using classify_hunk_lines [OF ok] by (simp_all add: hunk_of_def)
  have nrem: "length (filter is_rem ?es) = length old" by (simp add: filter_map comp_def is_rem_def)
  have eq: "hunk_to_text_edit (hunk_of (n, old, new)) src =
      (if old = [] then Some (Some \<lparr>te_start = line_start_position a L, te_end = line_start_position a L, te_new_text = lines_text new\<rparr>)
       else if length L + 1 < unat (a + of_nat (length old)) then Some None
       else if \<not> lsp_old_matches L (unat a) ?es then Some None
       else Some (Some \<lparr>te_start = line_start_position a L, te_end = line_start_position (a + of_nat (length old)) L, te_new_text = lines_text new\<rparr>))"
    unfolding hunk_to_text_edit_def cls option.case Let_def tr lead nrem text_eq spec
      L [symmetric] a_def [symmetric] old0 by simp
  show ?thesis
    by (rule exI [of _ a], rule exI [of _ "a + of_nat (length old)"]) (use ua ub m fits(1) in \<open>auto simp: eq\<close>)
qed

lemma edits_of_fix:
  assumes "CHR 0x0A \<notin> set file" "change_ok (n, old, new)"
  shows "unified_diff_to_text_edits (unified_diff file n old new) src =
    map_option (\<lambda>e. case e of None \<Rightarrow> [] | Some x \<Rightarrow> [x]) (hunk_to_text_edit (hunk_of (n, old, new)) src)"
proof -
  have "parse_hunk_lines (split_on (CHR 0x0A) (unified_diff file n old new)) = [hunk_of (n, old, new)]"
    using parse_diff_text [of "file" "[(n, old, new)]"] assms by (simp add: unified_diff_text parse_hunks_def)
  then show ?thesis by (simp add: unified_diff_to_text_edits_def split: option.splits)
qed

text \<open>Where a replacement that leaves the last line alone puts its text.\<close>

lemma edit_inside:
  assumes "indexable src" "L = split_on (CHR 0x0A) src" "unat a = i" "unat b = i + length old" "i + length old < length L"
  shows "apply_text_edit \<lparr>te_start = line_start_position a L, te_end = line_start_position b L, te_new_text = lines_text new\<rparr> src =
    str_join [CHR 0x0A] (take i L @ new @ drop (i + length old) L)"
proof -
  have ab: "a = of_nat i" "b = of_nat (i + length old)" using assms(3,4) by (simp_all only: of_nat_unat_u32)
  have "unat (position_to_offset (LineIndex_new src) src a 0) = lines_size (take i L)"
      "unat (position_to_offset (LineIndex_new src) src b 0) = lines_size (take (i + length old) L)"
    unfolding assms(2) by (rule start_of_line [OF assms(1)]; use ab assms(2,5) in simp)+
  moreover have "line_start_position a L = \<lparr>pos_line = a, pos_character = 0\<rparr>" "line_start_position b L = \<lparr>pos_line = b, pos_character = 0\<rparr>"
    using assms(3-5) by (simp_all add: line_start_position_def)
  ultimately show ?thesis
    using source_at_line(1) [of i src] source_at_line(2) [of "i + length old" src] assms(2,5)
      str_join_lines [of "drop (i + length old) L" "take i L @ new"]
    by (simp add: apply_text_edit_def Let_def)
qed

text \<open>
  C22. The editor and the command line agree. The text edit that the language server derives from a fix
  of the builder has the same effect as applying the fix to the source string, and there is no edit
  exactly when the applier refuses, as long as the replaced lines, or the line an insertion goes
  before, come before the last line of the source.
\<close>

theorem lsp_agrees:
  assumes "indexable src" "CHR 0x0A \<notin> set file" "change_ok (n, old, new)"
    and "unat n - 1 + length old < length (split_on (CHR 0x0A) src)"
  shows "\<exists>es. unified_diff_to_text_edits (unified_diff file n old new) src = Some es \<and> length es \<le> 1 \<and>
    apply_unified_diff src (unified_diff file n old new) = (case es of e # _ \<Rightarrow> Applied (apply_text_edit e src) | [] \<Rightarrow> Refused)"
proof -
  let ?L = "split_on (CHR 0x0A) src" and ?i = "unat n - 1"
  have "length ?L < 4294967296" using length_split_on [of "CHR 0x0A" src] assms(1) by (simp add: indexable_def)
  with edit_of_hunk [OF assms(3) refl refl, of src] assms(4) obtain a b where ab: "unat a = ?i" "unat b = ?i + length old"
    and h: "hunk_to_text_edit (hunk_of (n, old, new)) src =
      Some (if take (length old) (drop ?i ?L) = old
            then Some \<lparr>te_start = line_start_position a ?L, te_end = line_start_position b ?L, te_new_text = lines_text new\<rparr>
            else None)" by (auto simp: less_imp_le)
  note e = edit_inside [OF assms(1) refl ab assms(4), of new]
  show ?thesis
    using patch.exact [OF assms(2,3), of src] assms(4)
    by (auto simp: edits_of_fix [OF assms(2,3)] h e spliced_def old_present_def put_lines_def Let_def)
qed

theorem lsp_agrees_witness:
  "\<exists>es. unified_diff_to_text_edits (unified_diff ''f'' 1 [''a''] [''b'']) (''a'' @ [CHR 0x0A]) = Some es \<and> length es \<le> 1 \<and>
    apply_unified_diff (''a'' @ [CHR 0x0A]) (unified_diff ''f'' 1 [''a''] [''b'']) =
      (case es of e # _ \<Rightarrow> Applied (apply_text_edit e (''a'' @ [CHR 0x0A])) | [] \<Rightarrow> Refused)"
  by (rule lsp_agrees) (simp_all add: indexable_def change_ok_def line_ok_def cut_after_first_def)

text \<open>
  C23. On the last line they differ. When the replaced block ends with the last line of the source, the
  editor's text ends each line with a newline and the applier's does not, so that the edit adds a
  newline the applier does not add. When lines are inserted after the last line, the applier puts
  them on lines of their own, while the edit glues the first of them to the last line.
\<close>

theorem lsp_last_line:
  assumes "indexable src" "CHR 0x0A \<notin> set file" "change_ok (n, old, new)"
    and L: "L = split_on (CHR 0x0A) src" and i: "i = unat n - 1"
    and last: "i + length old = length L" "take (length old) (drop i L) = old"
  shows "apply_unified_diff src (unified_diff file n old new) = Applied (str_join [CHR 0x0A] (take i L @ new)) \<and>
    (\<exists>e. unified_diff_to_text_edits (unified_diff file n old new) src = Some [e] \<and>
      apply_text_edit e src = (if old = [] then src @ lines_text new else lines_text (take i L @ new)))"
proof -
  have "length L < 4294967296" using length_split_on [of "CHR 0x0A" src] assms(1) by (simp add: indexable_def L)
  with edit_of_hunk [OF assms(3) L i] last obtain a b where ab: "unat a = i" "unat b = i + length old"
    and h: "hunk_to_text_edit (hunk_of (n, old, new)) src =
      Some (Some \<lparr>te_start = line_start_position a L, te_end = line_start_position b L, te_new_text = lines_text new\<rparr>)" by auto
  let ?off = "\<lambda>q. unat (position_to_offset (LineIndex_new src) src (pos_line q) (pos_character q))"
  have b: "?off (line_start_position b L) = length src"
    unfolding L by (rule end_of_source [OF assms(1)]) (use ab last L in simp)
  have a: "?off (line_start_position a L) = (if old = [] then length src else lines_size (take i L))"
  proof (cases "old = []")
    case True
    then show ?thesis using end_of_source [OF assms(1), of a] ab last L by simp
  next
    case False
    then have lt: "i < length L" using last(1) by (cases old) auto
    have "a = of_nat i" using ab(1) by (rule of_nat_unat_u32)
    then show ?thesis using False lt ab(1) start_of_line [OF assms(1), of i a] by (simp add: line_start_position_def L)
  qed
  have "take (lines_size (take i L)) src = lines_text (take i L)" if "old \<noteq> []"
    using source_at_line(1) [of i src] last(1) that by (cases old) (auto simp: L)
  with a b have "apply_text_edit \<lparr>te_start = line_start_position a L, te_end = line_start_position b L, te_new_text = lines_text new\<rparr> src =
      (if old = [] then src @ lines_text new else lines_text (take i L @ new))"
    by (simp add: apply_text_edit_def Let_def)
  moreover have "unat n - Suc 0 = i" "i \<le> length L" using i last(1) by simp_all
  then have "spliced src (n, old, new) = Applied (str_join [CHR 0x0A] (take i L @ new))"
    using last by (simp add: spliced_def old_present_def put_lines_def Let_def flip: L)
  ultimately show ?thesis using patch.exact [OF assms(2,3), of src] by (simp add: edits_of_fix [OF assms(2,3)] h)
qed

theorem lsp_last_line_witness:
  "apply_unified_diff ''a'' (unified_diff ''f'' 2 [] [''b'']) = Applied (''a'' @ [CHR 0x0A] @ ''b'') \<and>
   (\<exists>e. unified_diff_to_text_edits (unified_diff ''f'' 2 [] [''b'']) ''a'' = Some [e] \<and> apply_text_edit e ''a'' = ''ab'' @ [CHR 0x0A])"
  using lsp_last_line [of "''a''" "''f''" 2 "[]" "[''b'']", OF _ _ _ refl refl]
  by (simp add: indexable_def change_ok_def line_ok_def cut_after_first_def)

end
