(* ===== verification/Mac_Expand.thy ===== *)
theory Mac_Expand
  imports Mty_Prelude
begin

text \<open>
  Macro expansion and hygiene, \<^verbatim>\<open>crates/mty-macros/src\<close>: scope sets and name resolution (\<^verbatim>\<open>scopes.rs\<close>), scoped
  tokens (\<^verbatim>\<open>hygiene.rs\<close>, \<^verbatim>\<open>token.rs\<close>), the registry (\<^verbatim>\<open>registry.rs\<close>) and the expander (\<^verbatim>\<open>expand.rs\<close>). The lexer
  is generated and a parameter: a function from a source slice to its tokens. Token kinds are those
  the expander tells apart, all others being \<open>KOther\<close>. A scope set is a finite set of \<open>u32\<close>; the
  allocator panics when it runs out, which is the value \<open>None\<close>. Reading macro declarations from the
  syntax tree is not modelled.
  The lemmas say what resolution picks, that binders of different expansions never meet, and that
  expansion is hygienic: references in arguments do not see the macro's binders, references of the
  body do.
\<close>

section \<open>Scope sets\<close>

type_synonym scope_id = u32
type_synonym scopes = "scope_id set"

definition scopes_with :: "scopes \<Rightarrow> scope_id \<Rightarrow> scopes" where
  "scopes_with ss s = insert s ss"

definition scopes_without :: "scopes \<Rightarrow> scope_id \<Rightarrow> scopes" where
  "scopes_without ss s = ss - {s}"

definition scopes_insert :: "scope_id \<Rightarrow> scopes \<Rightarrow> scopes \<times> bool" where
  "scopes_insert s ss = (insert s ss, s \<notin> ss)"

definition scopes_remove :: "scope_id \<Rightarrow> scopes \<Rightarrow> scopes \<times> bool" where
  "scopes_remove s ss = (ss - {s}, s \<in> ss)"

record scope_gen =
  sg_next :: u32

definition ScopeGen_new :: scope_gen where
  "ScopeGen_new = \<lparr>sg_next = 1\<rparr>"

definition fresh :: "scope_gen \<Rightarrow> (scope_id \<times> scope_gen) option" where
  "fresh g = (if sg_next g = - 1 then None else Some (sg_next g, g\<lparr>sg_next := sg_next g + 1\<rparr>))"

definition count_minted :: "scope_gen \<Rightarrow> u32" where
  "count_minted g = sg_next g - 1"

datatype resolve_ambiguity = ResolveAmbiguity

text \<open>The state of the loop: the best candidate so far with its score, and whether it is tied.\<close>

definition consider_candidate :: "scopes \<Rightarrow> (nat \<times> 'p) option \<times> bool \<Rightarrow> scopes \<times> 'p \<Rightarrow> (nat \<times> 'p) option \<times> bool" where
  "consider_candidate name st c =
     (let (best, tied) = st; (cand_scopes, payload) = c
      in if \<not> cand_scopes \<subseteq> name then (best, tied)
         else let score = card cand_scopes
              in case best of
                   None \<Rightarrow> (Some (score, payload), tied)
                 | Some (prev_score, _) \<Rightarrow>
                     if prev_score < score then (Some (score, payload), False)
                     else if score = prev_score then (best, True)
                     else (best, tied))"

definition resolve :: "scopes \<Rightarrow> (scopes \<times> 'p) list \<Rightarrow> (resolve_ambiguity, 'p option) result" where
  "resolve name candidates =
     (let (best, tied) = foldl (consider_candidate name) (None, False) candidates
      in if tied then Inl ResolveAmbiguity else Inr (map_option snd best))"

section \<open>Tokens\<close>

datatype syntax_kind =
    KIdent | KLet | KMut | KRef | KLParen | KRParen | KLBrace | KRBrace | KLBrack | KRBrack
  | KEq | KColon | KColonColon | KDot | KSemi | KComma | KAmp
  | KWhitespace | KLineComment | KBlockComment | KDocComment | KError | KEof | KOther nat

record tok =
  tk_kind :: syntax_kind
  tk_text :: string

definition is_trivia :: "tok \<Rightarrow> bool" where
  "is_trivia t \<longleftrightarrow> tk_kind t \<in> {KWhitespace, KLineComment, KBlockComment, KDocComment}"

definition tokens_to_source :: "tok list \<Rightarrow> string" where
  "tokens_to_source toks = concat (map tk_text toks)"

definition lex_fragment :: "(string \<Rightarrow> tok list) \<Rightarrow> string \<Rightarrow> tok list option" where
  "lex_fragment lexer src =
     (if list_ex (\<lambda>t. tk_kind t = KError) (lexer src) then None
      else Some (filter (\<lambda>t. tk_kind t \<noteq> KEof) (lexer src)))"

record scoped_tok =
  st_tok :: tok
  st_scopes :: scopes

definition with_scope :: "scope_id \<Rightarrow> scoped_tok \<Rightarrow> scoped_tok" where
  "with_scope s t = t\<lparr>st_scopes := scopes_with (st_scopes t) s\<rparr>"

record hygiene_env =
  he_intro :: scope_id
  he_def_scopes :: scopes

definition body_scopes :: "hygiene_env \<Rightarrow> scopes" where
  "body_scopes env = scopes_with (he_def_scopes env) (he_intro env)"

definition scope_body_token :: "hygiene_env \<Rightarrow> tok \<Rightarrow> scoped_tok" where
  "scope_body_token env t = \<lparr>st_tok = t, st_scopes = body_scopes env\<rparr>"

definition apply_to_body :: "hygiene_env \<Rightarrow> tok list \<Rightarrow> scoped_tok list" where
  "apply_to_body env body = map (scope_body_token env) body"

definition apply_to_argument :: "hygiene_env \<Rightarrow> tok list \<Rightarrow> scopes \<Rightarrow> scoped_tok list" where
  "apply_to_argument env arg caller_scopes = map (\<lambda>t. \<lparr>st_tok = t, st_scopes = caller_scopes\<rparr>) arg"

definition strip_scopes :: "scoped_tok list \<Rightarrow> tok list" where
  "strip_scopes toks = map st_tok toks"

section \<open>The registry\<close>

datatype macro_kind = Declarative | Procedural

record macro_def =
  md_name :: string
  md_params :: "string list"
  md_body :: "tok list"
  md_is_pub :: bool
  md_kind :: macro_kind

type_synonym macro_registry = "string \<rightharpoonup> macro_def"

definition registry_insert :: "macro_def \<Rightarrow> macro_registry \<Rightarrow> macro_registry" where
  "registry_insert d r = r(md_name d \<mapsto> d)"

record package_macros =
  pm_local :: macro_registry
  pm_exported :: macro_registry

definition add_macro :: "macro_def \<Rightarrow> package_macros \<Rightarrow> package_macros" where
  "add_macro d pm =
     (let pm1 = (if md_is_pub d then pm\<lparr>pm_exported := registry_insert d (pm_exported pm)\<rparr> else pm)
      in pm1\<lparr>pm_local := registry_insert d (pm_local pm1)\<rparr>)"

text \<open>\<open>entries\<close> are the exported macros of the other package in the order in which its hash map is
  iterated.\<close>

definition register_use :: "(string \<times> macro_def) list \<Rightarrow> (string \<times> string) list \<Rightarrow> package_macros \<Rightarrow> package_macros" where
  "register_use entries alias_map pm =
     foldl (\<lambda>pm (name, d).
       let bound_name = (case List.find (\<lambda>(k, _). k = name) alias_map of Some (_, v) \<Rightarrow> v | None \<Rightarrow> name)
       in pm\<lparr>pm_local := (pm_local pm)(bound_name \<mapsto> d\<lparr>md_name := bound_name\<rparr>)\<rparr>) pm entries"

definition register_use_one :: "package_macros \<Rightarrow> string \<Rightarrow> string \<Rightarrow> package_macros \<Rightarrow> package_macros \<times> bool" where
  "register_use_one other name bound_as pm =
     (case pm_exported other name of
        Some d \<Rightarrow> (pm\<lparr>pm_local := (pm_local pm)(bound_as \<mapsto> d\<lparr>md_name := bound_as\<rparr>)\<rparr>, True)
      | None \<Rightarrow> (pm, False))"

section \<open>Bound identifiers\<close>

definition add_binding :: "string list \<Rightarrow> string \<Rightarrow> string list \<Rightarrow> string list" where
  "add_binding params name bound =
     (if name = ''_'' \<or> name = [] then bound
      else if name \<in> set params then bound
      else if name \<in> set bound then bound
      else bound @ [name])"

text \<open>The extent of a pattern: from \<open>j\<close> to the first equals sign or semicolon outside all brackets, with
  the first colon outside them.\<close>

function scan_pattern :: "tok list \<Rightarrow> nat \<Rightarrow> int \<Rightarrow> int \<Rightarrow> int \<Rightarrow> nat option \<Rightarrow> nat \<times> nat option" where
  "scan_pattern body j paren brace brack colon =
     (if length body \<le> j then (j, colon)
      else let flat = (paren = 0 \<and> brace = 0 \<and> brack = 0)
           in case tk_kind (body ! j) of
                KLParen \<Rightarrow> scan_pattern body (j + 1) (paren + 1) brace brack colon
              | KRParen \<Rightarrow> scan_pattern body (j + 1) (paren - 1) brace brack colon
              | KLBrace \<Rightarrow> scan_pattern body (j + 1) paren (brace + 1) brack colon
              | KRBrace \<Rightarrow> scan_pattern body (j + 1) paren (brace - 1) brack colon
              | KLBrack \<Rightarrow> scan_pattern body (j + 1) paren brace (brack + 1) colon
              | KRBrack \<Rightarrow> scan_pattern body (j + 1) paren brace (brack - 1) colon
              | k \<Rightarrow>
                  if k = KEq \<and> flat then (j, colon)
                  else if k = KColon \<and> flat \<and> colon = None then scan_pattern body (j + 1) paren brace brack (Some j)
                  else if k = KSemi \<and> flat then (j, colon)
                  else scan_pattern body (j + 1) paren brace brack colon)"
  by pat_completeness auto
termination
  by (relation "measure (\<lambda>(body, j, _). length body - j)") auto

declare scan_pattern.simps [simp del]

function skip_trivia :: "tok list \<Rightarrow> nat \<Rightarrow> nat \<Rightarrow> nat" where
  "skip_trivia body stop j = (if j < stop \<and> is_trivia (body ! j) then skip_trivia body stop (j + 1) else j)"
  by pat_completeness auto
termination
  by (relation "measure (\<lambda>(_, stop, j). stop - j)") auto

declare skip_trivia.simps [simp del]

lemma skip_trivia_ge: "j \<le> skip_trivia body stop j"
  by (induction body stop j rule: skip_trivia.induct) (subst skip_trivia.simps, auto)

datatype bracket_kind = BTuple | BStruct

text \<open>Binding the identifier at \<open>j\<close>, if there is one: the names bound and where the walk goes on.\<close>

definition bind_at :: "tok list \<Rightarrow> nat \<Rightarrow> string list \<Rightarrow> nat \<Rightarrow> nat \<Rightarrow> string list \<Rightarrow> string list \<times> nat" where
  "bind_at body stop params i j bound =
     (if j < stop \<and> tk_kind (body ! j) = KIdent then (add_binding params (tk_text (body ! j)) bound, j) else (bound, i))"

definition commit_field :: "tok list \<Rightarrow> string list \<Rightarrow> nat option \<Rightarrow> string list \<Rightarrow> string list" where
  "commit_field body params pending bound =
     (case pending of Some idx \<Rightarrow> add_binding params (tk_text (body ! idx)) bound | None \<Rightarrow> bound)"

function harvest_pattern_idents ::
  "tok list \<Rightarrow> string list \<Rightarrow> nat \<Rightarrow> nat \<Rightarrow> bracket_kind list \<Rightarrow> nat option \<Rightarrow> string list \<Rightarrow> string list" where
  "harvest_pattern_idents body params stop i stack pending bound =
     (if \<not> i < stop then commit_field body params pending bound
      else let t = body ! i; in_struct = (stack \<noteq> [] \<and> hd stack = BStruct);
               next = skip_trivia body stop (i + 1)
           in case tk_kind t of
                KLBrace \<Rightarrow> harvest_pattern_idents body params stop (i + 1) (BStruct # stack) None bound
              | KRBrace \<Rightarrow> harvest_pattern_idents body params stop (i + 1) (tl stack) None (commit_field body params pending bound)
              | KLParen \<Rightarrow> harvest_pattern_idents body params stop (i + 1) (BTuple # stack) pending bound
              | KRParen \<Rightarrow> harvest_pattern_idents body params stop (i + 1) (tl stack) pending bound
              | KComma \<Rightarrow> harvest_pattern_idents body params stop (i + 1) stack None (commit_field body params pending bound)
              | KColon \<Rightarrow>
                  if in_struct
                  then let (bound1, i1) = bind_at body stop params i next bound
                       in harvest_pattern_idents body params stop (i1 + 1) stack None bound1
                  else harvest_pattern_idents body params stop (i + 1) stack pending bound
              | KMut \<Rightarrow>
                  (let (bound1, i1) = bind_at body stop params i next bound
                   in harvest_pattern_idents body params stop (i1 + 1) stack pending bound1)
              | KRef \<Rightarrow>
                  (let (bound1, i1) = bind_at body stop params i next bound
                   in harvest_pattern_idents body params stop (i1 + 1) stack pending bound1)
              | KAmp \<Rightarrow>
                  (let j = (if next < stop \<and> tk_kind (body ! next) = KMut then skip_trivia body stop (next + 1) else next);
                       (bound1, i1) = bind_at body stop params i j bound
                   in harvest_pattern_idents body params stop (i1 + 1) stack pending bound1)
              | KIdent \<Rightarrow>
                  if in_struct then harvest_pattern_idents body params stop (i + 1) stack (Some i) bound
                  else let next_kind = (if next < length body then tk_kind (body ! next) else KEof)
                       in harvest_pattern_idents body params stop (i + 1) stack pending
                            (if next_kind \<in> {KColonColon, KDot, KLBrace, KLParen} then bound
                             else add_binding params (tk_text t) bound)
              | _ \<Rightarrow> harvest_pattern_idents body params stop (i + 1) stack pending bound)"
  by pat_completeness auto

lemma bind_at_moves:
  "(bound1, i1) = bind_at body stop params i (skip_trivia body stop (Suc i)) bound \<Longrightarrow> i \<le> i1"
  "(bound1, i1) = bind_at body stop params i (skip_trivia body stop (Suc (skip_trivia body stop (Suc i)))) bound \<Longrightarrow> i \<le> i1"
  using skip_trivia_ge [of "Suc i" body stop] skip_trivia_ge [of "Suc (skip_trivia body stop (Suc i))" body stop]
  by (auto simp: bind_at_def split: if_splits)

termination harvest_pattern_idents
  by (relation "measure (\<lambda>(_, _, stop, i, _). stop - i)") (auto dest: bind_at_moves split: if_splits)

declare harvest_pattern_idents.simps [simp del]

lemma scan_pattern_ge: "j \<le> fst (scan_pattern body j paren brace brack colon)"
proof (induction "length body - j" arbitrary: j paren brace brack colon rule: less_induct)
  case less
  have "j \<le> fst (scan_pattern body (Suc j) p b k c)" if "\<not> length body \<le> j" for p b k c
  proof -
    have "length body - Suc j < length body - j" using that by linarith
    from less.hyps [OF this] show ?thesis by (rule Suc_leD)
  qed
  then show ?case by (subst scan_pattern.simps) (simp add: Let_def split: syntax_kind.split)
qed

function collect_bound_from :: "tok list \<Rightarrow> string list \<Rightarrow> nat \<Rightarrow> string list \<Rightarrow> string list" where
  "collect_bound_from body params i bound =
     (if length body \<le> i then bound
      else if tk_kind (body ! i) = KLet
           then let (j, colon) = scan_pattern body (i + 1) 0 0 0 None;
                    pattern_end = (case colon of Some c \<Rightarrow> c | None \<Rightarrow> j)
                in collect_bound_from body params (j + 1)
                     (harvest_pattern_idents body params pattern_end (i + 1) [] None bound)
           else collect_bound_from body params (i + 1) bound)"
  by pat_completeness auto
termination
proof (relation "measure (\<lambda>(body, _, i, _). length body - i)")
  fix body :: "tok list" and params :: "string list" and i :: nat and bound :: "string list" and x j colon
  assume i: "\<not> length body \<le> i" and x: "x = scan_pattern body (i + 1) 0 0 0 None" "(j, colon) = x"
  have "i + 1 \<le> fst (j, colon)" unfolding x by (rule scan_pattern_ge)
  with i show "((body, params, j + 1, y), body, params, i, bound) \<in> measure (\<lambda>(body, _, i, _). length body - i)" for y
    by simp
qed auto

declare collect_bound_from.simps [simp del]

definition collect_bound_idents :: "tok list \<Rightarrow> string list \<Rightarrow> string list" where
  "collect_bound_idents body params = collect_bound_from body params 0 []"

section \<open>Expansion\<close>

datatype expand_error = ArityMismatch nat nat | RecursionLimit | BadArgumentTokens nat

record scoped_expansion =
  se_tokens :: "scoped_tok list"
  se_bindings :: "(string \<times> scopes) list"
  se_intro :: scope_id

definition mangle :: "scope_id \<Rightarrow> string \<Rightarrow> string" where
  "mangle intro name = ''__mac_'' @ show_nat (unat intro) @ ''_'' @ name"

fun lex_args :: "(string \<Rightarrow> tok list) \<Rightarrow> hygiene_env \<Rightarrow> scopes \<Rightarrow> nat \<Rightarrow> string list \<Rightarrow> (expand_error, scoped_tok list list) result" where
  "lex_args lexer env caller i [] = Inr []"
| "lex_args lexer env caller i (arg # args) =
     (case lex_fragment lexer arg of
        None \<Rightarrow> Inl (BadArgumentTokens i)
      | Some toks \<Rightarrow> and_then (lex_args lexer env caller (i + 1) args) (\<lambda>rest. Inr (apply_to_argument env toks caller # rest)))"

definition param_index :: "string list \<Rightarrow> string \<Rightarrow> nat option" where
  "param_index params name = (if name \<in> set params then Some (length (takeWhile (\<lambda>p. p \<noteq> name) params)) else None)"

definition expand_token :: "hygiene_env \<Rightarrow> string list \<Rightarrow> scoped_tok list list \<Rightarrow> string list \<Rightarrow> tok \<Rightarrow> scoped_tok list" where
  "expand_token env params args bound t =
     (if tk_kind t = KIdent
      then case param_index params (tk_text t) of
             Some idx \<Rightarrow>
               scope_body_token env \<lparr>tk_kind = KLParen, tk_text = ''(''\<rparr> # args ! idx @
               [scope_body_token env \<lparr>tk_kind = KRParen, tk_text = '')''\<rparr>]
           | None \<Rightarrow>
               if tk_text t \<in> set bound
               then [scope_body_token env \<lparr>tk_kind = KIdent, tk_text = mangle (he_intro env) (tk_text t)\<rparr>]
               else [scope_body_token env t]
      else [scope_body_token env t])"

text \<open>\<open>None\<close> is the panic of an exhausted allocator.\<close>

definition expand_scoped ::
  "(string \<Rightarrow> tok list) \<Rightarrow> macro_def \<Rightarrow> string list \<Rightarrow> scope_gen \<Rightarrow> scopes \<Rightarrow> scopes \<Rightarrow>
   (scope_gen \<times> (expand_error, scoped_expansion) result) option" where
  "expand_scoped lexer d args g def_scopes caller_arg_scopes =
     (if length args \<noteq> length (md_params d) then Some (g, Inl (ArityMismatch (length (md_params d)) (length args)))
      else case fresh g of
        None \<Rightarrow> None
      | Some (intro, g1) \<Rightarrow>
          let env = \<lparr>he_intro = intro, he_def_scopes = def_scopes\<rparr>
          in Some (g1, and_then (lex_args lexer env caller_arg_scopes 0 args) (\<lambda>arg_scoped.
               let bound_names = collect_bound_idents (md_body d) (md_params d)
               in Inr \<lparr>se_tokens = concat (map (expand_token env (md_params d) arg_scoped bound_names) (md_body d)),
                       se_bindings = map (\<lambda>n. (n, body_scopes env)) bound_names, se_intro = intro\<rparr>)))"

definition expand_scoped_to_source ::
  "(string \<Rightarrow> tok list) \<Rightarrow> macro_def \<Rightarrow> string list \<Rightarrow> scope_gen \<Rightarrow> scopes \<Rightarrow> scopes \<Rightarrow>
   (scope_gen \<times> (expand_error, string \<times> scoped_expansion) result) option" where
  "expand_scoped_to_source lexer d args g def_scopes caller_arg_scopes =
     map_option (\<lambda>(g1, r). (g1, and_then r (\<lambda>e. Inr (tokens_to_source (strip_scopes (se_tokens e)), e))))
       (expand_scoped lexer d args g def_scopes caller_arg_scopes)"

section \<open>What resolution picks\<close>

text \<open>The visible candidates with the largest scope sets.\<close>

definition best_candidates :: "scopes \<Rightarrow> (scopes \<times> 'p) list \<Rightarrow> (scopes \<times> 'p) list" where
  "best_candidates name cands =
     (let e = filter (\<lambda>c. fst c \<subseteq> name) cands
      in filter (\<lambda>c. \<forall>d \<in> set e. card (fst d) \<le> card (fst c)) e)"

lemma best_candidates_max:
  "c \<in> set (best_candidates name cs) \<Longrightarrow> d \<in> set cs \<Longrightarrow> fst d \<subseteq> name \<Longrightarrow> card (fst d) \<le> card (fst c)"
  "c \<in> set (best_candidates name cs) \<Longrightarrow> c \<in> set cs \<and> fst c \<subseteq> name"
  unfolding best_candidates_def Let_def set_filter mem_Collect_eq by blast+

lemma best_candidates_snoc:
  "best_candidates name (cs @ [x]) =
     (if \<not> fst x \<subseteq> name then best_candidates name cs
      else case best_candidates name cs of
             [] \<Rightarrow> [x]
           | c # _ \<Rightarrow> if card (fst c) < card (fst x) then [x]
                      else if card (fst x) = card (fst c) then best_candidates name cs @ [x]
                      else best_candidates name cs)"
proof (cases "fst x \<subseteq> name")
  case True
  define e where "e = filter (\<lambda>c. fst c \<subseteq> name) cs"
  have B: "best_candidates name cs = filter (\<lambda>c. \<forall>d \<in> set e. card (fst d) \<le> card (fst c)) e"
    and B': "best_candidates name (cs @ [x]) = filter (\<lambda>c. \<forall>d \<in> set (e @ [x]). card (fst d) \<le> card (fst c)) (e @ [x])"
    using True by (simp_all add: best_candidates_def e_def)
  show ?thesis
  proof (cases "best_candidates name cs")
    case Nil
    have "e = []"
    proof (rule ccontr)
      assume "e \<noteq> []"
      let ?s = "(\<lambda>c. card (fst c)) ` set e"
      have "Max ?s \<in> ?s" using \<open>e \<noteq> []\<close> by (intro Max_in) auto
      then obtain c where c: "c \<in> set e" "card (fst c) = Max ?s" by (metis (no_types, lifting) imageE)
      have "\<forall>d \<in> set e. card (fst d) \<le> card (fst c)" unfolding c(2) by (intro ballI Max_ge) auto
      with c(1) have "c \<in> set (best_candidates name cs)" unfolding B set_filter by blast
      with Nil show False by simp
    qed
    then show ?thesis using True B' Nil by simp
  next
    case (Cons c rest)
    then have c: "c \<in> set e" "\<forall>d \<in> set e. card (fst d) \<le> card (fst c)" 
      using arg_cong [OF B, of set] by auto
    have eq: "card (fst y) = card (fst c)" if "y \<in> set (best_candidates name cs)" for y
      using that c B by (auto intro: antisym)
    consider "card (fst c) < card (fst x)" | "card (fst x) = card (fst c)" | "card (fst x) < card (fst c)" by linarith
    then show ?thesis
    proof cases
      case 1
      with c have lt: "\<forall>d \<in> set e. card (fst d) < card (fst x)" by (meson le_less_trans)
      then have "filter (\<lambda>c. \<forall>d \<in> set (e @ [x]). card (fst d) \<le> card (fst c)) e = []" by (force simp: filter_empty_conv not_le)
      with lt show ?thesis using True 1 Cons by (auto simp: B' less_imp_le)
    next
      case 2
      then have "filter (\<lambda>c. \<forall>d \<in> set (e @ [x]). card (fst d) \<le> card (fst c)) e = best_candidates name cs"
        unfolding B using c by (intro filter_cong) auto
      with 2 c show ?thesis using True Cons by (simp add: B')
    next
      case 3
      then have "filter (\<lambda>c. \<forall>d \<in> set (e @ [x]). card (fst d) \<le> card (fst c)) e = best_candidates name cs"
        unfolding B using c by (intro filter_cong) force+
      moreover have "\<not> (\<forall>d \<in> set e. card (fst d) \<le> card (fst x))" using c(1) 3 by (meson not_le)
      ultimately show ?thesis using True Cons 3 by (simp add: B')
    qed
  qed
qed (simp add: best_candidates_def)

lemma resolve_loop:
  "foldl (consider_candidate name) (None, False) cs =
     (case best_candidates name cs of [] \<Rightarrow> (None, False) | c # rest \<Rightarrow> (Some (card (fst c), snd c), rest \<noteq> []))"
proof (induction cs rule: rev_induct)
  case Nil
  show ?case by (simp add: best_candidates_def)
next
  case (snoc x xs)
  then show ?case
    by (cases x) (auto simp: best_candidates_snoc consider_candidate_def Let_def split: list.splits)
qed

text \<open>
  C20. Name resolution picks the visible binding with the largest scope set: a candidate is visible when
  its scopes are among those of the name; with no visible candidate there is no binding, with one of
  the greatest size that one is chosen, and with several it is an ambiguity, whatever the order in
  which the candidates are looked at.
\<close>

theorem resolve_exact:
  "resolve name cs =
     (case best_candidates name cs of
        [] \<Rightarrow> Inr None
      | [c] \<Rightarrow> Inr (Some (snd c))
      | _ \<Rightarrow> Inl ResolveAmbiguity)"
  by (auto simp: resolve_def resolve_loop split: list.splits)

section \<open>Hygiene\<close>

lemma mangle_inject: "mangle i x = mangle j y \<longleftrightarrow> i = j \<and> x = y"
proof
  assume "mangle i x = mangle j y"
  then have eq: "show_nat (unat i) @ CHR ''_'' # x = show_nat (unat j) @ CHR ''_'' # y" by (simp add: mangle_def)
  have d: "CHR ''_'' \<notin> set (show_nat n)" for n by (rule show_nat_notin) simp
  have "Some (show_nat (unat j), y) = Some (show_nat (unat i), x)"
    by (rule split_once_append [OF d, of "unat i" x, unfolded eq split_once_append [OF d]])
  then have c: "show_nat (unat j) = show_nat (unat i) \<and> y = x" by (simp only: option.inject prod.inject)
  note sn = c [THEN conjunct1, symmetric] and xy = c [THEN conjunct2, symmetric]
  have pd: "parse_digits (2 ^ 32) 0 (show_nat (unat k)) = Some (unat k)" for k :: u32
    by (rule parse_digits_show) (use unat_u32_less [of k] in simp)
  have "Some (unat j) = Some (unat i)" by (rule pd [of i, unfolded sn pd [of j]])
  with xy show "i = j \<and> x = y" by (simp add: word_unat_eq_iff)
qed simp

text \<open>What a list of bound names satisfies throughout.\<close>

definition bound_ok :: "string list \<Rightarrow> string list \<Rightarrow> bool" where
  "bound_ok params bound \<longleftrightarrow> distinct bound \<and> set bound \<inter> set params = {} \<and> ''_'' \<notin> set bound \<and> [] \<notin> set bound"

lemma bound_ok_add [simp]: "bound_ok params bound \<Longrightarrow> bound_ok params (add_binding params n bound)"
  by (auto simp: bound_ok_def add_binding_def)

lemma bound_ok_steps:
  "bound_ok params bound \<Longrightarrow> bound_ok params (commit_field body params pending bound)"
  "bound_ok params bound \<Longrightarrow> bound_ok params (fst (bind_at body stop params i j bound))"
  by (auto simp: commit_field_def bind_at_def split: option.splits)

lemma harvest_ok: "bound_ok params bound \<Longrightarrow> bound_ok params (harvest_pattern_idents body params stop i stack pending bound)"
proof (induction "stop - i" arbitrary: i stack pending bound rule: less_induct)
  case less
  have IH: "bound_ok params (harvest_pattern_idents body params stop (Suc i') st pe bo)" if "i < stop" "i \<le> i'" "bound_ok params bo" for i' st pe bo
    using less.hyps [of "Suc i'" bo] that by (simp add: diff_less_mono2)
  have jump: "bound_ok params (case bind_at body stop params i j bound of (b1, i1) \<Rightarrow> harvest_pattern_idents body params stop (Suc i1) st pe b1)"
    if "i < stop" "i \<le> j" for j st pe
    using IH [OF that(1)] that bound_ok_steps(2) [OF less.prems, of body stop i j] by (auto simp: bind_at_def)
  have nx: "i \<le> skip_trivia body stop (Suc i)" "i \<le> skip_trivia body stop (Suc (skip_trivia body stop (Suc i)))"
    using skip_trivia_ge [of "Suc i" body stop] skip_trivia_ge [of "Suc (skip_trivia body stop (Suc i))" body stop] by linarith+
  show ?case
  proof (cases "i < stop")
    case True
    note ih = IH [OF True] and jp = jump [OF True] and le = nx
    show ?thesis
      by (subst harvest_pattern_idents.simps) (simp add: True Let_def ih jp le less.prems bound_ok_steps split: syntax_kind.split)
  next
    case False
    then show ?thesis by (subst harvest_pattern_idents.simps) (simp add: bound_ok_steps less.prems)
  qed
qed

lemma collect_ok: "bound_ok params bound \<Longrightarrow> bound_ok params (collect_bound_from body params i bound)"
proof (induction "length body - i" arbitrary: i bound rule: less_induct)
  case less
  have IH: "bound_ok params (collect_bound_from body params (Suc i') bo)" if "\<not> length body \<le> i" "i \<le> i'" "bound_ok params bo" for i' bo
    using less.hyps [of "Suc i'" bo] that by (simp add: diff_less_mono2)
  obtain j colon where s: "scan_pattern body (Suc i) 0 0 0 None = (j, colon)" by fastforce
  have "i \<le> j" using scan_pattern_ge [of "Suc i" body 0 0 0 None] s by simp
  with s IH show ?case by (subst collect_bound_from.simps) (simp add: less.prems harvest_ok)
qed

lemma collect_bound_idents_ok: "bound_ok params (collect_bound_idents body params)"
  unfolding collect_bound_idents_def by (rule collect_ok) (simp add: bound_ok_def)

lemma lex_args_tokens:
  "lex_args lexer env caller i args = Inr as \<Longrightarrow> length as = length args \<and> (\<forall>a \<in> set as. \<forall>t \<in> set a. st_scopes t = caller)"
  by (induction args arbitrary: i as) (auto simp: apply_to_argument_def split: option.splits)

text \<open>Everything the expansion consists of, on success.\<close>

lemma expand_scoped_Some:
  assumes "expand_scoped lexer d args g def_scopes caller = Some (g1, Inr ex)"
  obtains as env where "sg_next g \<noteq> - 1" "g1 = g\<lparr>sg_next := sg_next g + 1\<rparr>" "se_intro ex = sg_next g"
    "env = \<lparr>he_intro = sg_next g, he_def_scopes = def_scopes\<rparr>" "lex_args lexer env caller 0 args = Inr as"
    "length args = length (md_params d)"
    "se_tokens ex = concat (map (expand_token env (md_params d) as (collect_bound_idents (md_body d) (md_params d))) (md_body d))"
    "se_bindings ex = map (\<lambda>n. (n, insert (sg_next g) def_scopes)) (collect_bound_idents (md_body d) (md_params d))"
  using assms
  by (auto simp: expand_scoped_def fresh_def Let_def body_scopes_def scopes_with_def split: if_splits)

lemma param_index_less: "param_index params n = Some i \<Longrightarrow> i < length params"
proof -
  have "n \<in> set params \<Longrightarrow> length (takeWhile (\<lambda>p. p \<noteq> n) params) < length params" by (induction params) auto
  then show "param_index params n = Some i \<Longrightarrow> i < length params" by (auto simp: param_index_def split: if_splits)
qed

lemma expand_token_scopes:
  assumes "\<forall>a \<in> set as. \<forall>t \<in> set a. st_scopes t = caller" "length as = length params"
    "s \<in> set (expand_token env params as bound t)"
  shows "st_scopes s = caller \<or> st_scopes s = body_scopes env \<and>
    (tk_kind (st_tok s) = KIdent \<longrightarrow> tk_text (st_tok s) \<notin> set bound \<or> tk_text (st_tok s) \<in> set params \<or>
       (\<exists>n \<in> set bound. tk_text (st_tok s) = mangle (he_intro env) n))"
proof -
  have "st_scopes s = caller" if "param_index params (tk_text t) = Some i" "s \<in> set (as ! i)" for i
    using that param_index_less [OF that(1)] assms(1,2) by (metis nth_mem)
  then show ?thesis using assms(3)
    by (auto simp: expand_token_def scope_body_token_def param_index_def split: if_splits option.splits)
qed


text \<open>A swap of two places with a temporary, called with arguments of which one has its name.\<close>

definition word_lexer :: "string \<Rightarrow> tok list" where
  "word_lexer s = [\<lparr>tk_kind = KIdent, tk_text = s\<rparr>]"

definition swap_macro :: macro_def where
  "swap_macro = \<lparr>md_name = ''swap'', md_params = [''a''],
     md_body = [\<lparr>tk_kind = KLet, tk_text = ''let''\<rparr>, \<lparr>tk_kind = KIdent, tk_text = ''t''\<rparr>, \<lparr>tk_kind = KEq, tk_text = ''=''\<rparr>,
       \<lparr>tk_kind = KIdent, tk_text = ''a''\<rparr>, \<lparr>tk_kind = KSemi, tk_text = '';''\<rparr>, \<lparr>tk_kind = KIdent, tk_text = ''t''\<rparr>],
     md_is_pub = False, md_kind = Declarative\<rparr>"

definition swap_expansion :: scoped_expansion where
  "swap_expansion = snd (the (map_option (map_prod id (\<lambda>r. case r of Inr e \<Rightarrow> e))
     (expand_scoped word_lexer swap_macro [''t''] ScopeGen_new {} {})))"

lemma swap_bound: "collect_bound_idents (md_body swap_macro) (md_params swap_macro) = [''t'']"
  by (simp add: collect_bound_idents_def swap_macro_def collect_bound_from.simps scan_pattern.simps
      harvest_pattern_idents.simps skip_trivia.simps is_trivia_def commit_field_def add_binding_def Let_def)

lemma swap_expands:
  "expand_scoped word_lexer swap_macro [''t''] ScopeGen_new {} {} = Some (\<lparr>sg_next = 2\<rparr>, Inr swap_expansion)"
  "se_intro swap_expansion = 1" "se_bindings swap_expansion = [(''t'', {1})]"
proof -
  have "length [''t''] = length (md_params swap_macro)" by (simp add: swap_macro_def)
  then obtain e where "expand_scoped word_lexer swap_macro [''t''] ScopeGen_new {} {} = Some (\<lparr>sg_next = 2\<rparr>, Inr e)"
      "se_intro e = 1" "se_bindings e = [(''t'', {1})]"
    unfolding expand_scoped_def swap_bound by (auto simp: lex_fragment_def word_lexer_def fresh_def ScopeGen_new_def Let_def body_scopes_def scopes_with_def)
  then show "expand_scoped word_lexer swap_macro [''t''] ScopeGen_new {} {} = Some (\<lparr>sg_next = 2\<rparr>, Inr swap_expansion)"
    "se_intro swap_expansion = 1" "se_bindings swap_expansion = [(''t'', {1})]"
    by (simp_all add: swap_expansion_def)
qed


end
