(* ===== verification/Borrow_Polonius.thy ===== *)
theory Borrow_Polonius
  imports Hir_Nodes
begin

text \<open>
  The Polonius overlay of the borrow checker, \<^verbatim>\<open>crates/mty-borrow/src/polonius.rs\<close>: a fact store, three
  datalog rules run for at most 32 rounds, and the walker that turns a function body into
  \<open>BorrowAt\<close> and \<open>LoanInvalidated\<close> facts. The fact set is a \<^verbatim>\<open>BTreeSet\<close> in Rust and a list without
  repetitions here (\<open>List.insert\<close>); the only order the code observes is that of its error facts, which
  \<open>Solver_errors\<close> sorts. The live map is keyed by place and a missing entry and an empty vector
  behave alike, so it is a total function. Loan and point counters are natural numbers: they
  grow by at most one per HIR expression.

  The first group of lemmas is about the solver alone: the round bound of 32 is enough, \<open>Subset\<close>
  becomes its transitive closure, and errors are exactly the consequences of rules 2 and 4. The second
  group is about the walker, by an invariant every walk keeps, and says which of these errors a
  function body can produce.
\<close>

section \<open>Facts and solver\<close>

type_synonym loan = nat
type_synonym ppoint = nat

datatype loan_kind = LkShared | LkMut | LkTwoPhaseMut

datatype fact =
    BorrowAt loan ppoint
  | LoanInvalidated loan ppoint
  | Subset loan loan ppoint
  | Conflict loan loan ppoint
  | Error loan ppoint

record loan_info =
  li_kind :: loan_kind
  li_place_root :: string
  li_span :: source_span

record polonius_solver =
  facts :: "fact list"
  loans :: "loan \<rightharpoonup> loan_info"
  next_loan :: nat
  max_point :: nat

definition Solver_new :: polonius_solver where
  "Solver_new = \<lparr>facts = [], loans = Map.empty, next_loan = 0, max_point = 0\<rparr>"

definition fresh_loan :: "loan_info \<Rightarrow> polonius_solver \<Rightarrow> polonius_solver \<times> loan" where
  "fresh_loan info s =
     (s\<lparr>next_loan := next_loan s + 1, loans := (loans s)(next_loan s \<mapsto> info)\<rparr>, next_loan s)"

definition Solver_add :: "fact \<Rightarrow> polonius_solver \<Rightarrow> polonius_solver" where
  "Solver_add f s =
     (let s1 = (case f of
                  BorrowAt _ p \<Rightarrow> s\<lparr>max_point := max (max_point s) p\<rparr>
                | LoanInvalidated _ p \<Rightarrow> s\<lparr>max_point := max (max_point s) p\<rparr>
                | _ \<Rightarrow> s)
      in s1\<lparr>facts := List.insert f (facts s1)\<rparr>)"

fun is_error :: "fact \<Rightarrow> bool" where
  "is_error (Error _ _) = True"
| "is_error _ = False"

definition has_errors :: "polonius_solver \<Rightarrow> bool" where
  "has_errors s = list_ex is_error (facts s)"

fun error_entry :: "(loan \<rightharpoonup> loan_info) \<Rightarrow> fact \<Rightarrow> (loan \<times> ppoint \<times> loan_info) option" where
  "error_entry ls (Error l p) = (case ls l of Some i \<Rightarrow> Some (l, p, i) | None \<Rightarrow> None)"
| "error_entry ls _ = None"

definition Solver_errors :: "polonius_solver \<Rightarrow> (loan \<times> ppoint \<times> loan_info) list" where
  "Solver_errors s =
     sort_key (\<lambda>(l, p, i). l) (sort_key (\<lambda>(l, p, i). p) (List.map_filter (error_entry (loans s)) (facts s)))"

fun loans_conflict :: "loan_kind \<Rightarrow> loan_kind \<Rightarrow> bool" where
  "loans_conflict LkShared LkShared = False"
| "loans_conflict LkTwoPhaseMut LkShared = False"
| "loans_conflict LkShared LkTwoPhaseMut = False"
| "loans_conflict LkMut _ = True"
| "loans_conflict _ LkMut = True"
| "loans_conflict LkTwoPhaseMut LkTwoPhaseMut = True"

definition for_pairs :: "(fact \<Rightarrow> fact \<Rightarrow> fact list) \<Rightarrow> fact list \<Rightarrow> fact list" where
  "for_pairs r snapshot = concat (map (\<lambda>f1. concat (map (\<lambda>f2. r f1 f2) snapshot)) snapshot)"

fun rule1 :: "fact \<Rightarrow> fact \<Rightarrow> fact list" where
  "rule1 (Subset a b p1) (Subset b2 c p2) = (if b = b2 \<and> p1 = p2 then [Subset a c p1] else [])"
| "rule1 _ _ = []"

fun rule2 :: "fact \<Rightarrow> fact \<Rightarrow> fact list" where
  "rule2 (BorrowAt l1 p1) (LoanInvalidated l2 p2) = (if l1 = l2 \<and> p1 \<le> p2 then [Error l1 p2] else [])"
| "rule2 _ _ = []"

definition incompatible :: "(loan \<rightharpoonup> loan_info) \<Rightarrow> loan \<Rightarrow> loan \<Rightarrow> bool" where
  "incompatible ls l1 l2 =
     (case (ls l1, ls l2) of
        (Some i1, Some i2) \<Rightarrow> li_place_root i1 = li_place_root i2 \<and> loans_conflict (li_kind i1) (li_kind i2)
      | _ \<Rightarrow> False)"

fun rule4 :: "(loan \<rightharpoonup> loan_info) \<Rightarrow> fact \<Rightarrow> fact \<Rightarrow> fact list" where
  "rule4 ls (BorrowAt l1 p1) (BorrowAt l2 p2) =
     (if l1 = l2 \<or> p1 \<noteq> p2 then []
      else if incompatible ls l1 l2 then [Conflict l1 l2 p1, Error l1 p1] else [])"
| "rule4 ls _ _ = []"

definition apply_rules :: "polonius_solver \<Rightarrow> polonius_solver" where
  "apply_rules s =
     (let snapshot = facts s;
          new_facts = for_pairs rule1 snapshot @ for_pairs rule2 snapshot @ for_pairs (rule4 (loans s)) snapshot
      in s\<lparr>facts := fold List.insert new_facts (facts s)\<rparr>)"

fun solve_rounds :: "nat \<Rightarrow> polonius_solver \<Rightarrow> polonius_solver" where
  "solve_rounds 0 s = s"
| "solve_rounds (Suc n) s =
     (let s1 = apply_rules s
      in if length (facts s1) = length (facts s) then s1 else solve_rounds n s1)"

definition solve :: "polonius_solver \<Rightarrow> polonius_solver" where
  "solve s = solve_rounds 32 s"

section \<open>The walker\<close>

record walk_state =
  w_point :: nat
  live :: "string \<Rightarrow> loan list"

definition WalkState_default :: walk_state where
  "WalkState_default = \<lparr>w_point = 0, live = (\<lambda>_. [])\<rparr>"

definition WalkState_advance :: "walk_state \<Rightarrow> walk_state \<times> ppoint" where
  "WalkState_advance st = (st\<lparr>w_point := w_point st + 1\<rparr>, w_point st + 1)"

definition intro_borrow :: "string \<Rightarrow> loan \<Rightarrow> walk_state \<Rightarrow> walk_state" where
  "intro_borrow place l st = st\<lparr>live := (live st)(place := live st place @ [l])\<rparr>"

definition invalidate :: "string \<Rightarrow> walk_state \<Rightarrow> walk_state \<times> loan list" where
  "invalidate place st = (st\<lparr>live := (live st)(place := [])\<rparr>, live st place)"

definition live_append :: "(string \<Rightarrow> loan list) \<Rightarrow> (string \<Rightarrow> loan list) \<Rightarrow> (string \<Rightarrow> loan list)" where
  "live_append base other = (\<lambda>k. base k @ other k)"

fun expr_root :: "expr \<Rightarrow> string option" where
  "expr_root e =
     (case e of
        EPath segs \<Rightarrow> if segs \<noteq> [] then Some (str_join ''.'' segs) else None
      | EPathGeneric segs _ \<Rightarrow> if segs \<noteq> [] then Some (str_join ''.'' segs) else None
      | EField r n \<Rightarrow> (case expr_root r of Some b \<Rightarrow> Some (b @ ''.'' @ n) | None \<Rightarrow> None)
      | EUnary _ r \<Rightarrow> expr_root r
      | EIndex r _ \<Rightarrow> expr_root r
      | _ \<Rightarrow> None)"

declare expr_root.simps [simp del]

type_synonym walk = "polonius_solver \<times> walk_state"

definition tick :: "walk \<Rightarrow> walk" where
  "tick w = (fst w, fst (WalkState_advance (snd w)))"

definition walk_borrow :: "bool \<Rightarrow> string option \<Rightarrow> (walk \<Rightarrow> walk) \<Rightarrow> walk \<Rightarrow> walk" where
  "walk_borrow mutable root inner w =
     (let p = snd (WalkState_advance (snd w));
          w1 = inner (tick w)
      in case root of
           None \<Rightarrow> w1
         | Some r \<Rightarrow>
             (let (s2, l) = fresh_loan \<lparr>li_kind = (if mutable then LkMut else LkShared),
                                li_place_root = r, li_span = \<lparr>sp_start = 0, sp_end = 0\<rparr>\<rparr> (fst w1)
              in (Solver_add (BorrowAt l p) s2, intro_borrow r l (snd w1))))"

definition walk_move :: "string option \<Rightarrow> (walk \<Rightarrow> walk) \<Rightarrow> walk \<Rightarrow> walk" where
  "walk_move root inner w =
     (let p = snd (WalkState_advance (snd w));
          w1 = inner (tick w)
      in case root of
           None \<Rightarrow> w1
         | Some r \<Rightarrow>
             (let (st2, killed) = invalidate r (snd w1)
              in (fold (\<lambda>k. Solver_add (LoanInvalidated k p)) killed (fst w1), st2)))"

definition walk_if :: "(walk \<Rightarrow> walk) \<Rightarrow> (walk \<Rightarrow> walk) \<Rightarrow> (walk \<Rightarrow> walk) \<Rightarrow> walk \<Rightarrow> walk" where
  "walk_if cond thn els w =
     (let w1 = cond w;
          snap = live (snd w1);
          w2 = thn w1;
          after_then = live (snd w2);
          w3 = els (fst w2, (snd w2)\<lparr>live := snap\<rparr>)
      in (fst w3, (snd w3)\<lparr>live := live_append (live (snd w3)) after_then\<rparr>))"

definition walk_arm_step ::
  "(string \<Rightarrow> loan list) \<Rightarrow> walk \<times> (string \<Rightarrow> loan list) \<Rightarrow> (walk \<Rightarrow> walk) \<Rightarrow> walk \<times> (string \<Rightarrow> loan list)" where
  "walk_arm_step snap acc arm =
     (let w1 = arm (fst (fst acc), (snd (fst acc))\<lparr>live := snap\<rparr>)
      in ((fst w1, (snd w1)\<lparr>live := (\<lambda>_. [])\<rparr>), live_append (snd acc) (live (snd w1))))"

definition walk_match :: "(walk \<Rightarrow> walk) \<Rightarrow> (walk \<Rightarrow> walk) list \<Rightarrow> walk \<Rightarrow> walk" where
  "walk_match scrutinee arms w =
     (let w1 = scrutinee w;
          (w2, joined) = foldl (walk_arm_step (live (snd w1))) (w1, (\<lambda>_. [])) arms
      in (fst w2, (snd w2)\<lparr>live := joined\<rparr>))"

primrec walk_expr :: "expr \<Rightarrow> walk \<Rightarrow> walk"
  and walk_block :: "block \<Rightarrow> walk \<Rightarrow> walk"
  and walk_stmt :: "stmt \<Rightarrow> walk \<Rightarrow> walk"
  and walk_arg :: "arg \<Rightarrow> walk \<Rightarrow> walk"
  and walk_arm :: "match_arm \<Rightarrow> walk \<Rightarrow> walk" where
  "walk_expr (EBorrow m i) = walk_borrow m (expr_root i) (walk_expr i)"
| "walk_expr (EMove i) = walk_move (expr_root i) (walk_expr i)"
| "walk_expr (EBinary p l r) = walk_expr r \<circ> walk_expr l \<circ> tick"
| "walk_expr (EUnary p r) = walk_expr r \<circ> tick"
| "walk_expr (ECall c as) = seq_all (map walk_arg as) \<circ> walk_expr c \<circ> tick"
| "walk_expr (EMethodCall r m as) = seq_all (map walk_arg as) \<circ> walk_expr r \<circ> tick"
| "walk_expr (EBlock b) = walk_block b \<circ> tick"
| "walk_expr (EIf c t e) =
     walk_if (walk_expr c) (walk_block t) (seq_opt (map_option walk_expr e)) \<circ> tick"
| "walk_expr (ETuple xs) = seq_all (map walk_expr xs) \<circ> tick"
| "walk_expr (EArray xs) = seq_all (map walk_expr xs) \<circ> tick"
| "walk_expr (EMatch c as) = walk_match (walk_expr c) (map walk_arm as) \<circ> tick"
| "walk_expr (ELoop b) = walk_block b \<circ> tick"
| "walk_expr (EWhile c b) = walk_block b \<circ> tick"
| "walk_expr (EFor p i b) = walk_block b \<circ> tick"
| "walk_expr (EWhileLet p c b) = walk_block b \<circ> walk_expr c \<circ> tick"
| "walk_expr (EReturn e) = seq_opt (map_option walk_expr e) \<circ> tick"
| "walk_expr (EBreak e) = seq_opt (map_option walk_expr e) \<circ> tick"
| "walk_expr (ELiteral l) = tick"
| "walk_expr (EPath segs) = tick"
| "walk_expr (EPathGeneric segs gs) = tick"
| "walk_expr (EField r n) = tick"
| "walk_expr (EIndex r i) = tick"
| "walk_expr EContinue = tick"
| "walk_expr (EStruct pth fs) = tick"
| "walk_expr (EMap kvs) = tick"
| "walk_expr (ESend r m as) = tick"
| "walk_expr (EAsk r m as) = tick"
| "walk_expr (EDeadline a b) = tick"
| "walk_expr (EQuestion a) = tick"
| "walk_expr (ESpawn d a) = tick"
| "walk_expr (EDetach a) = tick"
| "walk_expr (EJoin a) = tick"
| "walk_expr (EHtmlTemplate h) = tick"
| "walk_expr (EUnsafe b) = tick"
| "walk_expr (EArena n b) = tick"
| "walk_expr (ETaskScope d b) = tick"
| "walk_expr (EBudget fs b) = tick"
| "walk_expr (ESandbox n cs b) = tick"
| "walk_expr (ECast a t) = tick"
| "walk_expr (ELambda ps r b) = tick"
| "walk_expr (EIfLet p c t e) = tick"
| "walk_expr (ERun a) = tick"
| "walk_expr EError = tick"
| "walk_block (Block ss t) = seq_opt (map_option walk_expr t) \<circ> seq_all (map walk_stmt ss)"
| "walk_stmt (SLet p ty init m) = seq_opt (map_option walk_expr init)"
| "walk_stmt (SExpr e) = walk_expr e"
| "walk_arg (Arg n v) = walk_expr v"
| "walk_arm (Arm p g b) = walk_expr b"

definition collect_facts_from_block :: "polonius_solver \<Rightarrow> block \<Rightarrow> polonius_solver" where
  "collect_facts_from_block s body = fst (walk_block body (s, WalkState_default))"


record diag_label =
  dl_start :: nat
  dl_end :: nat
  dl_message :: string

datatype severity = SevError | SevWarning | SevNote | SevHelp

record diagnostic =
  d_code :: nat
  d_severity :: severity
  d_primary :: diag_label
  d_secondary :: "diag_label list"
  d_notes :: "string list"
  d_helps :: "string list"

definition POLONIUS_BORROW_REJECTED :: nat where
  "POLONIUS_BORROW_REJECTED = 3020"

fun debug_loan_kind :: "loan_kind \<Rightarrow> string" where
  "debug_loan_kind LkShared = ''Shared''"
| "debug_loan_kind LkMut = ''Mut''"
| "debug_loan_kind LkTwoPhaseMut = ''TwoPhaseMut''"

definition make_diag :: "loan_info \<Rightarrow> ppoint \<Rightarrow> diagnostic" where
  "make_diag info p =
     \<lparr>d_code = POLONIUS_BORROW_REJECTED,
      d_severity = SevError,
      d_primary = \<lparr>dl_start = unat (sp_start (li_span info)), dl_end = unat (sp_end (li_span info)),
        dl_message = ''Polonius rejects this borrow of `'' @ li_place_root info
          @ ''`: loan invalidated at point '' @ show_nat p @ '' while still live''\<rparr>,
      d_secondary = [],
      d_notes =
        [''NLL would accept this; the `polonius` feature catches the additional borrow shape (kind = ''
           @ debug_loan_kind (li_kind info) @ '')'',
         ''v0.21 Polonius pass '' @ [CHR 0xE2, CHR 0x80, CHR 0x94] @ '' see `docs/internals/borrowck.md` ''
           @ [CHR 0xC2, CHR 0xA7] @ ''Polonius''],
      d_helps =
        [''introduce a fresh scope around the inner borrow, or sequence the move after every borrow''
           @ [CHR 0x27] @ ''s last use'']\<rparr>"

fun dedup_errors ::
  "(string \<times> nat) set \<Rightarrow> (loan \<times> ppoint \<times> loan_info) list \<Rightarrow> diagnostic list" where
  "dedup_errors seen [] = []"
| "dedup_errors seen ((l, p, i) # es) =
     (if (li_place_root i, p) \<in> seen then dedup_errors seen es
      else make_diag i p # dedup_errors (insert (li_place_root i, p) seen) es)"

definition polonius_fn :: "hir_fn \<Rightarrow> diagnostic list" where
  "polonius_fn f =
     (case fn_body f of
        None \<Rightarrow> []
      | Some body \<Rightarrow>
          (let s = solve (collect_facts_from_block Solver_new body)
           in if has_errors s then dedup_errors {} (Solver_errors s) else []))"

definition run_polonius_pass :: "hir_fn list \<Rightarrow> diagnostic list" where
  "run_polonius_pass fns = concat (map polonius_fn fns)"

section \<open>The solver reaches its fixpoint\<close>

definition sub_at :: "polonius_solver \<Rightarrow> ppoint \<Rightarrow> (loan \<times> loan) set" where
  "sub_at s p = {(a, b). Subset a b p \<in> set (facts s)}"

lemma set_fold_insert [simp]: "set (fold List.insert xs ys) = set xs \<union> set ys"
  by (induction xs arbitrary: ys) auto

lemma length_fold_insert: "length ys \<le> length (fold List.insert xs ys)"
proof (induction xs arbitrary: ys)
  case (Cons x xs)
  have "length ys \<le> length (List.insert x ys)" by (simp add: List.insert_def)
  with Cons [of "List.insert x ys"] show ?case by simp
qed simp

lemma fold_insert_stable: "length (fold List.insert xs ys) = length ys \<Longrightarrow> fold List.insert xs ys = ys"
proof (induction xs arbitrary: ys)
  case (Cons x xs)
  have "length (List.insert x ys) \<le> length ys"
    using length_fold_insert [of "List.insert x ys" xs] Cons.prems by simp
  then have "x \<in> set ys" by (auto simp: List.insert_def split: if_splits)
  with Cons show ?case by simp
qed simp

lemma apply_rules_stable: "length (facts (apply_rules s)) = length (facts s) \<Longrightarrow> apply_rules s = s"
  using fold_insert_stable by (cases s) (auto simp: apply_rules_def Let_def simp del: fold_append)

lemma solve_rounds_eq: "solve_rounds n s = (apply_rules ^^ n) s"
proof (induction n arbitrary: s)
  case (Suc n)
  have stable: "(apply_rules ^^ k) s = s" if "apply_rules s = s" for k
    using that by (induction k) auto
  show ?case
    using Suc apply_rules_stable [of s] stable by (auto simp: Let_def funpow_swap1)
qed simp

lemma loans_apply_rules [simp]: "loans (apply_rules s) = loans s"
  by (simp add: apply_rules_def Let_def)

lemma in_for_pairs: "f \<in> set (for_pairs r fs) \<longleftrightarrow> (\<exists>f1 \<in> set fs. \<exists>f2 \<in> set fs. f \<in> set (r f1 f2))"
  by (auto simp: for_pairs_def)

lemma rule1_pair: "f \<in> set (rule1 f1 f2) \<longleftrightarrow>
    (\<exists>a b c p. f1 = Subset a b p \<and> f2 = Subset b c p \<and> f = Subset a c p)"
  by (cases "(f1, f2)" rule: rule1.cases) auto

lemma rule2_pair: "f \<in> set (rule2 f1 f2) \<longleftrightarrow>
    (\<exists>l p q. f1 = BorrowAt l p \<and> f2 = LoanInvalidated l q \<and> p \<le> q \<and> f = Error l q)"
  by (cases "(f1, f2)" rule: rule2.cases) auto

lemma rule4_pair: "f \<in> set (rule4 ls f1 f2) \<longleftrightarrow>
    (\<exists>l1 l2 p. f1 = BorrowAt l1 p \<and> f2 = BorrowAt l2 p \<and> l1 \<noteq> l2 \<and> incompatible ls l1 l2 \<and>
       (f = Conflict l1 l2 p \<or> f = Error l1 p))"
  by (cases "(ls, f1, f2)" rule: rule4.cases) auto

lemma rule1_iff: "f \<in> set (for_pairs rule1 fs) \<longleftrightarrow>
    (\<exists>a b c p. f = Subset a c p \<and> Subset a b p \<in> set fs \<and> Subset b c p \<in> set fs)"
  unfolding in_for_pairs rule1_pair by blast

lemma rule2_iff: "f \<in> set (for_pairs rule2 fs) \<longleftrightarrow>
    (\<exists>l p q. f = Error l q \<and> BorrowAt l p \<in> set fs \<and> LoanInvalidated l q \<in> set fs \<and> p \<le> q)"
  unfolding in_for_pairs rule2_pair by blast

lemma rule4_iff: "f \<in> set (for_pairs (rule4 ls) fs) \<longleftrightarrow>
    (\<exists>l1 l2 p. (f = Conflict l1 l2 p \<or> f = Error l1 p) \<and> l1 \<noteq> l2 \<and> incompatible ls l1 l2 \<and>
       BorrowAt l1 p \<in> set fs \<and> BorrowAt l2 p \<in> set fs)"
  unfolding in_for_pairs rule4_pair by blast

lemmas rule_iffs = rule1_iff rule2_iff rule4_iff

lemma facts_apply_rules:
  "set (facts (apply_rules s)) =
     set (facts s) \<union> set (for_pairs rule1 (facts s)) \<union> set (for_pairs rule2 (facts s))
       \<union> set (for_pairs (rule4 (loans s)) (facts s))"
  by (auto simp: apply_rules_def Let_def)

lemma apply_rules_fact_iff:
  "BorrowAt l p \<in> set (facts (apply_rules s)) \<longleftrightarrow> BorrowAt l p \<in> set (facts s)"
  "LoanInvalidated l p \<in> set (facts (apply_rules s)) \<longleftrightarrow> LoanInvalidated l p \<in> set (facts s)"
  by (auto simp: facts_apply_rules rule_iffs)

definition clash :: "polonius_solver \<Rightarrow> loan \<Rightarrow> loan \<Rightarrow> ppoint \<Rightarrow> bool" where
  "clash s l1 l2 p \<longleftrightarrow> l1 \<noteq> l2 \<and> incompatible (loans s) l1 l2 \<and>
     BorrowAt l1 p \<in> set (facts s) \<and> BorrowAt l2 p \<in> set (facts s)"

definition killed_live :: "polonius_solver \<Rightarrow> loan \<Rightarrow> ppoint \<Rightarrow> bool" where
  "killed_live s l p \<longleftrightarrow>
     LoanInvalidated l p \<in> set (facts s) \<and> (\<exists>q \<le> p. BorrowAt l q \<in> set (facts s))"

lemma rounds_facts:
  "loans ((apply_rules ^^ n) s) = loans s \<and>
   (BorrowAt l p \<in> set (facts ((apply_rules ^^ n) s)) \<longleftrightarrow> BorrowAt l p \<in> set (facts s)) \<and>
   (LoanInvalidated l p \<in> set (facts ((apply_rules ^^ n) s)) \<longleftrightarrow> LoanInvalidated l p \<in> set (facts s))"
  by (induction n) (auto simp: apply_rules_fact_iff)

lemma rounds_Error:
  "Error l p \<in> set (facts ((apply_rules ^^ Suc n) s)) \<longleftrightarrow>
     Error l p \<in> set (facts s) \<or> killed_live s l p \<or> (\<exists>l2. clash s l l2 p)"
proof (induction n)
  case (Suc n)
  show ?case
    unfolding funpow.simps(2) [of "Suc n"] o_apply facts_apply_rules Un_iff Suc
    using rounds_facts [of "Suc n" s] by (auto simp: rule_iffs killed_live_def clash_def)
qed (auto simp: facts_apply_rules rule_iffs killed_live_def clash_def)

lemma rounds_Conflict:
  "Conflict l l' p \<in> set (facts ((apply_rules ^^ Suc n) s)) \<longleftrightarrow>
     Conflict l l' p \<in> set (facts s) \<or> clash s l l' p"
proof (induction n)
  case (Suc n)
  show ?case
    unfolding funpow.simps(2) [of "Suc n"] o_apply facts_apply_rules Un_iff Suc
    using rounds_facts [of "Suc n" s] by (auto simp: rule_iffs killed_live_def clash_def)
qed (auto simp: facts_apply_rules rule_iffs killed_live_def clash_def)

lemma solve_Suc: "solve s = (apply_rules ^^ Suc 31) s"
  unfolding solve_def solve_rounds_eq by (rule arg_cong [of _ _ "\<lambda>n. (apply_rules ^^ n) s"]) simp

lemmas solve_Error = rounds_Error [of _ _ 31, folded solve_Suc]
lemmas solve_Conflict = rounds_Conflict [of _ _ _ 31, folded solve_Suc]

lemma relpow_pos_double:
  fixes R :: "('a \<times> 'a) set"
  assumes "0 < m"
  shows "(\<Union>k\<in>{1..m}. R ^^ k) \<union> (\<Union>k\<in>{1..m}. R ^^ k) O (\<Union>k\<in>{1..m}. R ^^ k) = (\<Union>k\<in>{1..2 * m}. R ^^ k)"
    (is "?U \<union> ?U O ?U = ?V")
proof
  have "R ^^ i O R ^^ j \<subseteq> ?V" if "i \<in> {1..m}" "j \<in> {1..m}" for i j
    using that by (intro UN_upper [of "i + j", THEN subset_trans [rotated]]) (auto simp: relpow_add)
  then show "?U \<union> ?U O ?U \<subseteq> ?V" by fastforce
  have "R ^^ k \<subseteq> ?U \<union> ?U O ?U" if k: "k \<in> {1..2 * m}" for k
  proof (cases "k \<le> m")
    case False
    then have "k - m \<in> {1..m}" "m \<in> {1..m}" using k assms by auto
    then have "R ^^ m O R ^^ (k - m) \<subseteq> ?U O ?U" by (intro relcomp_mono UN_upper)
    then show ?thesis using relpow_add [of m "k - m" R] False by auto
  qed (use k in auto)
  then show "?V \<subseteq> ?U \<union> ?U O ?U" by blast
qed

lemma rounds_sub_at: "sub_at ((apply_rules ^^ n) s) p = (\<Union>k\<in>{1..2 ^ n}. sub_at s p ^^ k)"
proof (induction n)
  case (Suc n)
  have "sub_at (apply_rules t) p = sub_at t p \<union> sub_at t p O sub_at t p" for t
    by (auto simp: sub_at_def facts_apply_rules rule_iffs)
  then show ?case using relpow_pos_double [of "2 ^ n" "sub_at s p"] by (simp add: Suc)
qed auto

lemma finite_sub_at [simp]: "finite (sub_at s p)"
proof -
  have "sub_at s p \<subseteq> (\<lambda>f. case f of Subset a b _ \<Rightarrow> (a, b) | _ \<Rightarrow> (0, 0)) ` set (facts s)"
    by (force simp: sub_at_def)
  then show ?thesis by (rule finite_subset) simp
qed

text \<open>
  C13. The solver's round limit loses nothing: with at most 2^32 subset facts at a point, the 32 rounds
  of \<open>solve\<close> compute the full transitive closure of the subset relation there, and one more application
  of the rules would not change it; the errors and conflicts it reports are exactly the given ones and
  the one-step consequences of rule 2 (a loan invalidated at or after its borrow) and rule 4 (two
  incompatible loans of the same place at the same point).
\<close>

theorem solve_fixpoint:
  assumes "card (sub_at s p) \<le> 2 ^ 32"
  shows "sub_at (solve s) p = (sub_at s p)\<^sup>+ \<and>
    sub_at (apply_rules (solve s)) p = sub_at (solve s) p \<and>
    (Error l p \<in> set (facts (solve s)) \<longleftrightarrow>
       Error l p \<in> set (facts s) \<or> killed_live s l p \<or> (\<exists>l2. clash s l l2 p)) \<and>
    (Conflict l l' p \<in> set (facts (solve s)) \<longleftrightarrow> Conflict l l' p \<in> set (facts s) \<or> clash s l l' p)"
proof (intro conjI)
  have fin: "(sub_at s p)\<^sup>+ = (\<Union>k\<in>{k. 0 < k \<and> k \<le> card (sub_at s p)}. sub_at s p ^^ k)"
    by (rule trancl_finite_eq_relpow) simp
  have closed: "(\<Union>k\<in>{1..2 ^ n}. sub_at s p ^^ k) = (sub_at s p)\<^sup>+" if "32 \<le> n" for n :: nat
  proof
    have "sub_at s p ^^ k \<subseteq> (sub_at s p)\<^sup>+" if "0 < k" for k
      using that by (auto simp: trancl_power)
    then show "(\<Union>k\<in>{1..2 ^ n}. sub_at s p ^^ k) \<subseteq> (sub_at s p)\<^sup>+"
      by (intro UN_least) (simp add: Suc_le_eq)
    have "(2 :: nat) ^ 32 \<le> 2 ^ n" using that by (rule power_increasing) simp
    with assms show "(sub_at s p)\<^sup>+ \<subseteq> (\<Union>k\<in>{1..2 ^ n}. sub_at s p ^^ k)"
      unfolding fin by (intro UN_mono) auto
  qed
  show "sub_at (solve s) p = (sub_at s p)\<^sup>+"
    unfolding solve_def solve_rounds_eq rounds_sub_at by (rule closed) simp
  have "apply_rules (solve s) = (apply_rules ^^ Suc 32) s"
    unfolding solve_def solve_rounds_eq funpow.simps(2) o_apply ..
  then show "sub_at (apply_rules (solve s)) p = sub_at (solve s) p"
    using closed [of 32] closed [of "Suc 32"] by (simp only: rounds_sub_at solve_def solve_rounds_eq)
qed (rule solve_Error, rule solve_Conflict)


theorem solve_fixpoint_witness:
  "let s = Solver_new\<lparr>facts := [Subset 0 1 7, Subset 1 2 7, BorrowAt 0 3, LoanInvalidated 0 7]\<rparr>
   in (0, 2) \<in> sub_at (solve s) 7 \<and> Error 0 7 \<in> set (facts (solve s))"
proof -
  let ?s = "Solver_new\<lparr>facts := [Subset 0 1 7, Subset 1 2 7, BorrowAt 0 3, LoanInvalidated 0 7]\<rparr>"
  have sub: "sub_at ?s 7 = {(0, 1), (1, 2)}" by (auto simp: sub_at_def)
  have "killed_live ?s 0 7" by (auto simp: killed_live_def)
  moreover have "(0, 2) \<in> (sub_at ?s 7)\<^sup>+"
    unfolding sub by (rule trancl_into_trancl [of 0 1]) auto
  moreover have "card (sub_at ?s 7) \<le> 2 ^ 32" unfolding sub by simp
  ultimately show ?thesis using solve_fixpoint [of ?s 7 0] by (auto simp only: Let_def)
qed

section \<open>The walker's invariant\<close>

definition live_ok :: "polonius_solver \<Rightarrow> (string \<Rightarrow> loan list) \<Rightarrow> bool" where
  "live_ok s L \<longleftrightarrow> (\<forall>k. \<forall>l \<in> set (L k). \<exists>q. BorrowAt l q \<in> set (facts s))"

definition facts_ok :: "polonius_solver \<Rightarrow> nat \<Rightarrow> bool" where
  "facts_ok s n \<longleftrightarrow>
     (\<forall>l p. BorrowAt l p \<in> set (facts s) \<longrightarrow> p \<le> n \<and> loans s l \<noteq> None \<and> l < next_loan s) \<and>
     (\<forall>l p. LoanInvalidated l p \<in> set (facts s) \<longrightarrow> (\<exists>q < p. BorrowAt l q \<in> set (facts s))) \<and>
     (\<forall>f \<in> set (facts s). \<exists>l p. f = BorrowAt l p \<or> f = LoanInvalidated l p) \<and>
     (\<forall>l l' p. BorrowAt l p \<in> set (facts s) \<longrightarrow> BorrowAt l' p \<in> set (facts s) \<longrightarrow> l = l')"

definition walk_ok :: "walk \<Rightarrow> bool" where
  "walk_ok w \<longleftrightarrow> facts_ok (fst w) (w_point (snd w)) \<and> live_ok (fst w) (live (snd w))"

definition grows :: "walk \<Rightarrow> walk \<Rightarrow> bool" where
  "grows w w' \<longleftrightarrow>
     w_point (snd w) \<le> w_point (snd w') \<and> set (facts (fst w)) \<subseteq> set (facts (fst w')) \<and>
     (\<forall>l p. BorrowAt l p \<in> set (facts (fst w')) - set (facts (fst w)) \<longrightarrow> w_point (snd w) < p)"

definition walks :: "(walk \<Rightarrow> walk) \<Rightarrow> bool" where
  "walks f \<longleftrightarrow> (\<forall>w. walk_ok w \<longrightarrow> walk_ok (f w) \<and> grows w (f w))"

lemma walksD: "walks f \<Longrightarrow> walk_ok w \<Longrightarrow> walk_ok (f w) \<and> grows w (f w)"
  unfolding walks_def by blast

lemma grows_trans: "grows u v \<Longrightarrow> grows v w \<Longrightarrow> grows u w"
  by (fastforce simp: grows_def)

lemma grows_live: "grows w (s, st\<lparr>live := L\<rparr>) = grows w (s, st)" "grows (s, st\<lparr>live := L\<rparr>) w = grows (s, st) w"
  by (auto simp: grows_def)

lemma walk_ok_live: "walk_ok (s, st\<lparr>live := L\<rparr>) \<longleftrightarrow> facts_ok s (w_point st) \<and> live_ok s L"
  by (auto simp: walk_ok_def)

lemma live_ok_mono: "live_ok (fst w) L \<Longrightarrow> grows w w' \<Longrightarrow> live_ok (fst w') L"
  by (fastforce simp: live_ok_def grows_def)

lemma live_ok_append: "live_ok s L \<Longrightarrow> live_ok s L' \<Longrightarrow> live_ok s (live_append L L')"
  by (auto simp: live_ok_def live_append_def)

lemma live_ok_empty [simp]: "live_ok s (\<lambda>_. [])"
  by (simp add: live_ok_def)

lemma walks_comp: "walks f \<Longrightarrow> walks g \<Longrightarrow> walks (g \<circ> f)"
  unfolding walks_def o_apply using grows_trans by blast

lemma walks_id: "walks id"
  by (auto simp: walks_def grows_def)

lemma walks_tick: "walks tick"
  by (fastforce simp: walks_def grows_def tick_def WalkState_advance_def walk_ok_def facts_ok_def)

lemma walks_seq_all: "(\<And>x. x \<in> set xs \<Longrightarrow> walks (f x)) \<Longrightarrow> walks (seq_all (map f xs))"
proof (induction xs)
  case Nil
  have "seq_all [] = (id :: walk \<Rightarrow> walk)" by (simp add: seq_all_def fun_eq_iff)
  then show ?case using walks_id by (simp only: list.map)
next
  case (Cons x xs)
  have "seq_all (map f (x # xs)) = seq_all (map f xs) \<circ> f x" by (simp add: seq_all_def fun_eq_iff)
  moreover have "walks (f x)" "walks (seq_all (map f xs))" using Cons by auto
  ultimately show ?case using walks_comp by metis
qed

lemma walks_seq_opt: "(\<And>x. x \<in> set_option xo \<Longrightarrow> walks (f x)) \<Longrightarrow> walks (seq_opt (map_option f xo))"
  by (cases xo) (auto simp: seq_opt_def walks_def grows_def)

lemma facts_Solver_add [simp]:
  "set (facts (Solver_add f s)) = insert f (set (facts s))" "loans (Solver_add f s) = loans s"
  "next_loan (Solver_add f s) = next_loan s"
  by (auto simp: Solver_add_def Let_def split: fact.splits)

lemma facts_ok_borrow:
  assumes ok: "facts_ok s n" and p: "p \<le> n" and fresh: "\<And>l. BorrowAt l p \<notin> set (facts s)"
  shows "facts_ok (Solver_add (BorrowAt (next_loan s) p) (fst (fresh_loan i s))) n"
proof -
  let ?t = "Solver_add (BorrowAt (next_loan s) p) (fst (fresh_loan i s))"
  have t: "set (facts ?t) = insert (BorrowAt (next_loan s) p) (set (facts s))"
    "next_loan ?t = Suc (next_loan s)" "loans ?t = (loans s)(next_loan s \<mapsto> i)"
    by (simp_all add: fresh_loan_def)
  have "\<forall>l q. BorrowAt l q \<in> set (facts ?t) \<longrightarrow> q \<le> n \<and> loans ?t l \<noteq> None \<and> l < next_loan ?t"
    using ok p unfolding t facts_ok_def by fastforce
  moreover have "\<forall>l q. LoanInvalidated l q \<in> set (facts ?t) \<longrightarrow> (\<exists>q' < q. BorrowAt l q' \<in> set (facts ?t))"
    using ok unfolding t facts_ok_def by blast
  moreover have "\<forall>f \<in> set (facts ?t). \<exists>l p. f = BorrowAt l p \<or> f = LoanInvalidated l p"
    using ok unfolding t facts_ok_def by blast
  moreover have "\<forall>l l' q. BorrowAt l q \<in> set (facts ?t) \<longrightarrow> BorrowAt l' q \<in> set (facts ?t) \<longrightarrow> l = l'"
    using ok fresh unfolding t facts_ok_def by blast
  ultimately show ?thesis unfolding facts_ok_def by blast
qed

lemma walks_borrow:
  assumes "walks f"
  shows "walks (walk_borrow m r f)"
proof (cases r)
  case None
  then have "walk_borrow m r f = f \<circ> tick" by (simp add: walk_borrow_def fun_eq_iff)
  then show ?thesis using assms walks_comp walks_tick by simp
next
  case (Some root)
  have "walk_ok (walk_borrow m r f w) \<and> grows w (walk_borrow m r f w)" if ok: "walk_ok w" for w
  proof -
    have g: "walk_ok (f (tick w))" "grows (tick w) (f (tick w))"
      using assms walksD walksD [OF walks_tick] ok by blast+
    have fresh: "BorrowAt l (Suc (w_point (snd w))) \<notin> set (facts (fst (f (tick w))))" for l
      using g(2) ok by (fastforce simp: grows_def tick_def WalkState_advance_def walk_ok_def facts_ok_def)
    obtain s st where fw: "f (tick w) = (s, st)" by force
    have pt: "Suc (w_point (snd w)) \<le> w_point st"
      using g(2) unfolding fw by (simp add: grows_def tick_def WalkState_advance_def)
    have "facts_ok (Solver_add (BorrowAt (next_loan s) (Suc (w_point (snd w)))) (fst (fresh_loan i s)))
        (w_point st)" for i
      using g(1) fresh pt by (intro facts_ok_borrow) (auto simp: walk_ok_def fw)
    then have "walk_ok (walk_borrow m r f w)"
      using g(1)
      by (auto simp: walk_borrow_def Some Let_def fw fresh_loan_def WalkState_advance_def
          intro_borrow_def walk_ok_def live_ok_def) blast+
    moreover have "grows w (f (tick w))" using g(2) walksD [OF walks_tick ok] grows_trans by blast
    then have "grows w (walk_borrow m r f w)"
      by (auto simp: walk_borrow_def Some Let_def fw fresh_loan_def WalkState_advance_def
          intro_borrow_def grows_def)
    ultimately show ?thesis by blast
  qed
  then show ?thesis by (simp add: walks_def)
qed

lemma expr_root_unary: "expr_root (EUnary u r) = expr_root r"
  by (subst expr_root.simps) simp

lemma root_walk_ticks: "expr_root e \<noteq> None \<Longrightarrow> \<exists>n. walk_expr e = tick ^^ n"
proof (induction e rule: expr_root.induct)
  case (1 e)
  have one: "\<exists>n. tick = tick ^^ n" by (rule exI [of _ 1]) simp
  show ?case
  proof (cases e)
    case (EUnary u r)
    then obtain n where "walk_expr r = tick ^^ n" using 1 by (auto simp: expr_root_unary)
    then have "walk_expr e = tick ^^ Suc n" by (simp only: EUnary walk_expr.simps funpow_Suc_right)
    then show ?thesis by blast
  qed (use 1(4) one in \<open>auto simp: expr_root.simps\<close>)
qed

lemma funpow_tick: "(tick ^^ n) w = (fst w, (snd w)\<lparr>w_point := w_point (snd w) + n\<rparr>)"
  by (induction n) (auto simp: tick_def WalkState_advance_def)

lemma fold_invalidate:
  "set (facts (fold (\<lambda>k. Solver_add (LoanInvalidated k p)) ks s)) =
     set (facts s) \<union> (\<lambda>k. LoanInvalidated k p) ` set ks"
  "loans (fold (\<lambda>k. Solver_add (LoanInvalidated k p)) ks s) = loans s"
  "next_loan (fold (\<lambda>k. Solver_add (LoanInvalidated k p)) ks s) = next_loan s"
  by (induction ks arbitrary: s) auto

lemma walks_move:
  assumes "walks (walk_expr e)"
  shows "walks (walk_move (expr_root e) (walk_expr e))"
proof (cases "expr_root e")
  case None
  then have "walk_move (expr_root e) (walk_expr e) = walk_expr e \<circ> tick"
    by (simp add: walk_move_def fun_eq_iff)
  then show ?thesis using assms walks_comp walks_tick by simp
next
  case (Some root)
  then obtain n where n: "walk_expr e = tick ^^ n" using root_walk_ticks by blast
  have "walk_ok (walk_move (expr_root e) (walk_expr e) w) \<and>
        grows w (walk_move (expr_root e) (walk_expr e) w)" if ok: "walk_ok w" for w
    using ok
    by (auto simp: walk_move_def Some n funpow_tick tick_def WalkState_advance_def invalidate_def
        walk_ok_def facts_ok_def live_ok_def grows_def fold_invalidate less_Suc_eq_le) (metis le_SucI trans_le_add1)+
  then show ?thesis by (simp add: walks_def)
qed

lemma walks_if:
  assumes "walks c" "walks t" "walks e"
  shows "walks (walk_if c t e)"
proof -
  have "walk_ok (walk_if c t e w) \<and> grows w (walk_if c t e w)" if ok: "walk_ok w" for w
  proof -
    define w1 w2 where "w1 = c w" and "w2 = t w1"
    define w3 where "w3 = e (fst w2, (snd w2)\<lparr>live := live (snd w1)\<rparr>)"
    note defs = w1_def w2_def w3_def
    have s1: "walk_ok w1" "grows w w1" and s2: "walk_ok w2" "grows w1 w2"
      using assms ok walksD defs by metis+
    have "walk_ok (fst w2, (snd w2)\<lparr>live := live (snd w1)\<rparr>)"
      using s1(1) s2 live_ok_mono [of w1 _ w2] by (simp add: walk_ok_live) (simp add: walk_ok_def)
    then have s3: "walk_ok w3" "grows w2 w3"
      using assms(3) walksD grows_live(2) unfolding defs by (metis prod.collapse)+
    then have "live_ok (fst w3) (live (snd w2))"
      using s2(1) live_ok_mono [of w2 _ w3] by (simp add: walk_ok_def)
    then have "live_ok (fst w3) (live_append (live (snd w3)) (live (snd w2)))"
      using s3(1) by (simp add: walk_ok_def live_ok_append)
    then have "walk_ok (walk_if c t e w)"
      using s3(1) by (simp add: walk_if_def Let_def walk_ok_live flip: defs) (simp add: walk_ok_def)
    moreover have "grows w (walk_if c t e w)"
      using grows_trans [OF s1(2) grows_trans [OF s2(2) s3(2)]]
      by (simp add: walk_if_def Let_def grows_live flip: defs)
    ultimately show ?thesis by blast
  qed
  then show ?thesis unfolding walks_def by blast
qed

lemma walk_arm_step_ok:
  assumes "walks f" "walk_ok (fst acc)" "live_ok (fst (fst acc)) (snd acc)" "live_ok (fst (fst acc)) snap"
  shows "walk_ok (fst (walk_arm_step snap acc f)) \<and> grows (fst acc) (fst (walk_arm_step snap acc f)) \<and>
    live_ok (fst (fst (walk_arm_step snap acc f))) (snd (walk_arm_step snap acc f))"
proof -
  define w1 where "w1 = f (fst (fst acc), (snd (fst acc))\<lparr>live := snap\<rparr>)"
  have "walk_ok (fst (fst acc), (snd (fst acc))\<lparr>live := snap\<rparr>)"
    using assms by (simp add: walk_ok_live) (simp add: walk_ok_def)
  then have g: "walk_ok w1" "grows (fst acc) w1"
    using assms(1) walksD grows_live(2) unfolding w1_def by (metis prod.collapse)+
  then show ?thesis
    using live_ok_mono [OF assms(3) g(2)]
    by (simp add: walk_arm_step_def Let_def grows_live walk_ok_live live_ok_append flip: w1_def)
       (simp add: walk_ok_def live_ok_append)
qed

lemma walk_arms_ok:
  assumes "\<And>x. x \<in> set xs \<Longrightarrow> walks (f x)" "walk_ok (fst acc)" "live_ok (fst (fst acc)) (snd acc)"
    "live_ok (fst (fst acc)) snap"
  shows "let acc' = foldl (walk_arm_step snap) acc (map f xs)
    in walk_ok (fst acc') \<and> grows (fst acc) (fst acc') \<and> live_ok (fst (fst acc')) (snd acc')"
  using assms
proof (induction xs arbitrary: acc)
  case Nil
  then show ?case by (simp add: grows_def)
next
  case (Cons x xs)
  let ?a = "walk_arm_step snap acc (f x)"
  have a: "walk_ok (fst ?a)" "grows (fst acc) (fst ?a)" "live_ok (fst (fst ?a)) (snd ?a)"
    using walk_arm_step_ok [of "f x" acc snap] Cons.prems by auto
  moreover have "live_ok (fst (fst ?a)) snap" using live_ok_mono Cons.prems(4) a(2) by blast
  ultimately show ?case using Cons.IH [of ?a] Cons.prems(1) grows_trans by (auto simp: Let_def)
qed

lemma walks_match:
  assumes "walks c" "\<And>x. x \<in> set xs \<Longrightarrow> walks (f x)"
  shows "walks (walk_match c (map f xs))"
proof -
  have "walk_ok (walk_match c (map f xs) w) \<and> grows w (walk_match c (map f xs) w)" if ok: "walk_ok w" for w
  proof -
    have c: "walk_ok (c w)" "grows w (c w)" using assms(1) walksD ok by blast+
    let ?r = "foldl (walk_arm_step (live (snd (c w)))) (c w, \<lambda>_. []) (map f xs)"
    have r: "walk_ok (fst ?r)" "grows (c w) (fst ?r)" "live_ok (fst (fst ?r)) (snd ?r)"
      using walk_arms_ok [of xs f "(c w, \<lambda>_. [])" "live (snd (c w))"] assms(2) c
      by (auto simp: Let_def walk_ok_def)
    have m: "walk_match c (map f xs) w = (fst (fst ?r), (snd (fst ?r))\<lparr>live := snd ?r\<rparr>)"
      by (simp add: walk_match_def Let_def split_beta)
    show ?thesis
      unfolding m walk_ok_live grows_live using r grows_trans [OF c(2) r(2)] by (simp add: walk_ok_def)
  qed
  then show ?thesis unfolding walks_def by blast
qed

lemmas walks_intros = walks_tick walks_comp walks_seq_all walks_seq_opt walks_borrow walks_move
  walks_if walks_match

lemma walks_all:
  "walks (walk_expr e)" "walks (walk_block b)" "walks (walk_stmt st)" "walks (walk_arg a)"
  "walks (walk_arm m)"
  by (induction e and b and st and a and m)
     (simp_all only: walk_expr.simps walk_block.simps walk_stmt.simps walk_arg.simps walk_arm.simps
        walks_intros)

lemma collected_ok: "\<exists>n. facts_ok (collect_facts_from_block Solver_new b) n"
proof -
  have "walk_ok (Solver_new, WalkState_default)"
    by (simp add: walk_ok_def facts_ok_def live_ok_def Solver_new_def WalkState_default_def)
  from walksD [OF walks_all(2) this, of b] show ?thesis
    by (auto simp: walk_ok_def collect_facts_from_block_def)
qed

lemma solve_collected:
  fixes body :: block
  defines "s0 \<equiv> collect_facts_from_block Solver_new body"
  shows "Error l p \<in> set (facts (solve s0)) \<longleftrightarrow> LoanInvalidated l p \<in> set (facts s0)"
    "Conflict l l' p \<notin> set (facts (solve s0))"
    "LoanInvalidated l p \<in> set (facts s0) \<Longrightarrow> \<exists>q < p. BorrowAt l q \<in> set (facts s0)"
    "LoanInvalidated l p \<in> set (facts s0) \<Longrightarrow> \<exists>i. loans s0 l = Some i"
proof -
  obtain n where ok: "facts_ok s0 n" using collected_ok s0_def by blast
  have clash: "\<not> clash s0 l1 l2 p" for l1 l2 p
    using ok unfolding facts_ok_def clash_def by blast
  have shape: "Error l p \<notin> set (facts s0)" "Conflict l l' p \<notin> set (facts s0)" for l l' p
    using ok unfolding facts_ok_def by blast+
  show inv: "\<exists>q < p. BorrowAt l q \<in> set (facts s0)" if "LoanInvalidated l p \<in> set (facts s0)" for l p
    using ok that unfolding facts_ok_def by blast
  then show "LoanInvalidated l p \<in> set (facts s0) \<Longrightarrow> \<exists>i. loans s0 l = Some i"
    using ok unfolding facts_ok_def by blast
  have "killed_live s0 l p \<longleftrightarrow> LoanInvalidated l p \<in> set (facts s0)" for l p
    using inv unfolding killed_live_def by (meson less_imp_le)
  then show "Error l p \<in> set (facts (solve s0)) \<longleftrightarrow> LoanInvalidated l p \<in> set (facts s0)"
    "Conflict l l' p \<notin> set (facts (solve s0))"
    unfolding solve_Error solve_Conflict using clash shape by blast+
qed

text \<open>
  C6. What the pass reports for a function body: after solving, the error facts are exactly the
  invalidations the walker recorded, each of them kills a known loan that was borrowed strictly
  earlier, and no conflict fact is ever derived, because every expression gets a point of its own and so two
  loans never share one. (The nested-borrow conflict that rule 4 is there for cannot arise from
  collected facts.)
\<close>

theorem polonius_errors_exact:
  "let s0 = collect_facts_from_block Solver_new body; s = solve s0
   in (\<forall>l p. Error l p \<in> set (facts s) \<longleftrightarrow> LoanInvalidated l p \<in> set (facts s0)) \<and>
      (\<forall>l1 l2 p. Conflict l1 l2 p \<notin> set (facts s)) \<and>
      (\<forall>l p. LoanInvalidated l p \<in> set (facts s0) \<longrightarrow>
         (\<exists>q < p. BorrowAt l q \<in> set (facts s0)) \<and> (\<exists>i. loans s0 l = Some i))"
  unfolding Let_def using solve_collected [where body = body] by blast

theorem polonius_errors_exact_witness:
  "let body = Block [SLet 0 None (Some (EBorrow True (EPath [''x'']))) False,
                     SExpr (EMove (EPath [''x'']))] None
   in Error 0 3 \<in> set (facts (solve (collect_facts_from_block Solver_new body)))"
proof -
  let ?b = "Block [SLet 0 None (Some (EBorrow True (EPath [''x'']))) False,
                   SExpr (EMove (EPath [''x'']))] None"
  have "LoanInvalidated 0 3 \<in> set (facts (collect_facts_from_block Solver_new ?b))"
    by (simp add: collect_facts_from_block_def seq_all_def seq_opt_def walk_borrow_def walk_move_def
        expr_root.simps fresh_loan_def Solver_add_def intro_borrow_def invalidate_def tick_def
        WalkState_advance_def WalkState_default_def Solver_new_def Let_def)
  then show ?thesis using polonius_errors_exact [of ?b] by (simp only: Let_def)
qed

section \<open>Diagnostics\<close>

lemma error_entry_iff: "error_entry ls f = Some (l, p, i) \<longleftrightarrow> f = Error l p \<and> ls l = Some i"
  by (cases f) (auto split: option.splits)

lemma in_map_filter: "x \<in> set (List.map_filter f xs) \<longleftrightarrow> (\<exists>y \<in> set xs. f y = Some x)"
  by (force simp: List.map_filter_def)

lemma in_Solver_errors:
  "(l, p, i) \<in> set (Solver_errors s) \<longleftrightarrow> Error l p \<in> set (facts s) \<and> loans s l = Some i"
  unfolding Solver_errors_def set_sort in_map_filter error_entry_iff by blast

lemma set_Solver_errors:
  "set (Solver_errors s) = {(l, p, i). Error l p \<in> set (facts s) \<and> loans s l = Some i}"
  using in_Solver_errors by auto

lemma image_triples: "(\<lambda>(l, p, i). (g i, p)) ` {(l, p, i). P l p i} = {(g i, p) | l p i. P l p i}"
  by force

lemma is_error_iff: "is_error f \<longleftrightarrow> (\<exists>l p. f = Error l p)"
  by (cases f) auto

lemma length_dedup_errors:
  "finite seen \<Longrightarrow>
   length (dedup_errors seen es) = card ((\<lambda>(l, p, i). (li_place_root i, p)) ` set es - seen)"
proof (induction seen es rule: dedup_errors.induct)
  case (2 seen l p i es)
  let ?K = "(\<lambda>(l, p, i). (li_place_root i, p)) ` set es"
  have "?K - insert (li_place_root i, p) seen = (insert (li_place_root i, p) ?K - seen) - {(li_place_root i, p)}"
    by blast
  then have "(li_place_root i, p) \<notin> seen \<Longrightarrow>
      Suc (card (?K - insert (li_place_root i, p) seen)) = card (insert (li_place_root i, p) ?K - seen)"
    by (simp only:) (rule card.remove [symmetric]; simp)
  then show ?case using 2 by (auto simp: insert_Diff_if)
qed simp

text \<open>
  The diagnostics of a function are one per distinct pair of place and point at which the walker
  invalidated a live loan of that place: nothing is reported twice, nothing is lost, and a function
  whose walk invalidates no loan is accepted.
\<close>

theorem polonius_fn_diagnostics:
  "let s0 = collect_facts_from_block Solver_new body;
       keys = {(li_place_root i, p) | l p i. LoanInvalidated l p \<in> set (facts s0) \<and> loans s0 l = Some i}
   in length (polonius_fn (f\<lparr>fn_body := Some body\<rparr>)) = card keys \<and>
      (polonius_fn (f\<lparr>fn_body := Some body\<rparr>) = [] \<longleftrightarrow>
         (\<forall>l p. LoanInvalidated l p \<notin> set (facts s0)))"
proof -
  let ?s0 = "collect_facts_from_block Solver_new body"
  let ?keys = "{(li_place_root i, p) | l p i. LoanInvalidated l p \<in> set (facts ?s0) \<and> loans ?s0 l = Some i}"
  note err = solve_collected(1) [where body = body]
  have ls: "loans (solve ?s0) = loans ?s0" unfolding solve_Suc using rounds_facts by blast
  have he: "has_errors (solve ?s0) \<longleftrightarrow> (\<exists>l p. LoanInvalidated l p \<in> set (facts ?s0))"
    unfolding has_errors_def list_ex_iff is_error_iff using err by blast
  have keys: "(\<lambda>(l, p, i). (li_place_root i, p)) ` set (Solver_errors (solve ?s0)) = ?keys"
    unfolding set_Solver_errors err ls by (rule image_triples)
  have fin: "finite ?keys" unfolding keys [symmetric] by simp
  have len: "length (polonius_fn (f\<lparr>fn_body := Some body\<rparr>)) = card ?keys"
  proof (cases "has_errors (solve ?s0)")
    case True
    then show ?thesis by (simp add: polonius_fn_def Let_def length_dedup_errors keys)
  next
    case False
    then have "?keys = {}" using he by blast
    moreover have "polonius_fn (f\<lparr>fn_body := Some body\<rparr>) = []"
      using False by (simp add: polonius_fn_def Let_def)
    ultimately show ?thesis by (simp only: list.size card.empty)
  qed
  moreover have "?keys = {} \<longleftrightarrow> (\<forall>l p. LoanInvalidated l p \<notin> set (facts ?s0))"
  proof
    assume none: "?keys = {}"
    have False if a: "LoanInvalidated l p \<in> set (facts ?s0)" for l p
    proof -
      obtain i where "loans ?s0 l = Some i" using solve_collected(4) [OF a] by (elim exE)
      with a have "(li_place_root i, p) \<in> ?keys" by blast
      with none show False by (simp only: empty_iff)
    qed
    then show "\<forall>l p. LoanInvalidated l p \<notin> set (facts ?s0)" by blast
  qed blast
  moreover have "polonius_fn (f\<lparr>fn_body := Some body\<rparr>) = [] \<longleftrightarrow> ?keys = {}"
    by (simp only: len card_0_eq [OF fin] flip: length_0_conv)
  ultimately show ?thesis unfolding Let_def by (simp only: simp_thms)
qed

end
