(* ===== verification/Ty_Arena.thy ===== *)
theory Ty_Arena
  imports Mty_Prelude
begin

text \<open>
  The type representation of the checker, \<^verbatim>\<open>crates/mty-types/src/ty.rs\<close>. \<open>ty_data\<close> is \<^verbatim>\<open>TyData\<close> with the
  type of its children as a parameter: the arena stores nodes whose children are arena indices
  (\<open>nat ty_data\<close>), and \<open>ty\<close> is the tree a node stands for. The intern table is a hash map in Rust
  and a finite map here. The arena invariant says that the table is exactly the inverse of the storage and that
  children are allocated before their parents; it makes equality of indices equality of trees,
  which is why the unifier of \<open>Ty_Infer\<close> can be stated over trees.
\<close>

section \<open>Type data\<close>

type_synonym ty_var_id = nat
type_synonym effect_id = nat
type_synonym param_id = nat
type_synonym adt_id = nat
type_synonym ty_id = nat

datatype int_kind = I8 | I16 | I32 | I64 | I128 | U8 | U16 | U32 | U64 | U128 | USize | ISize | IntInfer

datatype float_kind = F32 | F64 | FloatInfer

datatype cap_family = CfNet | CfFs | CfClock | CfDom | CfModel | CfCustom string

datatype cap_constraint =
    CapAny
  | CapReadOnly
  | CapPath string
  | CapHost "string list"
  | CapAnd "cap_constraint list"

datatype 'c ty_data =
    TBool
  | TInt int_kind
  | TFloat float_kind
  | TChar
  | TStr
  | TString
  | TBytes
  | TUnit
  | TNever
  | TDuration
  | TSize
  | TTuple "'c list"
  | TArray 'c "u64 option"
  | TRef bool 'c
  | TFn "'c list" 'c "effect_id list"
  | TAdt adt_id "'c list"
  | TVar ty_var_id
  | TParam param_id
  | TRawPtr 'c
  | TModule string
  | TCap cap_family cap_constraint
  | TDyn string
  | TError

datatype ty = Ty (node: "ty ty_data")

section \<open>Capability constraints\<close>

fun is_narrower_or_eq :: "cap_constraint \<Rightarrow> cap_constraint \<Rightarrow> bool" where
  "is_narrower_or_eq c d =
     (if d = CapAny then True
      else if c = d then True
      else case c of
        CapAnd xs \<Rightarrow> (\<exists>x \<in> set xs. is_narrower_or_eq x d)
      | CapPath a \<Rightarrow> (case d of CapPath b \<Rightarrow> starts_with a b | _ \<Rightarrow> False)
      | CapHost a \<Rightarrow> (case d of CapHost b \<Rightarrow> list_all (\<lambda>h. h \<in> set b) a | _ \<Rightarrow> False)
      | CapReadOnly \<Rightarrow> (case d of CapReadOnly \<Rightarrow> True | _ \<Rightarrow> False)
      | CapAny \<Rightarrow> False)"

declare is_narrower_or_eq.simps [simp del]

section \<open>The arena\<close>

record ty_arena =
  storage :: "ty_id ty_data list"
  intern_map :: "ty_id ty_data \<rightharpoonup> ty_id"

definition intern :: "ty_id ty_data \<Rightarrow> ty_arena \<Rightarrow> ty_arena \<times> ty_id" where
  "intern t A =
     (case intern_map A t of
        Some i \<Rightarrow> (A, i)
      | None \<Rightarrow>
          (let i = length (storage A)
           in (A\<lparr>storage := storage A @ [t], intern_map := (intern_map A)(t \<mapsto> i)\<rparr>, i)))"

definition primitives :: "ty_id ty_data list" where
  "primitives =
     [TBool, TUnit, TNever, TChar, TStr, TString, TBytes, TError, TDuration, TSize,
      TInt IntInfer, TFloat FloatInfer,
      TInt I8, TInt I16, TInt I32, TInt I64, TInt I128,
      TInt U8, TInt U16, TInt U32, TInt U64, TInt U128, TInt USize, TInt ISize,
      TFloat F32, TFloat F64]"

definition TyArena_new :: ty_arena where
  "TyArena_new = foldl (\<lambda>A t. fst (intern t A)) \<lparr>storage = [], intern_map = Map.empty\<rparr> primitives"

definition arena_get :: "ty_arena \<Rightarrow> ty_id \<Rightarrow> ty_id ty_data" where
  "arena_get A i = storage A ! i"

text \<open>The index fields that \<open>new\<close> fills in are the positions of the primitives.\<close>

definition unit_id :: ty_id where
  "unit_id = 1"

fun arena_int :: "int_kind \<Rightarrow> ty_id" where
  "arena_int I8 = 12"
| "arena_int I16 = 13"
| "arena_int I32 = 14"
| "arena_int I64 = 15"
| "arena_int I128 = 16"
| "arena_int U8 = 17"
| "arena_int U16 = 18"
| "arena_int U32 = 19"
| "arena_int U64 = 20"
| "arena_int U128 = 21"
| "arena_int USize = 22"
| "arena_int ISize = 23"
| "arena_int IntInfer = 10"

fun arena_float :: "float_kind \<Rightarrow> ty_id" where
  "arena_float F32 = 24"
| "arena_float F64 = 25"
| "arena_float FloatInfer = 11"

definition ref_to :: "bool \<Rightarrow> ty_id \<Rightarrow> ty_arena \<Rightarrow> ty_arena \<times> ty_id" where
  "ref_to mutable inner = intern (TRef mutable inner)"

definition tuple :: "ty_id list \<Rightarrow> ty_arena \<Rightarrow> ty_arena \<times> ty_id" where
  "tuple xs A = (if xs = [] then (A, unit_id) else intern (TTuple xs) A)"

definition array :: "ty_id \<Rightarrow> u64 option \<Rightarrow> ty_arena \<Rightarrow> ty_arena \<times> ty_id" where
  "array elem len = intern (TArray elem len)"

definition adt :: "adt_id \<Rightarrow> ty_id list \<Rightarrow> ty_arena \<Rightarrow> ty_arena \<times> ty_id" where
  "adt i args = intern (TAdt i args)"

definition fn_ty :: "ty_id list \<Rightarrow> ty_id \<Rightarrow> effect_id list \<Rightarrow> ty_arena \<Rightarrow> ty_arena \<times> ty_id" where
  "fn_ty params ret effects = intern (TFn params ret effects)"

definition arena_var :: "ty_var_id \<Rightarrow> ty_arena \<Rightarrow> ty_arena \<times> ty_id" where
  "arena_var v = intern (TVar v)"

definition arena_param :: "param_id \<Rightarrow> ty_arena \<Rightarrow> ty_arena \<times> ty_id" where
  "arena_param p = intern (TParam p)"

definition raw_ptr :: "ty_id \<Rightarrow> ty_arena \<Rightarrow> ty_arena \<times> ty_id" where
  "raw_ptr inner = intern (TRawPtr inner)"

definition arena_module :: "string \<Rightarrow> ty_arena \<Rightarrow> ty_arena \<times> ty_id" where
  "arena_module name = intern (TModule name)"

definition arena_cap :: "cap_family \<Rightarrow> cap_constraint \<Rightarrow> ty_arena \<Rightarrow> ty_arena \<times> ty_id" where
  "arena_cap family c = intern (TCap family c)"

definition dyn_trait :: "string \<Rightarrow> ty_arena \<Rightarrow> ty_arena \<times> ty_id" where
  "dyn_trait name = intern (TDyn name)"

section \<open>Invariant and meaning\<close>

definition arena_ok :: "ty_arena \<Rightarrow> bool" where
  "arena_ok A \<longleftrightarrow>
     (\<forall>t i. intern_map A t = Some i \<longleftrightarrow> i < length (storage A) \<and> storage A ! i = t) \<and>
     (\<forall>i < length (storage A). \<forall>c \<in> set_ty_data (storage A ! i). c < i)"

text \<open>The tree below an index, by descending along the children (which have smaller indices).\<close>

fun tree_upto :: "ty_arena \<Rightarrow> nat \<Rightarrow> ty_id \<Rightarrow> ty" where
  "tree_upto A 0 i = Ty TError"
| "tree_upto A (Suc n) i = Ty (map_ty_data (tree_upto A n) (arena_get A i))"

definition tree_of :: "ty_arena \<Rightarrow> ty_id \<Rightarrow> ty" where
  "tree_of A i = tree_upto A (Suc i) i"

definition extends :: "ty_arena \<Rightarrow> ty_arena \<Rightarrow> bool" where
  "extends A A' \<longleftrightarrow> (\<exists>ts. storage A' = storage A @ ts)"

lemma child_less: "arena_ok A \<Longrightarrow> i < length (storage A) \<Longrightarrow> c \<in> set_ty_data (arena_get A i) \<Longrightarrow> c < i"
  by (simp add: arena_ok_def arena_get_def)

lemma tree_upto_stable:
  "arena_ok A \<Longrightarrow> i < length (storage A) \<Longrightarrow> i < n \<Longrightarrow> i < m \<Longrightarrow> tree_upto A n i = tree_upto A m i"
proof (induction i arbitrary: n m rule: less_induct)
  case (less i)
  obtain n' m' where n: "n = Suc n'" "m = Suc m'" using less.prems by (metis gr0_implies_Suc less_nat_zero_code neq0_conv)
  have "tree_upto A n' c = tree_upto A m' c" if "c \<in> set_ty_data (arena_get A i)" for c
    using child_less [OF less.prems(1,2) that] less.prems n by (intro less.IH) auto
  then show ?case by (auto simp: n intro: ty_data.map_cong)
qed

lemma tree_of_unfold:
  assumes "arena_ok A" "i < length (storage A)"
  shows "tree_of A i = Ty (map_ty_data (tree_of A) (arena_get A i))"
proof -
  have "tree_upto A i c = tree_of A c" if "c \<in> set_ty_data (arena_get A i)" for c
    using child_less [OF assms that] assms unfolding tree_of_def by (intro tree_upto_stable) auto
  then show ?thesis by (auto simp: tree_of_def [of A i] intro: ty_data.map_cong)
qed

lemma map_ty_data_inj_on:
  "inj_on f (set_ty_data s \<union> set_ty_data t) \<Longrightarrow> map_ty_data f s = map_ty_data f t \<Longrightarrow> s = t"
  by (rule ty_data.inj_map_strong [of s t f f]) (auto simp: inj_on_def)

lemma tree_of_inj:
  assumes ok: "arena_ok A"
  shows "i < length (storage A) \<Longrightarrow> j < length (storage A) \<Longrightarrow> tree_of A i = tree_of A j \<Longrightarrow> i = j"
proof (induction "max i j" arbitrary: i j rule: less_induct)
  case less
  have child: "c < i" if "c \<in> set_ty_data (arena_get A i)" for c
    using child_less [OF ok _ that] less.prems by blast
  have child': "c < j" if "c \<in> set_ty_data (arena_get A j)" for c
    using child_less [OF ok _ that] less.prems by blast
  have lt: "c < max i j \<and> c < length (storage A)"
    if "c \<in> set_ty_data (arena_get A i) \<union> set_ty_data (arena_get A j)" for c
    using that child child' less.prems by fastforce
  have "inj_on (tree_of A) (set_ty_data (arena_get A i) \<union> set_ty_data (arena_get A j))"
    by (rule inj_onI, rule less.hyps) (use lt in auto)
  moreover have "map_ty_data (tree_of A) (arena_get A i) = map_ty_data (tree_of A) (arena_get A j)"
    using less.prems tree_of_unfold [OF ok] by auto
  ultimately have "arena_get A i = arena_get A j" by (rule map_ty_data_inj_on)
  then show "i = j" using ok less.prems unfolding arena_ok_def arena_get_def by (metis option.inject)
qed

lemma intern_ok:
  assumes ok: "arena_ok A" and cs: "\<And>c. c \<in> set_ty_data t \<Longrightarrow> c < length (storage A)"
  shows "arena_ok (fst (intern t A))" "extends A (fst (intern t A))"
    "snd (intern t A) < length (storage (fst (intern t A)))"
    "arena_get (fst (intern t A)) (snd (intern t A)) = t"
proof -
  have "arena_ok (A\<lparr>storage := storage A @ [t], intern_map := (intern_map A)(t \<mapsto> length (storage A))\<rparr>)"
    if none: "intern_map A t = None"
  proof -
    have "storage A ! i \<noteq> t" if "i < length (storage A)" for i
      using ok none that unfolding arena_ok_def by (metis option.distinct(1))
    then show ?thesis
      using ok cs by (auto simp: arena_ok_def nth_append less_Suc_eq split: if_splits)
  qed
  then show "arena_ok (fst (intern t A))" using ok by (simp add: intern_def Let_def split: option.split)
qed (use ok in \<open>auto simp: intern_def Let_def extends_def arena_get_def arena_ok_def split: option.split\<close>)

lemma extends_tree_of:
  assumes "arena_ok A" "arena_ok A'" "extends A A'"
  shows "i < length (storage A) \<Longrightarrow> tree_of A' i = tree_of A i"
proof (induction i rule: less_induct)
  case (less i)
  have get: "arena_get A' i = arena_get A i" and len: "i < length (storage A')"
    using assms(3) less.prems by (auto simp: extends_def arena_get_def nth_append)
  have "tree_of A' c = tree_of A c" if "c \<in> set_ty_data (arena_get A i)" for c
    using child_less [OF assms(1) less.prems that] less.prems by (intro less.IH) auto
  then show ?case
    unfolding tree_of_unfold [OF assms(2) len] tree_of_unfold [OF assms(1) less.prems] get
    by (auto intro: ty_data.map_cong)
qed

lemma extends_refl [simp]: "extends A A"
  by (simp add: extends_def)

lemma extends_trans: "extends A B \<Longrightarrow> extends B C \<Longrightarrow> extends A C"
  by (auto simp: extends_def)

lemma extends_length: "extends A B \<Longrightarrow> length (storage A) \<le> length (storage B)"
  by (auto simp: extends_def)

lemma fold_intern_ok:
  "arena_ok A \<Longrightarrow> \<forall>t \<in> set ts. set_ty_data t = {} \<Longrightarrow> arena_ok (foldl (\<lambda>A t. fst (intern t A)) A ts)"
proof (induction ts arbitrary: A)
  case (Cons t ts)
  then show ?case using intern_ok(1) [of A t] by auto
qed simp

lemma TyArena_new_ok: "arena_ok TyArena_new"
  unfolding TyArena_new_def by (rule fold_intern_ok) (simp_all add: arena_ok_def primitives_def)

lemma storage_TyArena_new: "storage TyArena_new = primitives"
  by (simp add: TyArena_new_def primitives_def intern_def)

text \<open>
  C35. Hash-consing: on a well-formed arena, interning a node whose children are allocated keeps the
  arena well formed, returns an index that reads back as that node, changes no earlier index's tree,
  returns the same index when asked again without growing the arena, and two allocated indices are equal
  exactly when the trees they stand for are equal. The arena \<open>new\<close> builds is well formed and its
  named indices read back as the primitive types.
\<close>

theorem intern_hash_consing:
  assumes "arena_ok A" "\<forall>c \<in> set_ty_data t. c < length (storage A)"
  shows "let (A', i) = intern t A in
     arena_ok A' \<and> arena_get A' i = t \<and> intern t A' = (A', i) \<and>
     (\<forall>j < length (storage A). tree_of A' j = tree_of A j) \<and>
     (\<forall>j k. j < length (storage A') \<and> k < length (storage A') \<longrightarrow> (j = k \<longleftrightarrow> tree_of A' j = tree_of A' k)) \<and>
     arena_ok TyArena_new \<and> arena_get TyArena_new unit_id = TUnit \<and>
     (\<forall>k. arena_get TyArena_new (arena_int k) = TInt k) \<and>
     (\<forall>k. arena_get TyArena_new (arena_float k) = TFloat k)"
proof -
  obtain A' i where I: "intern t A = (A', i)" by force
  have ok: "arena_ok A'" "extends A A'" "arena_get A' i = t" "i < length (storage A')"
    using intern_ok [of A t] assms by (auto simp: I)
  have "intern_map A' t = Some i" using ok by (auto simp: arena_ok_def arena_get_def)
  then have again: "intern t A' = (A', i)" by (simp add: intern_def)
  have "arena_get TyArena_new (arena_int k) = TInt k" for k
    by (cases k) (simp_all add: arena_get_def storage_TyArena_new primitives_def)
  moreover have "arena_get TyArena_new (arena_float k) = TFloat k" for k
    by (cases k) (simp_all add: arena_get_def storage_TyArena_new primitives_def)
  moreover have "arena_get TyArena_new unit_id = TUnit"
    by (simp add: arena_get_def storage_TyArena_new primitives_def unit_id_def)
  ultimately show ?thesis
    using ok again TyArena_new_ok extends_tree_of [OF assms(1) ok(1,2)] tree_of_inj [OF ok(1)]
    by (auto simp: I)
qed

theorem intern_hash_consing_witness:
  "let (A', i) = intern (TRef True 0) TyArena_new in arena_ok A' \<and> arena_get A' i = TRef True 0"
proof -
  have "\<forall>c \<in> set_ty_data (TRef True 0). c < length (storage TyArena_new)"
    by (simp add: storage_TyArena_new primitives_def)
  from intern_hash_consing [OF TyArena_new_ok this] show ?thesis by (simp add: split_beta)
qed

section \<open>Narrowing\<close>

lemma narrower_refl: "is_narrower_or_eq c c"
  by (subst is_narrower_or_eq.simps) simp

lemma narrower_Any: "is_narrower_or_eq CapAny d \<longleftrightarrow> d = CapAny"
  by (subst is_narrower_or_eq.simps) auto

lemma starts_with_trans: "starts_with a b \<Longrightarrow> starts_with b c \<Longrightarrow> starts_with a c"
  by (auto simp: starts_with_iff)

lemma narrower_trans: "is_narrower_or_eq a b \<Longrightarrow> is_narrower_or_eq b c \<Longrightarrow> is_narrower_or_eq a c"
proof (induction a)
  case (CapAnd xs)
  show ?case
  proof (cases "CapAnd xs = b \<or> c = CapAny \<or> b = CapAny")
    case True
    then show ?thesis using CapAnd.prems narrower_Any is_narrower_or_eq.simps [of "CapAnd xs" c] by auto
  next
    case False
    then obtain x where "x \<in> set xs" "is_narrower_or_eq x b"
      using CapAnd.prems(1) is_narrower_or_eq.simps [of "CapAnd xs" b] by auto
    then have "is_narrower_or_eq x c" using CapAnd by blast
    then show ?thesis using \<open>x \<in> set xs\<close> is_narrower_or_eq.simps [of "CapAnd xs" c] by auto
  qed
qed (force simp: is_narrower_or_eq.simps starts_with_trans list_all_iff
       split: if_splits cap_constraint.splits)+

text \<open>
  Capability narrowing is a preorder with \<open>Any\<close> as its top: every constraint is narrower than or
  equal to itself, narrowing composes, so a chain of attenuations never widens a capability, and only
  \<open>Any\<close> is as wide as \<open>Any\<close>.
\<close>

theorem narrowing_preorder:
  "is_narrower_or_eq a a \<and> is_narrower_or_eq a CapAny \<and>
   (is_narrower_or_eq CapAny a \<longleftrightarrow> a = CapAny) \<and>
   (is_narrower_or_eq a b \<and> is_narrower_or_eq b c \<longrightarrow> is_narrower_or_eq a c)"
proof (intro conjI)
  show "is_narrower_or_eq a CapAny" by (subst is_narrower_or_eq.simps) simp
qed (use narrower_refl narrower_Any narrower_trans in blast)+

theorem narrowing_preorder_witness:
  "is_narrower_or_eq (CapAnd [CapReadOnly, CapPath ''/data/x'']) (CapPath ''/data'')
   \<and> is_narrower_or_eq (CapPath ''/data'') (CapPath ''/d'')
   \<and> is_narrower_or_eq (CapAnd [CapReadOnly, CapPath ''/data/x'']) (CapPath ''/d'')"
proof -
  have "is_narrower_or_eq (CapAnd [CapReadOnly, CapPath ''/data/x'']) (CapPath ''/data'')"
    "is_narrower_or_eq (CapPath ''/data'') (CapPath ''/d'')"
    by (simp_all add: is_narrower_or_eq.simps starts_with_def)
  then show ?thesis using narrowing_preorder by blast
qed

end
