(* ===== verification/Ty_Rows.thy ===== *)
theory Ty_Rows
  imports Ty_Arena Mty_Store
begin

text \<open>
  Effect rows, the \<^verbatim>\<open>row\<close> module of \<^verbatim>\<open>crates/mty-types/src/effects.rs\<close>: rows with an optional polymorphic
  tail, the row substitution with its occurs check, row unification, and the row signatures of the
  standard library's higher-order functions. Sets of effects are \<^verbatim>\<open>BTreeSet\<close>s in Rust and sets here;
  the bindings are the ordered map of \<open>Mty_Store\<close>. \<open>resolve_row\<close> guards its loop with the set of
  visited variables and terminates on that; the occurs check has no guard, so it is a partial
  function whose value is \<open>None\<close> where the code would not return, and the lemmas show that it
  returns on every substitution that unification can build.
\<close>

section \<open>Rows and substitutions\<close>

type_synonym row_var = nat

datatype effect_row = Closed "effect_id set" | Open "effect_id set" row_var

definition row_empty :: effect_row where
  "row_empty = Closed {}"

fun row_concrete :: "effect_row \<Rightarrow> effect_id set" where
  "row_concrete (Closed s) = s"
| "row_concrete (Open s _) = s"

fun row_is_open :: "effect_row \<Rightarrow> bool" where
  "row_is_open (Open _ _) = True"
| "row_is_open (Closed _) = False"

fun free_row_vars :: "effect_row \<Rightarrow> row_var list" where
  "free_row_vars (Closed _) = []"
| "free_row_vars (Open _ v) = [v]"

datatype row_error =
    ClosedMismatch "effect_id set" "effect_id set"
  | SubsumptionFail "effect_id set" "effect_id set"
  | RowOccurs row_var

record row_subst =
  row_next :: nat
  row_bindings :: "(row_var \<times> effect_row) list"

definition RowSubst_new :: row_subst where
  "RowSubst_new = \<lparr>row_next = 0, row_bindings = []\<rparr>"

definition row_fresh :: "row_subst \<Rightarrow> row_subst \<times> row_var" where
  "row_fresh s = (s\<lparr>row_next := row_next s + 1\<rparr>, row_next s)"

definition row_lookup :: "row_subst \<Rightarrow> row_var \<Rightarrow> effect_row option" where
  "row_lookup s v = map_option snd (bt_get (row_bindings s) v)"

definition row_is_bound :: "row_subst \<Rightarrow> row_var \<Rightarrow> bool" where
  "row_is_bound s v \<longleftrightarrow> row_lookup s v \<noteq> None"

partial_function (option) occurs_in :: "row_subst \<Rightarrow> row_var \<Rightarrow> effect_row \<Rightarrow> bool option" where
  "occurs_in s v row =
     (case row of
        Closed _ \<Rightarrow> Some False
      | Open _ w \<Rightarrow>
          if w = v then Some True
          else case row_lookup s w of
            Some nxt \<Rightarrow> occurs_in s v nxt
          | None \<Rightarrow> Some False)"

definition row_bind :: "row_var \<Rightarrow> effect_row \<Rightarrow> row_subst \<Rightarrow> (row_subst \<times> (row_error, unit) result) option" where
  "row_bind v row s =
     (case occurs_in s v row of
        None \<Rightarrow> None
      | Some True \<Rightarrow> Some (s, Inl (RowOccurs v))
      | Some False \<Rightarrow> Some (s\<lparr>row_bindings := bt_insert (row_bindings s) (v, row)\<rparr>, Inr ()))"

lemma row_lookup_key: "row_lookup s v = Some r \<Longrightarrow> v \<in> fst ` set (row_bindings s)"
  by (auto simp: row_lookup_def bt_get_def dest!: find_SomeD intro: rev_image_eqI)

function resolve_loop :: "row_subst \<Rightarrow> effect_id set \<Rightarrow> row_var \<Rightarrow> row_var set \<Rightarrow> effect_row" where
  "resolve_loop s acc current seen =
     (if current \<in> seen then Open acc current
      else case row_lookup s current of
        None \<Rightarrow> Open acc current
      | Some (Closed t) \<Rightarrow> Closed (acc \<union> t)
      | Some (Open t w) \<Rightarrow> resolve_loop s (acc \<union> t) w (insert current seen))"
  by pat_completeness auto
termination
proof (relation "measure (\<lambda>(s, acc, current, seen). card (fst ` set (row_bindings s) - seen))")
  fix s acc current seen r t w
  assume "current \<notin> seen" "row_lookup s current = Some r" "r = Open t w"
  then have "current \<in> fst ` set (row_bindings s) - seen" using row_lookup_key by simp
  then have "fst ` set (row_bindings s) - insert current seen \<subset> fst ` set (row_bindings s) - seen"
    by auto
  then show "((s, acc \<union> t, w, insert current seen), (s, acc, current, seen))
      \<in> measure (\<lambda>(s, acc, current, seen). card (fst ` set (row_bindings s) - seen))"
    by (auto intro: psubset_card_mono)
qed simp

declare resolve_loop.simps [simp del]

fun resolve_row :: "row_subst \<Rightarrow> effect_row \<Rightarrow> effect_row" where
  "resolve_row s (Closed x) = Closed x"
| "resolve_row s (Open x v) = resolve_loop s x v {}"

definition apply_row_subst :: "row_subst \<Rightarrow> effect_row \<Rightarrow> effect_row" where
  "apply_row_subst s row = resolve_row s row"

definition unify_rows ::
  "row_subst \<Rightarrow> effect_row \<Rightarrow> effect_row \<Rightarrow> (row_subst \<times> (row_error, unit) result) option" where
  "unify_rows s lhs rhs =
     (case (resolve_row s lhs, resolve_row s rhs) of
        (Closed a, Closed b) \<Rightarrow> Some (s, if a = b then Inr () else Inl (ClosedMismatch a b))
      | (Closed a, Open b w) \<Rightarrow>
          if \<not> b \<subseteq> a then Some (s, Inl (ClosedMismatch a b)) else row_bind w (Closed (a - b)) s
      | (Open a v, Closed b) \<Rightarrow>
          if \<not> a \<subseteq> b then Some (s, Inl (ClosedMismatch a b)) else row_bind v (Closed (b - a)) s
      | (Open a v, Open b w) \<Rightarrow>
          if v = w \<and> a = b then Some (s, Inr ())
          else let (s1, f) = row_fresh s
               in case row_bind v (Open (b - a) f) s1 of
                    None \<Rightarrow> None
                  | Some (s2, Inl e) \<Rightarrow> Some (s2, Inl e)
                  | Some (s2, Inr _) \<Rightarrow> row_bind w (Open (a - b) f) s2)"

definition subsume_closed :: "effect_id set \<Rightarrow> effect_id set \<Rightarrow> (row_error, unit) result" where
  "subsume_closed actual expected =
     (if actual \<subseteq> expected then Inr () else Inl (SubsumptionFail actual expected))"

section \<open>Signatures\<close>

datatype row_spec = Skip | Concrete effect_row | RVar nat | VarPlus nat "effect_id set"

record row_poly_sig =
  row_var_count :: nat
  param_rows :: "row_spec list"
  return_row :: row_spec

fun fresh_many :: "nat \<Rightarrow> row_subst \<Rightarrow> row_subst \<times> row_var list" where
  "fresh_many 0 s = (s, [])"
| "fresh_many (Suc n) s =
     (let (s1, v) = row_fresh s; (s2, vs) = fresh_many n s1 in (s2, v # vs))"

fun materialise :: "row_var list \<Rightarrow> row_spec \<Rightarrow> effect_row option" where
  "materialise fresh Skip = None"
| "materialise fresh (Concrete r) = Some r"
| "materialise fresh (RVar i) = Some (Open {} (fresh ! i))"
| "materialise fresh (VarPlus i eff) = Some (Open eff (fresh ! i))"

definition instantiate_row_sig ::
  "row_poly_sig \<Rightarrow> row_subst \<Rightarrow> row_subst \<times> effect_row option list \<times> effect_row \<times> row_var list" where
  "instantiate_row_sig sig s =
     (let (s1, fresh) = fresh_many (row_var_count sig) s
      in (s1, map (materialise fresh) (param_rows sig),
          case materialise fresh (return_row sig) of Some r \<Rightarrow> r | None \<Rightarrow> row_empty, fresh))"

definition single_row_closure_sig :: row_poly_sig where
  "single_row_closure_sig = \<lparr>row_var_count = 1, param_rows = [Skip, RVar 0], return_row = RVar 0\<rparr>"

definition stdlib_list_map_sig :: row_poly_sig where
  "stdlib_list_map_sig = \<lparr>row_var_count = 1, param_rows = [Skip, RVar 0], return_row = RVar 0\<rparr>"

definition stdlib_list_fold_sig :: row_poly_sig where
  "stdlib_list_fold_sig = \<lparr>row_var_count = 1, param_rows = [Skip, Skip, RVar 0], return_row = RVar 0\<rparr>"

definition ALLOC_PLACEHOLDER :: effect_id where
  "ALLOC_PLACEHOLDER = 4294967295 - 7"

definition stdlib_iter_collect_sig :: row_poly_sig where
  "stdlib_iter_collect_sig =
     \<lparr>row_var_count = 1, param_rows = [Skip], return_row = VarPlus 0 {ALLOC_PLACEHOLDER}\<rparr>"

section \<open>Well-formed substitutions\<close>

definition tail_of :: "effect_row \<Rightarrow> row_var option" where
  "tail_of r = (case r of Closed _ \<Rightarrow> None | Open _ v \<Rightarrow> Some v)"

definition known_row :: "row_subst \<Rightarrow> effect_row \<Rightarrow> bool" where
  "known_row s r \<longleftrightarrow> (\<forall>v. tail_of r = Some v \<longrightarrow> v < row_next s)"

definition ranked :: "row_subst \<Rightarrow> (row_var \<Rightarrow> nat) \<Rightarrow> bool" where
  "ranked s rk \<longleftrightarrow> (\<forall>v t w. row_lookup s v = Some (Open t w) \<longrightarrow> rk w < rk v)"

definition row_ok :: "row_subst \<Rightarrow> bool" where
  "row_ok s \<longleftrightarrow> bt_inv (row_bindings s) \<and> (\<exists>rk. ranked s rk) \<and>
     (\<forall>v r. row_lookup s v = Some r \<longrightarrow> v < row_next s \<and> known_row s r)"

definition row_add :: "effect_id set \<Rightarrow> effect_row \<Rightarrow> effect_row" where
  "row_add a r = (case r of Closed x \<Rightarrow> Closed (a \<union> x) | Open x v \<Rightarrow> Open (a \<union> x) v)"

lemma row_add_simps [simp]:
  "row_add a (Closed x) = Closed (a \<union> x)" "row_add a (Open x v) = Open (a \<union> x) v"
  "row_add a (row_add b r) = row_add (a \<union> b) r" "row_add {} r = r"
  by (auto simp: row_add_def split: effect_row.splits)

lemma tail_of_simps [simp]: "tail_of (Closed x) = None" "tail_of (Open x v) = Some v"
  by (auto simp: tail_of_def)

lemma row_lookup_bind [simp]:
  "bt_inv (row_bindings s) \<Longrightarrow>
   row_lookup (s\<lparr>row_bindings := bt_insert (row_bindings s) (v, r)\<rparr>) w = (if w = v then Some r else row_lookup s w)"
  by (simp add: row_lookup_def bt.look_put)

text \<open>On a ranked substitution the visited set is never hit: its members have larger ranks.\<close>

lemma resolve_loop_ranked:
  assumes rk: "ranked s rk"
  shows "\<forall>x \<in> seen. rk v < rk x \<Longrightarrow> resolve_loop s acc v seen =
     (case row_lookup s v of
        None \<Rightarrow> Open acc v
      | Some (Closed t) \<Rightarrow> Closed (acc \<union> t)
      | Some (Open t w) \<Rightarrow> row_add acc (resolve_loop s t w {}))"
proof (induction "rk v" arbitrary: v acc seen rule: less_induct)
  case less
  have nv: "v \<notin> seen" using less.prems by blast
  show ?case
  proof (cases "\<exists>t w. row_lookup s v = Some (Open t w)")
    case True
    then obtain t w where l: "row_lookup s v = Some (Open t w)" by blast
    then have rw: "rk w < rk v" using rk by (auto simp: ranked_def)
    have "resolve_loop s (acc \<union> t) w (insert v seen) =
        (case row_lookup s w of None \<Rightarrow> Open (acc \<union> t) w | Some (Closed t') \<Rightarrow> Closed (acc \<union> t \<union> t')
          | Some (Open t' w') \<Rightarrow> row_add (acc \<union> t) (resolve_loop s t' w' {}))"
      using less.prems rw by (intro less.hyps) force+
    moreover have "resolve_loop s t w {} =
        (case row_lookup s w of None \<Rightarrow> Open t w | Some (Closed t') \<Rightarrow> Closed (t \<union> t')
          | Some (Open t' w') \<Rightarrow> row_add t (resolve_loop s t' w' {}))"
      by (intro less.hyps rw) simp
    ultimately have "resolve_loop s (acc \<union> t) w (insert v seen) = row_add acc (resolve_loop s t w {})"
      by (auto simp: Un_assoc split: option.splits effect_row.splits)
    then show ?thesis using nv l by (subst resolve_loop.simps) simp
  qed (use nv in \<open>subst resolve_loop.simps, auto split: option.splits effect_row.splits\<close>)
qed

lemma resolve_row_open:
  "ranked s rk \<Longrightarrow> resolve_row s (Open a v) =
     (case row_lookup s v of None \<Rightarrow> Open a v | Some r \<Rightarrow> row_add a (resolve_row s r))"
  using resolve_loop_ranked [of s rk "{}" v a] by (auto split: option.splits effect_row.splits)

declare resolve_row.simps(2) [simp del]

lemma resolve_row_tail:
  assumes rk: "ranked s rk"
  shows "resolve_row s r = Open a v \<Longrightarrow> row_lookup s v = None"
proof (induction "case r of Open _ w \<Rightarrow> Suc (rk w) | Closed _ \<Rightarrow> 0" arbitrary: r a rule: less_induct)
  case less
  show ?case
  proof (cases r)
    case (Open b w)
    show ?thesis
    proof (cases "row_lookup s w")
      case None
      then show ?thesis using less.prems Open resolve_row_open [OF rk] by simp
    next
      case (Some q)
      then obtain a' where "resolve_row s q = Open a' v"
        using less.prems Open resolve_row_open [OF rk]
        by (cases "resolve_row s q") auto
      moreover have "(case q of Open _ w \<Rightarrow> Suc (rk w) | Closed _ \<Rightarrow> 0) < Suc (rk w)"
        using rk Some by (auto simp: ranked_def split: effect_row.splits)
      ultimately show ?thesis using less.hyps Open by simp
    qed
  qed (use less.prems in simp)
qed

lemma resolve_known:
  assumes ok: "row_ok s"
  shows "known_row s r \<Longrightarrow> known_row s (resolve_row s r)"
proof -
  obtain rk where rk: "ranked s rk" using ok by (auto simp: row_ok_def)
  show "known_row s r \<Longrightarrow> known_row s (resolve_row s r)"
  proof (induction "case r of Open _ w \<Rightarrow> Suc (rk w) | Closed _ \<Rightarrow> 0" arbitrary: r rule: less_induct)
    case less
    show ?case
    proof (cases r)
      case (Open b w)
      show ?thesis
      proof (cases "row_lookup s w")
        case None
        then show ?thesis using less.prems Open resolve_row_open [OF rk] by simp
      next
        case (Some q)
        moreover have "(case q of Open _ w \<Rightarrow> Suc (rk w) | Closed _ \<Rightarrow> 0) < Suc (rk w)"
          using rk Some by (auto simp: ranked_def split: effect_row.splits)
        moreover have "known_row s q" using ok Some by (auto simp: row_ok_def)
        ultimately have "known_row s (resolve_row s q)" using less.hyps Open by simp
        then show ?thesis
          using Open Some resolve_row_open [OF rk] by (cases "resolve_row s q") (auto simp: known_row_def)
      qed
    qed (use less.prems in simp)
  qed
qed

section \<open>Binding\<close>

definition plug :: "row_var \<Rightarrow> effect_row \<Rightarrow> effect_row \<Rightarrow> effect_row" where
  "plug v R r = (case r of Open x y \<Rightarrow> if y = v then row_add x R else Open x y | Closed x \<Rightarrow> Closed x)"

lemma plug_add: "plug v R (row_add a r) = row_add a (plug v R r)"
  by (cases r) (auto simp: plug_def)

lemma tail_row_add [simp]: "tail_of (row_add a r) = tail_of r"
  by (cases r) auto

lemma tail_resolve_open:
  "ranked s rk \<Longrightarrow> tail_of (resolve_row s (Open a v)) = tail_of (resolve_row s (Open b v))"
  by (simp add: resolve_row_open split: option.splits)

lemma bind_ranked:
  assumes rk: "ranked s rk" and free: "row_lookup s v = None"
    and R: "\<And>t. tail_of R = Some t \<Longrightarrow> t \<noteq> v \<and> row_lookup s t = None"
    and s': "row_lookup s' = (row_lookup s)(v \<mapsto> R)"
  shows "\<exists>rk'. ranked s' rk'"
proof -
  let ?ends = "\<lambda>x. tail_of (resolve_row s (Open {} x)) = Some v"
  define m where "m = (case tail_of R of Some t \<Rightarrow> Suc (rk t) | None \<Rightarrow> 0)"
  define rk' where "rk' = (\<lambda>x. rk x + (if ?ends x then m else 0))"
  have "rk' w < rk' x" if l: "row_lookup s' x = Some (Open t w)" for x t w
  proof (cases "x = v")
    case True
    then have R': "R = Open t w" using l s' by simp
    then have "w \<noteq> v" "row_lookup s w = None" using R [of w] by auto
    then have "\<not> ?ends w" "?ends v" using resolve_row_open [OF rk] free by auto
    then show ?thesis using True R' by (simp add: rk'_def m_def)
  next
    case False
    then have l': "row_lookup s x = Some (Open t w)" using l s' by simp
    then have "?ends x \<longleftrightarrow> ?ends w"
      using resolve_row_open [OF rk, of "{}" x] tail_resolve_open [OF rk, of t w "{}"] by simp
    moreover have "rk w < rk x" using rk l' by (auto simp: ranked_def)
    ultimately show ?thesis by (simp add: rk'_def)
  qed
  then show ?thesis unfolding ranked_def by blast
qed

lemma bind_resolve:
  assumes rk: "ranked s rk" and free: "row_lookup s v = None"
    and R: "\<And>t. tail_of R = Some t \<Longrightarrow> t \<noteq> v \<and> row_lookup s t = None"
    and s': "row_lookup s' = (row_lookup s)(v \<mapsto> R)"
  shows "resolve_row s' r = plug v R (resolve_row s r)"
proof -
  obtain rk' where rk': "ranked s' rk'" using bind_ranked [OF assms] by blast
  have R': "resolve_row s' R = R"
    using R s' resolve_row_open [OF rk'] by (cases R) auto
  show ?thesis
  proof (induction "case r of Open _ w \<Rightarrow> Suc (rk w) | Closed _ \<Rightarrow> 0" arbitrary: r rule: less_induct)
    case less
    show ?case
    proof (cases r)
      case (Closed x)
      then show ?thesis by (simp add: plug_def)
    next
      case (Open b w)
      show ?thesis
      proof (cases "w = v")
        case True
        then show ?thesis
          using Open s' free R' resolve_row_open [OF rk, of b v] resolve_row_open [OF rk', of b v]
          by (simp add: plug_def)
      next
        case False
        show ?thesis
        proof (cases "row_lookup s w")
          case None
          then show ?thesis
            using Open False s' resolve_row_open [OF rk, of b w] resolve_row_open [OF rk', of b w]
            by (simp add: plug_def)
        next
          case (Some q)
          moreover have "(case q of Open _ w \<Rightarrow> Suc (rk w) | Closed _ \<Rightarrow> 0) < Suc (rk w)"
            using rk Some by (auto simp: ranked_def split: effect_row.splits)
          ultimately have "resolve_row s' q = plug v R (resolve_row s q)" using less.hyps Open by simp
          then show ?thesis
            using Open False Some s' resolve_row_open [OF rk, of b w] resolve_row_open [OF rk', of b w]
            by (simp add: plug_add)
        qed
      qed
    qed
  qed
qed

lemma occurs_in_simps [simp]:
  "occurs_in s v (Closed x) = Some False"
  "w \<noteq> v \<Longrightarrow> row_lookup s w = None \<Longrightarrow> occurs_in s v (Open x w) = Some False"
  by (subst occurs_in.simps, simp)+

text \<open>Extending a substitution at a free variable with a row whose tail is free.\<close>

lemma row_extend:
  assumes ok: "row_ok s" and free: "row_lookup s v = None" "v < row_next s"
    and R: "\<And>t. tail_of R = Some t \<Longrightarrow> t \<noteq> v \<and> row_lookup s t = None \<and> t < row_next s"
    and s': "bt_inv (row_bindings s')" "row_next s' = row_next s" "row_lookup s' = (row_lookup s)(v \<mapsto> R)"
  shows "row_ok s'" "resolve_row s' r = plug v R (resolve_row s r)"
proof -
  obtain rk where rk: "ranked s rk" using ok by (auto simp: row_ok_def)
  show "resolve_row s' r = plug v R (resolve_row s r)" using bind_resolve [OF rk free(1) _ s'(3)] R by blast
  show "row_ok s'"
    unfolding row_ok_def
  proof (intro conjI)
    show "bt_inv (row_bindings s')" by (rule s'(1))
    show "\<exists>rk. ranked s' rk" using bind_ranked [OF rk free(1) _ s'(3)] R by blast
    show "\<forall>w r. row_lookup s' w = Some r \<longrightarrow> w < row_next s' \<and> known_row s' r"
      using ok R free(2) unfolding s'(3) by (auto simp: row_ok_def known_row_def s'(2))
  qed
qed

definition bound :: "row_subst \<Rightarrow> row_var \<Rightarrow> effect_row \<Rightarrow> row_subst" where
  "bound s v r = s\<lparr>row_bindings := bt_insert (row_bindings s) (v, r)\<rparr>"

lemma bound_simps [simp]:
  "row_next (bound s v r) = row_next s"
  "bt_inv (row_bindings s) \<Longrightarrow> bt_inv (row_bindings (bound s v r))"
  "bt_inv (row_bindings s) \<Longrightarrow> row_lookup (bound s v r) = (row_lookup s)(v \<mapsto> r)"
  by (auto simp: bound_def bt.inv_put fun_eq_iff)

lemma row_bind_bound:
  "(\<And>t. tail_of r = Some t \<Longrightarrow> t \<noteq> v \<and> row_lookup s t = None) \<Longrightarrow> row_bind v r s = Some (bound s v r, Inr ())"
  by (cases r) (auto simp: row_bind_def bound_def)

lemma row_fresh_ok:
  assumes "row_ok s"
  shows "row_ok (fst (row_fresh s))" "row_lookup (fst (row_fresh s)) = row_lookup s"
    "row_lookup s (row_next s) = None"
    "resolve_row (fst (row_fresh s)) r = resolve_row s r"
proof -
  show l: "row_lookup (fst (row_fresh s)) = row_lookup s" by (simp add: row_fresh_def row_lookup_def fun_eq_iff)
  show "row_lookup s (row_next s) = None" using assms by (cases "row_lookup s (row_next s)") (auto simp: row_ok_def)
  have b: "row_bindings (fst (row_fresh s)) = row_bindings s" "row_next (fst (row_fresh s)) = Suc (row_next s)"
    by (simp_all add: row_fresh_def)
  show "row_ok (fst (row_fresh s))"
    using assms unfolding row_ok_def l b ranked_def known_row_def by (meson less_SucI)
  obtain rk where rk: "ranked s rk" using assms by (auto simp: row_ok_def)
  then have rk': "ranked (fst (row_fresh s)) rk" by (simp add: ranked_def l)
  show "resolve_row (fst (row_fresh s)) r = resolve_row s r"
  proof (induction "case r of Open _ w \<Rightarrow> Suc (rk w) | Closed _ \<Rightarrow> 0" arbitrary: r rule: less_induct)
    case less
    have "resolve_row (fst (row_fresh s)) q = resolve_row s q" if "row_lookup s w = Some q" "r = Open b w" for q w b
      using that rk by (intro less.hyps) (auto simp: ranked_def split: effect_row.splits)
    then show ?case
      by (cases r) (auto simp: resolve_row_open [OF rk] resolve_row_open [OF rk'] l split: option.splits)
  qed
qed

section \<open>Unification\<close>

lemma row_ok_inv: "row_ok s \<Longrightarrow> bt_inv (row_bindings s)"
  by (simp add: row_ok_def)

lemma resolve_tail_ok:
  assumes ok: "row_ok s" and k: "known_row s r" and r: "resolve_row s r = Open a v"
  shows "row_lookup s v = None" "v < row_next s"
proof -
  obtain rk where rk: "ranked s rk" using ok by (auto simp: row_ok_def)
  show "row_lookup s v = None" by (rule resolve_row_tail [OF rk r])
  show "v < row_next s" using resolve_known [OF ok k] r by (simp add: known_row_def)
qed

lemma closing_bind:
  assumes "row_ok s" "known_row s r" "resolve_row s r = Open b w"
  shows "row_bind w (Closed x) s = Some (bound s w (Closed x), Inr ())"
    "row_ok (bound s w (Closed x))"
    "resolve_row (bound s w (Closed x)) q = plug w (Closed x) (resolve_row s q)"
  using row_extend [OF assms(1) resolve_tail_ok [OF assms], of "Closed x" "bound s w (Closed x)"]
    row_ok_inv [OF assms(1)] by (auto intro: row_bind_bound)

lemma unify_open_open:
  assumes ok: "row_ok s" and k: "known_row s l" "known_row s r"
    and l: "resolve_row s l = Open a v" and r: "resolve_row s r = Open b w" and ne: "\<not> (v = w \<and> a = b)"
  shows "\<exists>s'. unify_rows s l r = Some (s', Inr ()) \<and> row_ok s' \<and>
     (resolve_row s' l = resolve_row s' r \<longleftrightarrow> (v = w \<longrightarrow> b \<subseteq> a))"
proof -
  define s1 where "s1 = fst (row_fresh s)"
  define f where "f = row_next s"
  have fr: "row_fresh s = (s1, f)" by (simp add: s1_def f_def row_fresh_def)
  have n1: "row_next s1 = Suc f" by (simp add: s1_def f_def row_fresh_def)
  have ok1: "row_ok s1" and l1: "row_lookup s1 = row_lookup s" and res1: "\<And>q. resolve_row s1 q = resolve_row s q"
    and lf: "row_lookup s1 f = None"
    using row_fresh_ok [OF ok] by (simp_all add: s1_def f_def)
  have v: "row_lookup s1 v = None" "v < f" and w: "row_lookup s1 w = None" "w < f"
    using resolve_tail_ok [OF ok k(1) l] resolve_tail_ok [OF ok k(2) r] by (simp_all add: l1 f_def)
  define s2 where "s2 = bound s1 v (Open (b - a) f)"
  define s3 where "s3 = bound s2 w (Open (a - b) f)"
  have inv1: "bt_inv (row_bindings s1)" by (rule row_ok_inv [OF ok1])
  have l2: "row_lookup s2 = (row_lookup s1)(v \<mapsto> Open (b - a) f)" and inv2: "bt_inv (row_bindings s2)"
    and n2: "row_next s2 = row_next s1"
    using inv1 by (simp_all add: s2_def)
  have "row_bind v (Open (b - a) f) s1 = Some (s2, Inr ())"
    unfolding s2_def using v lf by (intro row_bind_bound) auto
  moreover have "row_bind w (Open (a - b) f) s2 = Some (s3, Inr ())"
    unfolding s3_def using v w lf by (intro row_bind_bound) (auto simp: l2)
  ultimately have u: "unify_rows s l r = Some (s3, Inr ())"
    using ne by (auto simp: unify_rows_def l r fr)
  have l3: "row_lookup s3 = (row_lookup s2)(w \<mapsto> Open (a - b) f)" and inv3: "bt_inv (row_bindings s3)"
    and n3: "row_next s3 = row_next s2"
    using inv2 by (simp_all add: s3_def)
  show ?thesis
  proof (cases "v = w")
    case True
    have l3': "row_lookup s3 = (row_lookup s1)(v \<mapsto> Open (a - b) f)" by (simp add: l3 l2 True)
    have e: "row_ok s3" "\<And>q. resolve_row s3 q = plug v (Open (a - b) f) (resolve_row s1 q)"
      using row_extend [OF ok1 v(1) _ _ inv3 _ l3'] v n1 n2 n3 lf by auto
    have "resolve_row s3 l = resolve_row s3 r \<longleftrightarrow> b \<subseteq> a" using True by (auto simp: e(2) res1 l r plug_def)
    then show ?thesis using u e(1) True by blast
  next
    case False
    have e2: "row_ok s2" "\<And>q. resolve_row s2 q = plug v (Open (b - a) f) (resolve_row s1 q)"
      using row_extend [OF ok1 v(1) _ _ inv2 n2 l2] v n1 lf by auto
    have e3: "row_ok s3" "\<And>q. resolve_row s3 q = plug w (Open (a - b) f) (resolve_row s2 q)"
      using row_extend [OF e2(1) _ _ _ inv3 n3 l3] w v n1 n2 lf False by (auto simp: l2)
    have "resolve_row s3 l = resolve_row s3 r"
      using False v w by (auto simp: e3(2) e2(2) res1 l r plug_def)
    then show ?thesis using u e3(1) False by blast
  qed
qed

text \<open>C10. On a substitution built by unification (\<open>row_ok\<close>: acyclic, only variables already
  handed out) and rows over those variables, \<open>unify_rows\<close> always returns and keeps the
  substitution well formed. It fails only with a \<open>ClosedMismatch\<close> of the two resolved effect sets,
  leaving the substitution as it was; when it succeeds, both rows resolve to the same row, except
  in one case: two rows with the same tail variable where the second has an effect that the first
  has not. There the second bind overwrites the first and the rows stay different although the
  result is \<open>Ok\<close>.\<close>

theorem unify_rows_sound:
  assumes "row_ok s" "known_row s l" "known_row s r"
  shows "\<exists>s' res. unify_rows s l r = Some (s', res) \<and> row_ok s' \<and>
    (case res of
       Inl e \<Rightarrow> s' = s \<and> e = ClosedMismatch (row_concrete (resolve_row s l)) (row_concrete (resolve_row s r))
     | Inr _ \<Rightarrow> resolve_row s' l = resolve_row s' r \<longleftrightarrow>
         \<not> (\<exists>a b v. resolve_row s l = Open a v \<and> resolve_row s r = Open b v \<and> \<not> b \<subseteq> a))"
proof (cases "resolve_row s l"; cases "resolve_row s r")
  fix a b assume "resolve_row s l = Closed a" "resolve_row s r = Closed b"
  then show ?thesis using assms(1) by (simp add: unify_rows_def)
next
  fix a b w assume e: "resolve_row s l = Closed a" "resolve_row s r = Open b w"
  show ?thesis
    using assms(1) closing_bind [OF assms(1,3) e(2), of "a - b"] e
    by (cases "b \<subseteq> a") (auto simp: unify_rows_def plug_def)
next
  fix a v b assume e: "resolve_row s l = Open a v" "resolve_row s r = Closed b"
  show ?thesis
    using assms(1) closing_bind [OF assms(1,2) e(1), of "b - a"] e
    by (cases "a \<subseteq> b") (auto simp: unify_rows_def plug_def)
next
  fix a v b w assume e: "resolve_row s l = Open a v" "resolve_row s r = Open b w"
  show ?thesis
  proof (cases "v = w \<and> a = b")
    case True
    then show ?thesis using assms(1) e by (simp add: unify_rows_def)
  next
    case False
    then obtain s' where "unify_rows s l r = Some (s', Inr ())" "row_ok s'"
      "resolve_row s' l = resolve_row s' r \<longleftrightarrow> (v = w \<longrightarrow> b \<subseteq> a)"
      using unify_open_open [OF assms e] by blast
    then show ?thesis using e by auto
  qed
qed

lemma row_ok_two: "row_ok \<lparr>row_next = 2, row_bindings = []\<rparr>"
  by (simp add: row_ok_def ranked_def row_lookup_def bt_get_def bt.inv_emp)

theorem unify_rows_sound_witness:
  "\<exists>s' res. unify_rows \<lparr>row_next = 2, row_bindings = []\<rparr> (Open {1} 0) (Open {2} 1) = Some (s', res) \<and> row_ok s'"
proof -
  have "known_row \<lparr>row_next = 2, row_bindings = []\<rparr> (Open {1} 0)"
    "known_row \<lparr>row_next = 2, row_bindings = []\<rparr> (Open {2} 1)"
    by (simp_all add: known_row_def)
  from unify_rows_sound [OF row_ok_two this] show ?thesis by blast
qed

section \<open>Calls of row-polymorphic functions\<close>

text \<open>The signature entries whose return row is the row variable of a closure parameter.\<close>

definition closure_sigs :: "(row_poly_sig \<times> nat) list" where
  "closure_sigs = [(single_row_closure_sig, 1), (stdlib_list_map_sig, 1), (stdlib_list_fold_sig, 2)]"

lemma materialise_closure:
  assumes "(sig, i) \<in> set closure_sigs" "row_ok s"
  shows "instantiate_row_sig sig s =
    (fst (row_fresh s), map (\<lambda>j. if j = i then Some (Open {} (row_next s)) else None) [0..<Suc i],
     Open {} (row_next s), [row_next s])"
  using assms by (auto simp: closure_sigs_def instantiate_row_sig_def single_row_closure_sig_def
      stdlib_list_map_sig_def stdlib_list_fold_sig_def row_fresh_def numeral_2_eq_2)

lemma fresh_unbound:
  assumes ok: "row_ok s"
  shows "resolve_row (fst (row_fresh s)) (Open a (row_next s)) = Open a (row_next s)"
proof -
  obtain rk where rk: "ranked s rk" using ok by (auto simp: row_ok_def)
  show ?thesis using row_fresh_ok(4) [OF ok] resolve_row_open [OF rk] row_fresh_ok(3) [OF ok] by simp
qed

lemma closure_unify:
  fixes s effs
  defines "s1 \<equiv> fst (row_fresh s)" and "f \<equiv> row_next s"
  assumes ok: "row_ok s"
  shows "unify_rows s1 (Open {} f) (Closed effs) = Some (bound s1 f (Closed effs), Inr ())"
    "row_ok (bound s1 f (Closed effs))"
    "resolve_row (bound s1 f (Closed effs)) (Open {} f) = Closed effs"
    "known_row s q \<Longrightarrow> resolve_row (bound s1 f (Closed effs)) q = resolve_row s q"
proof -
  have ok1: "row_ok s1" using row_fresh_ok(1) [OF ok] by (simp add: s1_def)
  have kf: "known_row s1 (Open {} f)" by (simp add: known_row_def s1_def f_def row_fresh_def)
  have of: "resolve_row s1 (Open {} f) = Open {} f" unfolding s1_def f_def by (rule fresh_unbound [OF ok])
  note b = closing_bind [OF ok1 kf of, of effs]
  show "unify_rows s1 (Open {} f) (Closed effs) = Some (bound s1 f (Closed effs), Inr ())"
    using b(1) by (simp add: unify_rows_def of)
  show "row_ok (bound s1 f (Closed effs))" by (rule b(2))
  show "resolve_row (bound s1 f (Closed effs)) (Open {} f) = Closed effs" by (simp add: b(3) of plug_def)
  assume "known_row s q"
  from resolve_known [OF ok this] show "resolve_row (bound s1 f (Closed effs)) q = resolve_row s q"
    unfolding b(3) by (cases "resolve_row s q")
      (auto simp: plug_def known_row_def f_def s1_def row_fresh_ok(4) [OF ok])
qed

text \<open>C33. The effects of a closure argument become the effects of the call. For every
  closure-taking signature of the standard library (\<open>List.map\<close>, \<open>List.fold\<close> and the shared
  single-closure shape) and every well-formed substitution, instantiating the signature gives fresh
  rows such that unifying the closure parameter with the closed row of an actual closure succeeds
  and the call's return row resolves to exactly the closure's effects; rows that were known before
  resolve as before.\<close>

theorem closure_effects_propagate:
  assumes "(sig, i) \<in> set closure_sigs" "row_ok s"
  shows "case instantiate_row_sig sig s of (s1, params, ret, _) \<Rightarrow>
    \<exists>p s2. params ! i = Some p \<and> unify_rows s1 p (Closed effs) = Some (s2, Inr ()) \<and> row_ok s2 \<and>
      resolve_row s2 ret = Closed effs \<and> (\<forall>q. known_row s q \<longrightarrow> resolve_row s2 q = resolve_row s q)"
proof -
  have "map (\<lambda>j. if j = i then Some (Open {} (row_next s)) else None) [0..<Suc i] ! i = Some (Open {} (row_next s))"
    by (simp add: nth_append)
  then show ?thesis using closure_unify [OF assms(2)] by (simp add: materialise_closure [OF assms])
qed

theorem closure_effects_propagate_witness:
  "case instantiate_row_sig stdlib_list_fold_sig \<lparr>row_next = 2, row_bindings = []\<rparr> of (s1, params, ret, _) \<Rightarrow>
    \<exists>p s2. params ! 2 = Some p \<and> unify_rows s1 p (Closed {7}) = Some (s2, Inr ()) \<and>
      resolve_row s2 ret = Closed {7}"
  using closure_effects_propagate [OF _ row_ok_two, of stdlib_list_fold_sig 2 "{7}"]
  by (auto simp: closure_sigs_def)

end
