(* ===== verification/Ty_Defs.thy ===== *)
theory Ty_Defs
  imports Ty_Rows Hir_Nodes
begin

text \<open>
  The definition tables of the type checker, \<^verbatim>\<open>crates/mty-types/src/defs.rs\<close>: algebraic types,
  functions, constants, modules, effects and built-in methods, with the allocation and look-up
  operations on them. Vectors are lists indexed by the identifiers they hand out; hash maps are
  maps, except the effect table, whose size decides the next identifier and whose entries are
  searched by value: it is the list of its entries. The trait, protocol and \<open>impl\<close> tables are
  only read by passes that are not modelled and are left out of the record. The table of
  row-polymorphic built-in methods is the one \<^verbatim>\<open>crates/mty-types/src/prelude.rs\<close> installs.
\<close>

section \<open>Tables\<close>

type_synonym fn_def_id = nat
type_synonym fn_id = nat
type_synonym const_def_id = nat
type_synonym module_id = nat

datatype adt_kind = AdtStruct | AdtEnum | AdtOpaque

record param_def =
  pd_name :: string
  pd_bounds :: "ty_id list"

record field_def =
  fld_name :: "string option"
  fld_ty :: ty_id

record variant_def =
  vd_name :: string
  vd_fields :: "field_def list"

record adt_def =
  ad_name :: string
  ad_kind :: adt_kind
  ad_generics :: "param_def list"
  ad_param_ids :: "param_id list"
  ad_variants :: "variant_def list"

record fn_def =
  fd_name :: string
  fd_generics :: "param_def list"
  fd_param_ids :: "param_id list"
  fd_params :: "(string \<times> ty_id) list"
  fd_ret :: ty_id
  fd_effects :: "effect_id list"
  fd_is_pub :: bool
  fd_body :: "block option"
  fd_hir_fn :: "fn_id option"
  fd_extern_abi :: "string option"
  fd_is_variadic :: bool
  fd_mut_params :: "bool list"

datatype def_ref =
    DAdt adt_id
  | DFn fn_def_id
  | DVariant adt_id nat
  | DModule module_id
  | DParam param_id
  | DConst const_def_id

record const_def =
  cd_name :: string
  cd_ty :: ty_id
  cd_init :: expr
  cd_is_pub :: bool

record builtin_method =
  bm_arity :: "nat option"
  bm_ret :: "ty_id option"
  bm_row_sig :: "row_poly_sig option"

record def_map =
  dm_adts :: "adt_def list"
  dm_fns :: "fn_def list"
  dm_consts :: "const_def list"
  dm_by_name :: "string \<rightharpoonup> def_ref"
  dm_effects :: "(string \<times> effect_id) list"
  dm_modules :: "string list"
  dm_module_by_name :: "string \<rightharpoonup> module_id"
  dm_builtin_methods :: "string \<rightharpoonup> builtin_method"
  dm_params :: "param_def list"
  dm_user_copy :: "adt_id set"
  dm_user_sendable :: "adt_id set"
  dm_handler_safe :: "adt_id set"

definition DefMap_default :: def_map where
  "DefMap_default = \<lparr>dm_adts = [], dm_fns = [], dm_consts = [], dm_by_name = Map.empty, dm_effects = [],
     dm_modules = [], dm_module_by_name = Map.empty, dm_builtin_methods = Map.empty, dm_params = [],
     dm_user_copy = {}, dm_user_sendable = {}, dm_handler_safe = {}\<rparr>"

section \<open>Operations\<close>

definition vec_get :: "'a list \<Rightarrow> nat \<Rightarrow> 'a option" where
  "vec_get xs i = (if i < length xs then Some (xs ! i) else None)"

definition adt_of :: "def_map \<Rightarrow> adt_id \<Rightarrow> adt_def option" where
  "adt_of d i = vec_get (dm_adts d) i"

definition fn_def_of :: "def_map \<Rightarrow> fn_def_id \<Rightarrow> fn_def option" where
  "fn_def_of d i = vec_get (dm_fns d) i"

definition const_def_of :: "def_map \<Rightarrow> const_def_id \<Rightarrow> const_def option" where
  "const_def_of d i = vec_get (dm_consts d) i"

definition intern_effect :: "string \<Rightarrow> def_map \<Rightarrow> def_map \<times> effect_id" where
  "intern_effect name d =
     (case map_of (dm_effects d) name of
        Some i \<Rightarrow> (d, i)
      | None \<Rightarrow> let i = length (dm_effects d) in (d\<lparr>dm_effects := dm_effects d @ [(name, i)]\<rparr>, i))"

definition alloc_adt :: "adt_def \<Rightarrow> def_map \<Rightarrow> def_map \<times> adt_id" where
  "alloc_adt def d = (d\<lparr>dm_adts := dm_adts d @ [def]\<rparr>, length (dm_adts d))"

definition alloc_fn :: "fn_def \<Rightarrow> def_map \<Rightarrow> def_map \<times> fn_def_id" where
  "alloc_fn def d = (d\<lparr>dm_fns := dm_fns d @ [def]\<rparr>, length (dm_fns d))"

definition alloc_const :: "const_def \<Rightarrow> def_map \<Rightarrow> def_map \<times> const_def_id" where
  "alloc_const def d = (d\<lparr>dm_consts := dm_consts d @ [def]\<rparr>, length (dm_consts d))"

definition alloc_param :: "param_def \<Rightarrow> def_map \<Rightarrow> def_map \<times> param_id" where
  "alloc_param def d = (d\<lparr>dm_params := dm_params d @ [def]\<rparr>, length (dm_params d))"

definition alloc_module :: "string \<Rightarrow> def_map \<Rightarrow> def_map \<times> module_id" where
  "alloc_module name d =
     (case dm_module_by_name d name of
        Some i \<Rightarrow> (d, i)
      | None \<Rightarrow> let i = length (dm_modules d)
          in (d\<lparr>dm_modules := dm_modules d @ [name],
                dm_module_by_name := (dm_module_by_name d)(name \<mapsto> i)\<rparr>, i))"

definition lookup_def :: "def_map \<Rightarrow> string \<Rightarrow> def_ref option" where
  "lookup_def d name = dm_by_name d name"

definition is_handler_safe_name :: "def_map \<Rightarrow> string \<Rightarrow> bool" where
  "is_handler_safe_name d name =
     (case lookup_def d name of Some (DAdt a) \<Rightarrow> a \<in> dm_handler_safe d | _ \<Rightarrow> False)"

text \<open>The loop of \<open>lookup_path\<close> over the prefixes of the path, the longest first.\<close>

fun lookup_prefixes :: "def_map \<Rightarrow> string list \<Rightarrow> nat \<Rightarrow> def_ref option" where
  "lookup_prefixes d segs 0 = None"
| "lookup_prefixes d segs (Suc n) =
     (case lookup_def d (str_join ''.'' (take (Suc n) segs)) of
        Some (DModule m) \<Rightarrow> Some (DModule m)
      | _ \<Rightarrow> lookup_prefixes d segs n)"

fun lookup_path :: "def_map \<Rightarrow> string list \<Rightarrow> def_ref option" where
  "lookup_path d [] = None"
| "lookup_path d [s] = lookup_def d s"
| "lookup_path d (s # t # us) =
     (case lookup_def d (str_join ''.'' (s # t # us)) of
        Some r \<Rightarrow> Some r
      | None \<Rightarrow>
          (case lookup_prefixes d (s # t # us) (Suc (length us)) of
             Some r \<Rightarrow> Some r
           | None \<Rightarrow> (case lookup_def d s of Some (DModule m) \<Rightarrow> Some (DModule m) | _ \<Rightarrow> None)))"

section \<open>Row-polymorphic built-in methods\<close>

definition row_poly_methods :: "(string \<times> row_poly_sig) list" where
  "row_poly_methods =
     [(''map'', stdlib_list_map_sig), (''filter'', single_row_closure_sig), (''fold'', stdlib_list_fold_sig),
      (''flat_map'', single_row_closure_sig), (''for_each'', single_row_closure_sig),
      (''find'', single_row_closure_sig), (''any'', single_row_closure_sig), (''all'', single_row_closure_sig),
      (''collect'', stdlib_iter_collect_sig), (''and_then'', single_row_closure_sig),
      (''or_else'', single_row_closure_sig), (''map_err'', single_row_closure_sig)]"

definition register_row_poly :: "def_map \<Rightarrow> string \<times> row_poly_sig \<Rightarrow> def_map" where
  "register_row_poly d p =
     (let e = (case dm_builtin_methods d (fst p) of
                 Some b \<Rightarrow> b
               | None \<Rightarrow> \<lparr>bm_arity = None, bm_ret = None, bm_row_sig = None\<rparr>)
      in d\<lparr>dm_builtin_methods := (dm_builtin_methods d)(fst p \<mapsto> e\<lparr>bm_row_sig := Some (snd p)\<rparr>)\<rparr>)"

definition install_row_poly_methods :: "def_map \<Rightarrow> def_map" where
  "install_row_poly_methods d = foldl register_row_poly d row_poly_methods"

definition row_sig_of :: "def_map \<Rightarrow> string \<Rightarrow> row_poly_sig option" where
  "row_sig_of d m = Option.bind (dm_builtin_methods d m) bm_row_sig"

section \<open>Effect names\<close>

definition effect_name :: "def_map \<Rightarrow> effect_id \<Rightarrow> string option" where
  "effect_name d e = map_option fst (List.find (\<lambda>p. snd p = e) (dm_effects d))"

definition effects_ok :: "def_map \<Rightarrow> bool" where
  "effects_ok d \<longleftrightarrow> distinct (map fst (dm_effects d)) \<and> map snd (dm_effects d) = [0..<length (dm_effects d)]"

lemma effects_ok_nth: "effects_ok d \<Longrightarrow> i < length (dm_effects d) \<Longrightarrow> snd (dm_effects d ! i) = i"
  unfolding effects_ok_def by (metis add_0 length_map nth_map nth_upt)

lemma effect_name_iff:
  assumes ok: "effects_ok d"
  shows "effect_name d i = Some n \<longleftrightarrow> map_of (dm_effects d) n = Some i"
proof -
  let ?es = "dm_effects d"
  have d1: "distinct (map fst ?es)" and d2: "distinct (map snd ?es)" using ok by (auto simp: effects_ok_def)
  have find: "List.find (\<lambda>p. snd p = i) ?es = Some p \<longleftrightarrow> p \<in> set ?es \<and> snd p = i" for p
  proof
    assume p: "p \<in> set ?es \<and> snd p = i"
    then obtain q where q: "List.find (\<lambda>p. snd p = i) ?es = Some q"
      by (cases p; cases "List.find (\<lambda>p. snd p = i) ?es") (auto simp: find_None_iff)
    then have "q \<in> set ?es" "snd q = i" by (auto dest: find_SomeD)
    then show "List.find (\<lambda>p. snd p = i) ?es = Some p"
      using p q d2 by (auto simp: distinct_map inj_on_def)
  qed (auto dest: find_SomeD)
  show ?thesis using d1 by (auto simp: effect_name_def find)
qed

lemma intern_effect_step:
  assumes ok: "effects_ok d" and i: "intern_effect n d = (d', i)"
  shows "effects_ok d'" "map_of (dm_effects d') n = Some i" "dm_effects d' = dm_effects d \<or> map_of (dm_effects d) n = None"
    "map_of (dm_effects d) \<subseteq>\<^sub>m map_of (dm_effects d')" "\<lbrakk>map_of (dm_effects d') m = Some j; m \<noteq> n\<rbrakk> \<Longrightarrow> map_of (dm_effects d) m = Some j"
  using ok i
  by (auto simp: intern_effect_def Let_def effects_ok_def map_le_def map_add_def map_of_eq_None_iff image_iff
      dom_def split: option.splits if_splits) force

text \<open>Effect interning: starting from a table whose names are distinct and whose
  identifiers are the positions (the empty table is one), interning a name keeps it so and gives an
  identifier whose name it is; every effect that had an identifier keeps it, two different names never
  share one, and interning the same name again changes nothing.\<close>

theorem intern_effect_names:
  assumes "effects_ok d" "intern_effect n d = (d', i)"
  shows "effects_ok d' \<and> effect_name d' i = Some n \<and>
    (\<forall>j m. effect_name d j = Some m \<longrightarrow> effect_name d' j = Some m) \<and>
    (\<forall>m. m \<noteq> n \<longrightarrow> effect_name d' i \<noteq> Some m) \<and> intern_effect n d' = (d', i)"
proof -
  note st = intern_effect_step [OF assms]
  have "effect_name d' j = Some m" if "effect_name d j = Some m" for j m
    using that st(4) unfolding effect_name_iff [OF assms(1)] effect_name_iff [OF st(1)]
    by (metis domI map_le_def)
  moreover have "effect_name d' i = Some n" using st(2) by (simp add: effect_name_iff [OF st(1)])
  moreover have "intern_effect n d' = (d', i)" using st(2) by (simp add: intern_effect_def)
  ultimately show ?thesis using st(1) by simp
qed

lemma effects_ok_default: "effects_ok DefMap_default"
  by (simp add: effects_ok_def DefMap_default_def)

theorem intern_effect_names_witness:
  "effect_name (fst (intern_effect ''alloc'' DefMap_default)) 0 = Some ''alloc''"
proof -
  have "intern_effect ''alloc'' DefMap_default = (fst (intern_effect ''alloc'' DefMap_default), 0)"
    by (simp add: intern_effect_def DefMap_default_def)
  from intern_effect_names [OF effects_ok_default this] show ?thesis by blast
qed

section \<open>The installed signatures\<close>

definition row_table_ok :: "def_map \<Rightarrow> bool" where
  "row_table_ok d \<longleftrightarrow> (\<forall>m sig. row_sig_of d m = Some sig \<longrightarrow> (m, sig) \<in> set row_poly_methods)"

lemma register_row_poly_sig:
  "row_sig_of (register_row_poly d p) m = (if m = fst p then Some (snd p) else row_sig_of d m)"
  by (auto simp: register_row_poly_def row_sig_of_def Let_def)

lemma register_all_sig:
  "row_sig_of (foldl register_row_poly d ps) m = (map_of (rev ps) m) \<or>
   map_of (rev ps) m = None \<and> row_sig_of (foldl register_row_poly d ps) m = row_sig_of d m"
  by (induction ps rule: rev_induct) (auto simp: register_row_poly_sig)

lemma install_row_table_ok:
  assumes "\<And>m b. dm_builtin_methods d m = Some b \<Longrightarrow> bm_row_sig b = None"
  shows "row_table_ok (install_row_poly_methods d)"
proof -
  have "row_sig_of d m = None" for m using assms by (cases "dm_builtin_methods d m") (auto simp: row_sig_of_def)
  then show ?thesis
    using register_all_sig [of d row_poly_methods] map_of_SomeD [of "rev row_poly_methods"]
    unfolding row_table_ok_def install_row_poly_methods_def by (metis option.distinct(1) set_rev)
qed

end
