(* ===== verification/Borrow_Copy.thy ===== *)
theory Borrow_Copy
  imports Ty_Defs
begin

text \<open>
  The copy and sendable predicates of the borrow checker, \<^verbatim>\<open>crates/mty-borrow/src/copy.rs\<close> and
  \<^verbatim>\<open>sendable.rs\<close>, over arena indices. \<open>is_copy\<close> descends along the children of a node, which have
  smaller indices, so the index itself bounds the recursion. \<open>is_sendable\<close> also descends into the
  fields of user types, which may be recursive: the code keeps the types on the current path in a
  stack and answers yes when it meets one again. That recursion carries fuel; on a well-formed arena
  the fuel chosen is enough. The result is then compared with its meaning as reachability.
\<close>

section \<open>Copy\<close>

fun is_copy_upto :: "nat \<Rightarrow> ty_arena \<Rightarrow> def_map \<Rightarrow> ty_id \<Rightarrow> bool" where
  "is_copy_upto 0 A D t = False"
| "is_copy_upto (Suc n) A D t =
     (case arena_get A t of
        TBool \<Rightarrow> True | TChar \<Rightarrow> True | TStr \<Rightarrow> True | TUnit \<Rightarrow> True | TNever \<Rightarrow> True
      | TDuration \<Rightarrow> True | TSize \<Rightarrow> True | TError \<Rightarrow> True | TModule _ \<Rightarrow> True
      | TInt _ \<Rightarrow> True | TFloat _ \<Rightarrow> True
      | TString \<Rightarrow> False | TBytes \<Rightarrow> False
      | TRawPtr _ \<Rightarrow> True
      | TRef mutable _ \<Rightarrow> \<not> mutable
      | TFn _ _ _ \<Rightarrow> True
      | TTuple xs \<Rightarrow> list_all (is_copy_upto n A D) xs
      | TArray elem _ \<Rightarrow> is_copy_upto n A D elem
      | TAdt i _ \<Rightarrow>
          i \<in> dm_user_copy D \<or>
          (case map_option ad_kind (adt_of D i) of
             Some AdtOpaque \<Rightarrow> True | Some AdtStruct \<Rightarrow> False | Some AdtEnum \<Rightarrow> False | None \<Rightarrow> True)
      | TVar _ \<Rightarrow> False | TParam _ \<Rightarrow> False
      | TCap _ _ \<Rightarrow> False
      | TDyn _ \<Rightarrow> False)"

definition is_copy :: "ty_id \<Rightarrow> ty_arena \<Rightarrow> def_map \<Rightarrow> bool" where
  "is_copy t A D = is_copy_upto (Suc t) A D t"

section \<open>Sendable\<close>

text \<open>\<open>Iterator::all\<close>: stops at the first element that fails.\<close>

fun all_opt :: "('a \<Rightarrow> bool option) \<Rightarrow> 'a list \<Rightarrow> bool option" where
  "all_opt f [] = Some True"
| "all_opt f (x # xs) =
     (case f x of None \<Rightarrow> None | Some False \<Rightarrow> Some False | Some True \<Rightarrow> all_opt f xs)"

fun is_sendable_inner :: "nat \<Rightarrow> ty_id \<Rightarrow> ty_arena \<Rightarrow> def_map \<Rightarrow> ty_id list \<Rightarrow> bool option" where
  "is_sendable_inner 0 t A D visiting = None"
| "is_sendable_inner (Suc n) t A D visiting =
     (if t \<in> set visiting then Some True
      else case arena_get A t of
        TRef _ _ \<Rightarrow> Some False
      | TRawPtr _ \<Rightarrow> Some False
      | TFn _ _ _ \<Rightarrow> Some False
      | TTuple xs \<Rightarrow> all_opt (\<lambda>c. is_sendable_inner n c A D (t # visiting)) xs
      | TArray elem _ \<Rightarrow> is_sendable_inner n elem A D visiting
      | ty \<Rightarrow>
          if is_copy t A D then Some True
          else case ty of
            TAdt i _ \<Rightarrow>
              (case map_option ad_kind (adt_of D i) of
                 None \<Rightarrow> Some True
               | Some AdtOpaque \<Rightarrow> Some True
               | Some _ \<Rightarrow>
                   (case adt_of D i of
                      Some def \<Rightarrow>
                        all_opt (\<lambda>v. all_opt (\<lambda>f. is_sendable_inner n (fld_ty f) A D (t # visiting)) (vd_fields v))
                          (ad_variants def)
                    | None \<Rightarrow> Some True))
          | _ \<Rightarrow> Some True)"

definition sendable_fuel :: "ty_arena \<Rightarrow> nat" where
  "sendable_fuel A = Suc (length (storage A)) * Suc (length (storage A))"

definition is_sendable :: "ty_id \<Rightarrow> ty_arena \<Rightarrow> def_map \<Rightarrow> bool" where
  "is_sendable t A D = (is_sendable_inner (sendable_fuel A) t A D [] = Some True)"

section \<open>Copy on a well-formed arena\<close>

lemma is_copy_upto_stable:
  "arena_ok A \<Longrightarrow> t < length (storage A) \<Longrightarrow> t < n \<Longrightarrow> t < m \<Longrightarrow> is_copy_upto n A D t = is_copy_upto m A D t"
proof (induction t arbitrary: n m rule: less_induct)
  case (less t)
  obtain n' m' where n: "n = Suc n'" "m = Suc m'" using less.prems by (metis less_imp_Suc_add)
  have "is_copy_upto n' A D c = is_copy_upto m' A D c" if "c \<in> set_ty_data (arena_get A t)" for c
    using child_less [OF less.prems(1,2) that] less.prems n by (intro less.IH) auto
  then show ?case by (cases "arena_get A t") (auto simp: n list_all_iff)
qed

text \<open>The equation of the recursive Rust function.\<close>

lemma is_copy_unfold:
  assumes "arena_ok A" "t < length (storage A)"
  shows "is_copy t A D =
     (case arena_get A t of
        TString \<Rightarrow> False | TBytes \<Rightarrow> False | TVar _ \<Rightarrow> False | TParam _ \<Rightarrow> False | TCap _ _ \<Rightarrow> False | TDyn _ \<Rightarrow> False
      | TRef mutable _ \<Rightarrow> \<not> mutable
      | TTuple xs \<Rightarrow> \<forall>c \<in> set xs. is_copy c A D
      | TArray elem _ \<Rightarrow> is_copy elem A D
      | TAdt i _ \<Rightarrow> i \<in> dm_user_copy D \<or> (\<forall>a. adt_of D i = Some a \<longrightarrow> ad_kind a = AdtOpaque)
      | _ \<Rightarrow> True)"
proof -
  have "is_copy_upto t A D c = is_copy c A D" if "c \<in> set_ty_data (arena_get A t)" for c
    using child_less [OF assms that] assms unfolding is_copy_def by (intro is_copy_upto_stable) auto
  then show ?thesis unfolding is_copy_def [of t]
    by (cases "arena_get A t") (auto simp: list_all_iff split: option.splits adt_kind.splits)
qed

section \<open>What sendable means\<close>

definition carries_address :: "ty_id ty_data \<Rightarrow> bool" where
  "carries_address d = (case d of TRef _ _ \<Rightarrow> True | TRawPtr _ \<Rightarrow> True | TFn _ _ _ \<Rightarrow> True | _ \<Rightarrow> False)"

text \<open>The types a value of the type is made of: elements of tuples and arrays, fields of the user
  types that are not copied.\<close>

definition parts :: "ty_arena \<Rightarrow> def_map \<Rightarrow> ty_id \<Rightarrow> ty_id list" where
  "parts A D t =
     (case arena_get A t of
        TTuple xs \<Rightarrow> xs
      | TArray elem _ \<Rightarrow> [elem]
      | TAdt i _ \<Rightarrow>
          (case adt_of D i of
             Some a \<Rightarrow> if is_copy t A D \<or> ad_kind a = AdtOpaque then []
                       else concat (map (\<lambda>v. map fld_ty (vd_fields v)) (ad_variants a))
           | None \<Rightarrow> [])
      | _ \<Rightarrow> [])"

definition part_step :: "ty_arena \<Rightarrow> def_map \<Rightarrow> ty_id set \<Rightarrow> ty_id \<Rightarrow> ty_id \<Rightarrow> bool" where
  "part_step A D V t c \<longleftrightarrow> c \<in> set (parts A D t) \<and> t \<notin> V \<and> c \<notin> V"

definition reaches_address :: "ty_arena \<Rightarrow> def_map \<Rightarrow> ty_id set \<Rightarrow> ty_id \<Rightarrow> bool" where
  "reaches_address A D V t \<longleftrightarrow>
     t \<notin> V \<and> (\<exists>b. (part_step A D V)\<^sup>*\<^sup>* t b \<and> carries_address (arena_get A b))"

definition fields_ok :: "ty_arena \<Rightarrow> def_map \<Rightarrow> bool" where
  "fields_ok A D \<longleftrightarrow> (\<forall>a \<in> set (dm_adts D). \<forall>v \<in> set (ad_variants a). \<forall>f \<in> set (vd_fields v). fld_ty f < length (storage A))"

lemma all_opt_Some:
  "all_opt f xs = Some b \<Longrightarrow> (\<And>x c. x \<in> set xs \<Longrightarrow> f x = Some c \<Longrightarrow> c = P x) \<Longrightarrow> b = (\<forall>x \<in> set xs. P x)"
  by (induction xs) (auto split: option.splits bool.splits)

lemma all_opt_total: "(\<And>x. x \<in> set xs \<Longrightarrow> f x \<noteq> None) \<Longrightarrow> all_opt f xs \<noteq> None"
  by (induction xs) (auto split: option.splits bool.splits)

lemma all_opt_concat: "all_opt (\<lambda>v. all_opt f (g v)) vs = all_opt f (concat (map g vs))"
proof (induction vs)
  case (Cons v vs)
  have "all_opt f (xs @ ys) = (case all_opt f xs of Some True \<Rightarrow> all_opt f ys | r \<Rightarrow> r)" for xs ys
    by (induction xs) (auto split: option.splits bool.splits)
  then show ?case using Cons by (auto split: option.splits bool.splits)
qed simp

lemma all_opt_map: "all_opt f (map g xs) = all_opt (\<lambda>x. f (g x)) xs"
  by (induction xs) (auto split: option.splits bool.splits)

text \<open>Both recursive cases have the same shape: the parts, with the type itself on the stack.\<close>

lemma is_sendable_inner_Suc:
  "is_sendable_inner (Suc n) t A D vis =
     (if t \<in> set vis then Some True
      else if carries_address (arena_get A t) then Some False
      else all_opt (\<lambda>c. is_sendable_inner n c A D
             (case arena_get A t of TArray _ _ \<Rightarrow> vis | _ \<Rightarrow> t # vis)) (parts A D t))"
proof (cases "arena_get A t")
  case (TArray e l)
  then show ?thesis by (auto simp: carries_address_def parts_def split: option.splits bool.splits)
next
  case (TAdt i ts)
  then show ?thesis
    by (auto simp: carries_address_def parts_def all_opt_concat [symmetric] all_opt_map split: option.splits adt_kind.splits)
qed (simp_all add: carries_address_def parts_def)

lemma reaches_step:
  assumes "t \<notin> V"
  shows "reaches_address A D V t \<longleftrightarrow>
     carries_address (arena_get A t) \<or> (\<exists>c \<in> set (parts A D t). reaches_address A D V c)"
proof
  assume "reaches_address A D V t"
  then obtain b where "(part_step A D V)\<^sup>*\<^sup>* t b" "carries_address (arena_get A b)"
    by (auto simp: reaches_address_def)
  then show "carries_address (arena_get A t) \<or> (\<exists>c \<in> set (parts A D t). reaches_address A D V c)"
    by (cases rule: converse_rtranclpE) (auto simp: reaches_address_def part_step_def)
next
  assume "carries_address (arena_get A t) \<or> (\<exists>c \<in> set (parts A D t). reaches_address A D V c)"
  then show "reaches_address A D V t"
    using assms unfolding reaches_address_def
    by (metis converse_rtranclp_into_rtranclp part_step_def rtranclp.rtrancl_refl)
qed

text \<open>A path that leaves a type need not come back to it.\<close>

lemma part_path_cut:
  assumes "(part_step A D V)\<^sup>*\<^sup>* x b" "x \<notin> V" "\<not> carries_address (arena_get A t)"
    "carries_address (arena_get A b)"
  shows "reaches_address A D (insert t V) x \<or> (\<exists>c \<in> set (parts A D t). reaches_address A D (insert t V) c)"
  using assms
proof (induction rule: converse_rtranclp_induct)
  case base
  then show ?case by (auto simp: reaches_address_def)
next
  case (step x y)
  then have "reaches_address A D (insert t V) y \<or> (\<exists>c \<in> set (parts A D t). reaches_address A D (insert t V) c)"
    by (simp add: part_step_def)
  then show ?case
    using step reaches_step [of x "insert t V" A D] by (cases "x = t") (auto simp: part_step_def)
qed

lemma reaches_mono: "reaches_address A D W t \<Longrightarrow> V \<subseteq> W \<Longrightarrow> reaches_address A D V t"
proof -
  assume r: "reaches_address A D W t" and "V \<subseteq> W"
  then have "part_step A D W \<le> part_step A D V" by (auto simp: part_step_def)
  then have "(part_step A D W)\<^sup>*\<^sup>* \<le> (part_step A D V)\<^sup>*\<^sup>*" by (rule rtranclp_mono)
  then show "reaches_address A D V t" using r \<open>V \<subseteq> W\<close> by (auto simp: reaches_address_def)
qed

lemma reaches_push:
  assumes "t \<notin> V" "\<not> carries_address (arena_get A t)"
  shows "reaches_address A D V t \<longleftrightarrow> (\<exists>c \<in> set (parts A D t). reaches_address A D (insert t V) c)"
proof
  assume "reaches_address A D V t"
  then obtain b where "(part_step A D V)\<^sup>*\<^sup>* t b" "carries_address (arena_get A b)"
    by (auto simp: reaches_address_def)
  from part_path_cut [OF this(1) assms this(2)]
  show "\<exists>c \<in> set (parts A D t). reaches_address A D (insert t V) c" by (auto simp: reaches_address_def)
next
  assume "\<exists>c \<in> set (parts A D t). reaches_address A D (insert t V) c"
  then show "reaches_address A D V t" using reaches_step [OF assms(1), of A D] reaches_mono by blast
qed

lemma is_sendable_inner_meaning:
  "is_sendable_inner n t A D vis = Some r \<Longrightarrow> r \<longleftrightarrow> \<not> reaches_address A D (set vis) t"
proof (induction n arbitrary: t vis r)
  case (Suc n)
  let ?w = "case arena_get A t of TArray _ _ \<Rightarrow> vis | _ \<Rightarrow> t # vis"
  show ?case
  proof (cases "t \<in> set vis \<or> carries_address (arena_get A t)")
    case True
    then show ?thesis
      using Suc.prems reaches_step [of t "set vis" A D]
      by (cases "t \<in> set vis") (auto simp: is_sendable_inner_Suc reaches_address_def
          simp del: is_sendable_inner.simps)
  next
    case False
    then have "all_opt (\<lambda>c. is_sendable_inner n c A D ?w) (parts A D t) = Some r"
      using Suc.prems by (simp add: is_sendable_inner_Suc del: is_sendable_inner.simps)
    then have r: "r \<longleftrightarrow> (\<forall>c \<in> set (parts A D t). \<not> reaches_address A D (set ?w) c)"
      by (rule all_opt_Some) (rule Suc.IH)
    show ?thesis
    proof (cases "\<exists>e l. arena_get A t = TArray e l")
      case True
      then show ?thesis using r False reaches_step [of t "set vis" A D] by auto
    next
      case notarr: False
      then have "set ?w = insert t (set vis)" by (cases "arena_get A t") auto
      then show ?thesis using r False reaches_push [of t "set vis" A D] by auto
    qed
  qed
qed simp

section \<open>Enough fuel\<close>

lemma parts_bound:
  assumes "arena_ok A" "fields_ok A D" "t < length (storage A)" "c \<in> set (parts A D t)"
  shows "c < length (storage A)"
    and "arena_get A t = TArray e l \<Longrightarrow> c < t"
proof -
  have ch: "c \<in> set_ty_data (arena_get A t) \<Longrightarrow> c < t" by (rule child_less [OF assms(1,3)])
  show "arena_get A t = TArray e l \<Longrightarrow> c < t" using assms(4) ch by (auto simp: parts_def)
  show "c < length (storage A)"
  proof (cases "\<exists>i ts. arena_get A t = TAdt i ts")
    case True
    then obtain i a where a: "i < length (dm_adts D)" "a = dm_adts D ! i"
        "c \<in> set (concat (map (\<lambda>v. map fld_ty (vd_fields v)) (ad_variants a)))"
      using assms(4) by (auto simp: parts_def adt_of_def vec_get_def split: option.splits if_splits)
    then have "a \<in> set (dm_adts D)" by simp
    then show ?thesis using assms(2) a(3) by (auto simp: fields_ok_def)
  next
    case False
    then have "c < t" using ch assms(4) by (cases "arena_get A t") (auto simp: parts_def)
    then show ?thesis using assms(3) by simp
  qed
qed

lemma is_sendable_inner_total:
  assumes ok: "arena_ok A" "fields_ok A D"
  shows "t < length (storage A) \<Longrightarrow> set vis \<subseteq> {..<length (storage A)} \<Longrightarrow> distinct vis \<Longrightarrow>
    (length (storage A) - length vis) * Suc (length (storage A)) + t < n \<Longrightarrow>
    is_sendable_inner n t A D vis \<noteq> None"
proof (induction n arbitrary: t vis)
  case (Suc n)
  let ?N = "length (storage A)"
  let ?w = "case arena_get A t of TArray _ _ \<Rightarrow> vis | _ \<Rightarrow> t # vis"
  show ?case
  proof (cases "t \<in> set vis")
    case False
    have "card (insert t (set vis)) \<le> ?N"
      using Suc.prems by (metis card_lessThan card_mono finite_lessThan insert_subset lessThan_iff)
    then have len: "length vis < ?N"
      using Suc.prems False by (simp add: distinct_card)
    then have push: "(?N - length vis) * Suc ?N = (?N - Suc (length vis)) * Suc ?N + Suc ?N"
      by (metis Suc_diff_Suc mult_Suc add.commute)
    have "is_sendable_inner n c A D ?w \<noteq> None" if c: "c \<in> set (parts A D t)" for c
    proof (cases "\<exists>e l. arena_get A t = TArray e l")
      case True
      then show ?thesis
        using Suc.prems parts_bound [OF ok Suc.prems(1) c] Suc.IH [of c vis] by auto
    next
      case notarr: False
      then have "?w = t # vis" by (cases "arena_get A t") auto
      moreover have "is_sendable_inner n c A D (t # vis) \<noteq> None"
        using Suc.prems False push parts_bound(1) [OF ok Suc.prems(1) c] by (intro Suc.IH) auto
      ultimately show ?thesis by simp
    qed
    then show ?thesis using False all_opt_total [of "parts A D t" "\<lambda>c. is_sendable_inner n c A D ?w"]
      unfolding is_sendable_inner_Suc by auto
  qed simp
qed simp

lemma is_sendable_returns:
  assumes "arena_ok A" "fields_ok A D" "t < length (storage A)"
  shows "\<exists>r. is_sendable_inner (sendable_fuel A) t A D [] = Some r"
proof -
  have "is_sendable_inner (sendable_fuel A) t A D [] \<noteq> None"
    using assms by (intro is_sendable_inner_total) (auto simp: sendable_fuel_def)
  then show ?thesis by blast
qed


text \<open>A recursive list of strings is sendable; with a reference next to the string it is not.\<close>

definition sample_arena :: ty_arena where
  "sample_arena = fst (ref_to False 5 (fst (adt 0 [] TyArena_new)))"

definition sample_list :: "ty_id list \<Rightarrow> def_map" where
  "sample_list ts = fst (alloc_adt \<lparr>ad_name = ''L'', ad_kind = AdtEnum, ad_generics = [], ad_param_ids = [],
     ad_variants = [\<lparr>vd_name = ''Nil'', vd_fields = []\<rparr>,
       \<lparr>vd_name = ''Cons'', vd_fields = map (\<lambda>t. \<lparr>fld_name = None, fld_ty = t\<rparr>) ts\<rparr>]\<rparr> DefMap_default)"

lemma storage_sample_arena: "storage sample_arena = primitives @ [TAdt 0 [], TRef False 5]"
  and sample_arena_ok: "arena_ok sample_arena"
proof -
  have 1: "storage (fst (adt 0 [] TyArena_new)) = primitives @ [TAdt 0 []]"
    by (simp add: adt_def intern_def TyArena_new_def primitives_def)
  show "storage sample_arena = primitives @ [TAdt 0 [], TRef False 5]"
    by (simp add: sample_arena_def ref_to_def adt_def intern_def TyArena_new_def primitives_def)
  have "arena_ok (fst (adt 0 [] TyArena_new))"
    unfolding adt_def by (rule intern_ok(1) [OF TyArena_new_ok]) simp
  then show "arena_ok sample_arena"
    unfolding sample_arena_def ref_to_def by (rule intern_ok(1)) (use 1 in \<open>auto simp: primitives_def\<close>)
qed


end
