(* ===== verification/Borrow_State.thy ===== *)
theory Borrow_State
  imports Hir_Nodes
begin

text \<open>
  Places and ownership states of the borrow checker, \<^verbatim>\<open>crates/mty-borrow/src/place.rs\<close> and
  \<^verbatim>\<open>state.rs\<close>: projection paths and their overlap, the ledger of active borrows with its decay
  operations, and the join of the local states of two branches. Overlap is characterised by the
  prefix order on paths; one-level truncation of a path over-approximates it; the join is compared
  with the severity order its documentation describes.
\<close>

section \<open>Places\<close>

datatype proj = Field string | Index | Deref

record place =
  root :: string
  projs :: "proj list"

definition Place_root :: "string \<Rightarrow> place" where
  "Place_root n = \<lparr>root = n, projs = []\<rparr>"

definition with_field :: "place \<Rightarrow> string \<Rightarrow> place" where
  "with_field p n = p\<lparr>projs := projs p @ [Field n]\<rparr>"

definition with_deref :: "place \<Rightarrow> place" where
  "with_deref p = p\<lparr>projs := projs p @ [Deref]\<rparr>"

definition with_index :: "place \<Rightarrow> place" where
  "with_index p = p\<lparr>projs := projs p @ [Index]\<rparr>"

definition is_prefix_of :: "place \<Rightarrow> place \<Rightarrow> bool" where
  "is_prefix_of p q =
     (if root p \<noteq> root q then False
      else if length (projs q) < length (projs p) then False
      else list_all (\<lambda>(a, b). a = b) (zip (projs p) (projs q)))"

definition overlaps :: "place \<Rightarrow> place \<Rightarrow> bool" where
  "overlaps p q \<longleftrightarrow> is_prefix_of p q \<or> is_prefix_of q p"

definition truncate_for_v0_3 :: "place \<Rightarrow> place" where
  "truncate_for_v0_3 p =
     (let q = Place_root (root p) in
      case projs p of [] \<Rightarrow> q | f # _ \<Rightarrow> q\<lparr>projs := projs q @ [f]\<rparr>)"

fun show_proj :: "proj \<Rightarrow> string" where
  "show_proj (Field n) = ''.'' @ n"
| "show_proj Index = ''[_]''"
| "show_proj Deref = ''.*''"

definition show_place :: "place \<Rightarrow> string" where
  "show_place p = root p @ concat (map show_proj (projs p))"

section \<open>Ownership states and the ledger\<close>

datatype ownership =
    Owned | Moved source_span | Borrowed u32 | BorrowedMut | Uninit

record local_state =
  ls_name :: string
  ls_ty :: nat
  ls_state :: ownership
  ls_declared_at :: source_span
  ls_mutable :: bool
  ls_is_copy :: bool
  ls_arena_region :: "u32 option"

record scope_frame =
  sf_locals :: "string list"
  sf_arena_region :: "u32 option"

datatype borrow_kind = Shared | Mut

record borrow_record =
  br_place :: place
  br_kind :: borrow_kind
  br_borrower :: "string option"
  br_at :: source_span

type_synonym borrow_ledger = "borrow_record list"

definition ledger_push :: "borrow_ledger \<Rightarrow> borrow_record \<Rightarrow> borrow_ledger" where
  "ledger_push l r = l @ [r]"

definition decay_borrower :: "borrow_ledger \<Rightarrow> string \<Rightarrow> borrow_ledger \<times> borrow_record list" where
  "decay_borrower l n =
     (filter (\<lambda>r. br_borrower r \<noteq> Some n) l, filter (\<lambda>r. br_borrower r = Some n) l)"

definition decay_borrowers ::
  "borrow_ledger \<Rightarrow> string list \<Rightarrow> borrow_ledger \<times> borrow_record list" where
  "decay_borrowers l names =
     (let drop_it = (\<lambda>r. case br_borrower r of Some b \<Rightarrow> list_ex (\<lambda>n. n = b) names | None \<Rightarrow> False)
      in (filter (\<lambda>r. \<not> drop_it r) l, filter drop_it l))"

definition conflicts_with :: "borrow_ledger \<Rightarrow> place \<Rightarrow> borrow_record list" where
  "conflicts_with l p = filter (\<lambda>r. overlaps (br_place r) p) l"

fun join_ownership :: "ownership \<Rightarrow> ownership \<Rightarrow> ownership" where
  "join_ownership _ (Moved at) = Moved at"
| "join_ownership (Moved at) _ = Moved at"
| "join_ownership Uninit _ = Uninit"
| "join_ownership _ Uninit = Uninit"
| "join_ownership BorrowedMut _ = BorrowedMut"
| "join_ownership _ BorrowedMut = BorrowedMut"
| "join_ownership (Borrowed c1) (Borrowed c2) = Borrowed (max c1 c2)"
| "join_ownership a _ = a"

definition join_states ::
  "(string \<rightharpoonup> local_state) \<Rightarrow> (string \<rightharpoonup> local_state) \<Rightarrow> (string \<rightharpoonup> local_state)" where
  "join_states a b =
     (\<lambda>k. case (a k, b k) of
        (Some va, Some vb) \<Rightarrow> Some (va\<lparr>ls_state := join_ownership (ls_state va) (ls_state vb)\<rparr>)
      | (Some va, None) \<Rightarrow> Some va
      | (None, Some vb) \<Rightarrow> Some vb
      | (None, None) \<Rightarrow> None)"

section \<open>Overlap\<close>

lemma list_all_zip_eq:
  "length xs \<le> length ys \<Longrightarrow> list_all (\<lambda>(a, b). a = b) (zip xs ys) \<longleftrightarrow> (\<exists>zs. ys = xs @ zs)"
  by (induction xs ys rule: list_induct2') auto

lemma append_iff_nth:
  "(\<exists>zs. ys = xs @ zs) \<longleftrightarrow> length xs \<le> length ys \<and> (\<forall>i < length xs. xs ! i = ys ! i)"
proof (induction xs ys rule: list_induct2')
  case (4 x xs y ys)
  then show ?case by (auto simp: All_less_Suc2)
qed auto

lemma is_prefix_of_iff: "is_prefix_of p q \<longleftrightarrow> root p = root q \<and> (\<exists>zs. projs q = projs p @ zs)"
  using list_all_zip_eq [of "projs p" "projs q"] by (auto simp: is_prefix_of_def)

lemma truncate_for_v0_3_simps:
  "root (truncate_for_v0_3 p) = root p" "projs (truncate_for_v0_3 p) = take 1 (projs p)"
  by (cases "projs p"; simp add: truncate_for_v0_3_def Place_root_def Let_def)+

lemma is_prefix_of_trans: "is_prefix_of p q \<Longrightarrow> is_prefix_of q r \<Longrightarrow> is_prefix_of p r"
  by (auto simp: is_prefix_of_iff)

text \<open>
  Two places overlap exactly when they have the same root and agree on every projection step both
  of them have; overlap is symmetric, is kept when both places are extended from a common conflict
  downwards, and one-level truncation never hides an overlap, so a checker that truncates stays
  conservative.
\<close>

theorem overlaps_spec:
  "(overlaps p q \<longleftrightarrow> root p = root q \<and>
      (\<forall>i. i < length (projs p) \<and> i < length (projs q) \<longrightarrow> projs p ! i = projs q ! i)) \<and>
   (overlaps p q \<longleftrightarrow> overlaps q p) \<and>
   (overlaps p q \<longrightarrow> overlaps (truncate_for_v0_3 p) (truncate_for_v0_3 q))"
proof (intro conjI)
  show "overlaps p q \<longleftrightarrow> root p = root q \<and>
      (\<forall>i. i < length (projs p) \<and> i < length (projs q) \<longrightarrow> projs p ! i = projs q ! i)"
    using nat_le_linear [of "length (projs p)" "length (projs q)"]
    by (auto simp: overlaps_def is_prefix_of_iff append_iff_nth)
  show "overlaps p q \<longleftrightarrow> overlaps q p" by (auto simp: overlaps_def)
  show "overlaps p q \<longrightarrow> overlaps (truncate_for_v0_3 p) (truncate_for_v0_3 q)"
    by (auto simp: overlaps_def is_prefix_of_iff truncate_for_v0_3_simps)
qed

theorem overlaps_spec_witness:
  "overlaps (with_field (Place_root ''s'') ''a'') (with_field (with_field (Place_root ''s'') ''a'') ''b'')
   \<and> overlaps (truncate_for_v0_3 (with_field (Place_root ''s'') ''a''))
        (truncate_for_v0_3 (with_field (with_field (Place_root ''s'') ''a'') ''b''))"
proof -
  let ?p = "with_field (Place_root ''s'') ''a''"
  let ?q = "with_field (with_field (Place_root ''s'') ''a'') ''b''"
  have "overlaps ?p ?q"
    by (simp add: overlaps_def is_prefix_of_def with_field_def Place_root_def)
  then show ?thesis using overlaps_spec [of ?p ?q] by blast
qed

section \<open>Decay and joins\<close>

text \<open>
  Decaying a set of borrowers removes exactly the records they hold and returns them: the kept and
  removed records partition the ledger in order, no kept record belongs to a decayed borrower, and
  decaying one borrower is the special case of a singleton.
\<close>

theorem decay_borrowers_partition:
  "(\<forall>r. r \<in> set (fst (decay_borrowers l ns)) \<longleftrightarrow>
      r \<in> set l \<and> (\<forall>b. br_borrower r = Some b \<longrightarrow> b \<notin> set ns)) \<and>
   (\<forall>r. r \<in> set (snd (decay_borrowers l ns)) \<longleftrightarrow>
      r \<in> set l \<and> (\<exists>b. br_borrower r = Some b \<and> b \<in> set ns)) \<and>
   length (fst (decay_borrowers l ns)) + length (snd (decay_borrowers l ns)) = length l \<and>
   decay_borrowers l [n] = decay_borrower l n"
proof (intro conjI)
  show "length (fst (decay_borrowers l ns)) + length (snd (decay_borrowers l ns)) = length l"
    by (simp add: decay_borrowers_def Let_def add.commute sum_length_filter_compl)
  show "decay_borrowers l [n] = decay_borrower l n"
    by (auto simp: decay_borrowers_def decay_borrower_def Let_def intro!: filter_cong
        split: option.splits)
qed (auto simp: decay_borrowers_def Let_def list_ex_iff split: option.splits)

theorem decay_borrowers_partition_witness:
  "decay_borrowers [\<lparr>br_place = Place_root ''x'', br_kind = Mut, br_borrower = Some ''r'',
       br_at = \<lparr>sp_start = 0, sp_end = 1\<rparr>\<rparr>] [''r''] =
   decay_borrower [\<lparr>br_place = Place_root ''x'', br_kind = Mut, br_borrower = Some ''r'',
       br_at = \<lparr>sp_start = 0, sp_end = 1\<rparr>\<rparr>] ''r''"
  using decay_borrowers_partition by blast

fun is_moved :: "ownership \<Rightarrow> bool" where
  "is_moved (Moved _) = True"
| "is_moved _ = False"

fun severity :: "ownership \<Rightarrow> nat" where
  "severity Owned = 0"
| "severity (Borrowed _) = 1"
| "severity BorrowedMut = 2"
| "severity Uninit = 3"
| "severity (Moved _) = 4"

text \<open>
  Joining two branches is sound for moves and initialisation: the joined severity is the maximum of
  the two sides whenever either side is moved, uninitialised or mutably borrowed. The one exception
  to the maximum is an owned left side against a shared borrow on the right, where the join keeps
  \<open>Owned\<close> and the borrow is forgotten, while the mirrored join keeps the borrow.
\<close>

theorem join_severity:
  "severity (join_ownership a b) =
     (if a = Owned \<and> severity b = 1 then 0 else max (severity a) (severity b))"
  by (cases a; cases b) auto

end
