(* ===== verification/Borrow_Nll.thy ===== *)
theory Borrow_Nll
  imports Hir_Nodes
begin

text \<open>
  The last-use pre-pass of the borrow checker, \<^verbatim>\<open>crates/mty-borrow/src/nll.rs\<close>: it numbers the
  occurrences of local names in evaluation order and keeps, for every name, the point of its last
  occurrence. The reference definition \<open>uses_block\<close> only lists the names in evaluation order; the
  equivalence lemma says that the numbering pass computes the index of the last occurrence in that
  list, which is what borrow decay relies on.
\<close>

section \<open>The pass\<close>

record pre =
  last_use :: "string \<rightharpoonup> nat"
  point :: nat

definition LastUseMap_record :: "(string \<rightharpoonup> nat) \<Rightarrow> string \<Rightarrow> nat \<Rightarrow> (string \<rightharpoonup> nat)" where
  "LastUseMap_record m n p =
     (let e = (case m n of Some q \<Rightarrow> q | None \<Rightarrow> p) in m(n \<mapsto> (if e < p then p else e)))"

definition LastUseMap_get :: "(string \<rightharpoonup> nat) \<Rightarrow> string \<Rightarrow> nat option" where
  "LastUseMap_get m n = m n"

definition advance :: "pre \<Rightarrow> pre \<times> nat" where
  "advance s = (s\<lparr>point := point s + 1\<rparr>, point s)"

definition visit_path :: "string list \<Rightarrow> pre \<Rightarrow> pre" where
  "visit_path segs s =
     (case segs of
        [] \<Rightarrow> s
      | x # _ \<Rightarrow> (let (s1, p) = advance s in s1\<lparr>last_use := LastUseMap_record (last_use s1) x p\<rparr>))"

primrec visit_expr :: "expr \<Rightarrow> pre \<Rightarrow> pre"
  and visit_block :: "block \<Rightarrow> pre \<Rightarrow> pre"
  and visit_stmt :: "stmt \<Rightarrow> pre \<Rightarrow> pre"
  and visit_arg :: "arg \<Rightarrow> pre \<Rightarrow> pre"
  and visit_arm :: "match_arm \<Rightarrow> pre \<Rightarrow> pre" where
  "visit_expr (EPath segs) = visit_path segs"
| "visit_expr (EPathGeneric segs gs) = visit_path segs"
| "visit_expr (ELiteral l) = id"
| "visit_expr (EHtmlTemplate h) = id"
| "visit_expr EError = id"
| "visit_expr (EBlock b) = visit_block b"
| "visit_expr (EUnsafe b) = visit_block b"
| "visit_expr (ETuple xs) = seq_all (map visit_expr xs)"
| "visit_expr (EArray xs) = seq_all (map visit_expr xs)"
| "visit_expr (EBinary p l r) = visit_expr r \<circ> visit_expr l"
| "visit_expr (EUnary p r) = visit_expr r"
| "visit_expr (EBorrow m i) = visit_expr i"
| "visit_expr (EMove i) = visit_expr i"
| "visit_expr (ECall c as) = seq_all (map visit_arg as) \<circ> visit_expr c"
| "visit_expr (EMethodCall r m as) = seq_all (map visit_arg as) \<circ> visit_expr r"
| "visit_expr (EField r n) = visit_expr r"
| "visit_expr (EIndex r i) = visit_expr i \<circ> visit_expr r"
| "visit_expr (EIf c t e) = seq_opt (map_option visit_expr e) \<circ> visit_block t \<circ> visit_expr c"
| "visit_expr (EIfLet p c t e) = seq_opt (map_option visit_expr e) \<circ> visit_block t \<circ> visit_expr c"
| "visit_expr (EMatch c as) = seq_all (map visit_arm as) \<circ> visit_expr c"
| "visit_expr (EFor p i b) = visit_block b \<circ> visit_expr i"
| "visit_expr (EWhile c b) = visit_block b \<circ> visit_expr c"
| "visit_expr (EWhileLet p c b) = visit_block b \<circ> visit_expr c"
| "visit_expr (ELoop b) = visit_block b"
| "visit_expr (EReturn e) = seq_opt (map_option visit_expr e)"
| "visit_expr (EBreak e) = seq_opt (map_option visit_expr e)"
| "visit_expr EContinue = id"
| "visit_expr (EStruct p fs) = seq_all (map snd (map (map_prod id visit_expr) fs))"
| "visit_expr (EMap es) =
     seq_all (map (\<lambda>(f, g). g \<circ> f) (map (map_prod visit_expr visit_expr) es))"
| "visit_expr (ESend t m as) = seq_all (map visit_arg as) \<circ> visit_expr t"
| "visit_expr (EAsk t m as) = seq_all (map visit_arg as) \<circ> visit_expr t"
| "visit_expr (EDeadline i d) = visit_expr i \<circ> visit_expr d"
| "visit_expr (EQuestion e) = visit_expr e"
| "visit_expr (ERun e) = visit_expr e"
| "visit_expr (ESpawn k i) = visit_expr i"
| "visit_expr (EDetach e) = visit_expr e"
| "visit_expr (EJoin e) = visit_expr e"
| "visit_expr (EArena n b) = visit_expr b"
| "visit_expr (ETaskScope d b) = visit_block b \<circ> seq_opt (map_option visit_expr d)"
| "visit_expr (EBudget es b) = visit_expr b \<circ> seq_all (map snd (map (map_prod id visit_expr) es))"
| "visit_expr (ESandbox n es b) = visit_block b \<circ> seq_all (map snd (map (map_prod id visit_expr) es))"
| "visit_expr (ECast l t) = visit_expr l"
| "visit_expr (ELambda ps r b) = visit_block b"
| "visit_block (Block ss t) = seq_opt (map_option visit_expr t) \<circ> seq_all (map visit_stmt ss)"
| "visit_stmt (SLet p t i m) = seq_opt (map_option visit_expr i)"
| "visit_stmt (SExpr e) = visit_expr e"
| "visit_arg (Arg n e) = visit_expr e"
| "visit_arm (Arm p g b) = visit_expr b \<circ> seq_opt (map_option visit_expr g)"

definition compute_last_use :: "block \<Rightarrow> (string \<rightharpoonup> nat) \<times> nat" where
  "compute_last_use body =
     (let s = visit_block body \<lparr>last_use = Map.empty, point = 0\<rparr> in (last_use s, point s))"

section \<open>Reference: the names in evaluation order\<close>

definition opt_list :: "'a list option \<Rightarrow> 'a list" where
  "opt_list x = (case x of None \<Rightarrow> [] | Some xs \<Rightarrow> xs)"

primrec uses_expr :: "expr \<Rightarrow> string list"
  and uses_block :: "block \<Rightarrow> string list"
  and uses_stmt :: "stmt \<Rightarrow> string list"
  and uses_arg :: "arg \<Rightarrow> string list"
  and uses_arm :: "match_arm \<Rightarrow> string list" where
  "uses_expr (EPath segs) = take 1 segs"
| "uses_expr (EPathGeneric segs gs) = take 1 segs"
| "uses_expr (ELiteral l) = []"
| "uses_expr (EHtmlTemplate h) = []"
| "uses_expr EError = []"
| "uses_expr (EBlock b) = uses_block b"
| "uses_expr (EUnsafe b) = uses_block b"
| "uses_expr (ETuple xs) = concat (map uses_expr xs)"
| "uses_expr (EArray xs) = concat (map uses_expr xs)"
| "uses_expr (EBinary p l r) = uses_expr l @ uses_expr r"
| "uses_expr (EUnary p r) = uses_expr r"
| "uses_expr (EBorrow m i) = uses_expr i"
| "uses_expr (EMove i) = uses_expr i"
| "uses_expr (ECall c as) = uses_expr c @ concat (map uses_arg as)"
| "uses_expr (EMethodCall r m as) = uses_expr r @ concat (map uses_arg as)"
| "uses_expr (EField r n) = uses_expr r"
| "uses_expr (EIndex r i) = uses_expr r @ uses_expr i"
| "uses_expr (EIf c t e) = uses_expr c @ uses_block t @ opt_list (map_option uses_expr e)"
| "uses_expr (EIfLet p c t e) = uses_expr c @ uses_block t @ opt_list (map_option uses_expr e)"
| "uses_expr (EMatch c as) = uses_expr c @ concat (map uses_arm as)"
| "uses_expr (EFor p i b) = uses_expr i @ uses_block b"
| "uses_expr (EWhile c b) = uses_expr c @ uses_block b"
| "uses_expr (EWhileLet p c b) = uses_expr c @ uses_block b"
| "uses_expr (ELoop b) = uses_block b"
| "uses_expr (EReturn e) = opt_list (map_option uses_expr e)"
| "uses_expr (EBreak e) = opt_list (map_option uses_expr e)"
| "uses_expr EContinue = []"
| "uses_expr (EStruct p fs) = concat (map snd (map (map_prod id uses_expr) fs))"
| "uses_expr (EMap es) = concat (map (\<lambda>(k, v). k @ v) (map (map_prod uses_expr uses_expr) es))"
| "uses_expr (ESend t m as) = uses_expr t @ concat (map uses_arg as)"
| "uses_expr (EAsk t m as) = uses_expr t @ concat (map uses_arg as)"
| "uses_expr (EDeadline i d) = uses_expr d @ uses_expr i"
| "uses_expr (EQuestion e) = uses_expr e"
| "uses_expr (ERun e) = uses_expr e"
| "uses_expr (ESpawn k i) = uses_expr i"
| "uses_expr (EDetach e) = uses_expr e"
| "uses_expr (EJoin e) = uses_expr e"
| "uses_expr (EArena n b) = uses_expr b"
| "uses_expr (ETaskScope d b) = opt_list (map_option uses_expr d) @ uses_block b"
| "uses_expr (EBudget es b) = concat (map snd (map (map_prod id uses_expr) es)) @ uses_expr b"
| "uses_expr (ESandbox n es b) = concat (map snd (map (map_prod id uses_expr) es)) @ uses_block b"
| "uses_expr (ECast l t) = uses_expr l"
| "uses_expr (ELambda ps r b) = uses_block b"
| "uses_block (Block ss t) = concat (map uses_stmt ss) @ opt_list (map_option uses_expr t)"
| "uses_stmt (SLet p t i m) = opt_list (map_option uses_expr i)"
| "uses_stmt (SExpr e) = uses_expr e"
| "uses_arg (Arg n e) = uses_expr e"
| "uses_arm (Arm p g b) = opt_list (map_option uses_expr g) @ uses_expr b"

definition last_index :: "string list \<Rightarrow> string \<Rightarrow> nat option" where
  "last_index us n = (if n \<in> set us then Some (Max {i. i < length us \<and> us ! i = n}) else None)"

section \<open>Equivalence\<close>

definition feed :: "string list \<Rightarrow> pre \<Rightarrow> pre" where
  "feed us s = foldl (\<lambda>s x. visit_path [x] s) s us"

lemma feed_simps [simp]: "feed [] = id" "feed (us @ vs) = feed vs \<circ> feed us"
  by (auto simp: feed_def fun_eq_iff)

lemma visit_path_feed: "visit_path segs = feed (take 1 segs)"
  by (cases segs) (auto simp: feed_def visit_path_def fun_eq_iff)

lemma seq_all_feed:
  "(\<And>x. x \<in> set xs \<Longrightarrow> f x = feed (u x)) \<Longrightarrow> seq_all (map f xs) = feed (concat (map u xs))"
  by (induction xs) (auto simp: seq_all_def fun_eq_iff)

lemma seq_opt_feed:
  "(\<And>x. x \<in> set_option xo \<Longrightarrow> f x = feed (u x)) \<Longrightarrow>
   seq_opt (map_option f xo) = feed (opt_list (map_option u xo))"
  by (cases xo) (auto simp: seq_opt_def opt_list_def fun_eq_iff)

lemma seq_all_feed_snd:
  "(\<And>x y. x \<in> set xs \<Longrightarrow> y \<in> Basic_BNFs.snds x \<Longrightarrow> f y = feed (u y)) \<Longrightarrow>
   seq_all (map snd (map (map_prod id f) xs)) = feed (concat (map snd (map (map_prod id u) xs)))"
  using seq_all_feed [of xs "\<lambda>x. f (snd x)" "\<lambda>x. u (snd x)"]
  by (fastforce simp: comp_def snds.simps)

lemma seq_all_feed_pair:
  "(\<And>x y. x \<in> set xs \<Longrightarrow> y \<in> Basic_BNFs.fsts x \<Longrightarrow> f y = feed (u y)) \<Longrightarrow>
   (\<And>x y. x \<in> set xs \<Longrightarrow> y \<in> Basic_BNFs.snds x \<Longrightarrow> f y = feed (u y)) \<Longrightarrow>
   seq_all (map (\<lambda>(g, h). h \<circ> g) (map (map_prod f f) xs)) =
     feed (concat (map (\<lambda>(k, v). k @ v) (map (map_prod u u) xs)))"
  using seq_all_feed [of xs "\<lambda>x. f (snd x) \<circ> f (fst x)" "\<lambda>x. u (fst x) @ u (snd x)"]
  by (fastforce simp: comp_def split_beta fsts.simps snds.simps)

lemma visit_is_feed:
  "visit_expr e = feed (uses_expr e)"
  "visit_block b = feed (uses_block b)"
  "visit_stmt st = feed (uses_stmt st)"
  "visit_arg a = feed (uses_arg a)"
  "visit_arm m = feed (uses_arm m)"
  by (induction e and b and st and a and m)
     (simp_all only: visit_expr.simps visit_block.simps visit_stmt.simps visit_arg.simps
        visit_arm.simps uses_expr.simps uses_block.simps uses_stmt.simps uses_arg.simps
        uses_arm.simps visit_path_feed seq_all_feed seq_all_feed_snd seq_all_feed_pair seq_opt_feed
        feed_simps comp_assoc)

lemma last_index_snoc:
  "last_index (us @ [x]) = (last_index us)(x \<mapsto> length us)"
proof
  fix n
  have "Max {i. i < Suc (length us) \<and> (us @ [x]) ! i = n} = length us" if "n = x"
    using that by (intro Max_eqI) (auto simp: nth_append)
  moreover have "{i. i < Suc (length us) \<and> (us @ [x]) ! i = n} = {i. i < length us \<and> us ! i = n}"
    if "n \<noteq> x"
    using that by (auto simp: nth_append less_Suc_eq)
  ultimately show "last_index (us @ [x]) n = ((last_index us)(x \<mapsto> length us)) n"
    by (auto simp: last_index_def)
qed

lemma feed_last_index:
  "feed us \<lparr>last_use = Map.empty, point = 0\<rparr> = \<lparr>last_use = last_index us, point = length us\<rparr>"
proof (induction us rule: rev_induct)
  case Nil
  then show ?case by (simp add: last_index_def fun_eq_iff)
next
  case (snoc x us)
  have le: "q < length us" if "last_index us x = Some q" for q
  proof -
    let ?I = "{i. i < length us \<and> us ! i = x}"
    have "?I \<noteq> {}" "q = Max ?I" using that by (auto simp: last_index_def in_set_conv_nth split: if_splits)
    then have "q \<in> ?I" using Max_in [of ?I] by simp
    then show ?thesis by simp
  qed
  have "LastUseMap_record (last_index us) x (length us) = (last_index us)(x \<mapsto> length us)"
    using le by (auto simp: LastUseMap_record_def Let_def split: option.splits)
  with snoc show ?case
    by (simp add: feed_def visit_path_def advance_def last_index_snoc fun_eq_iff)
qed


end
