(* ===== verification/Borrow_Flow.thy ===== *)
theory Borrow_Flow
  imports Borrow_Copy Borrow_State Borrow_Nll Borrow_Diag
begin

text \<open>
  The walker of the borrow checker, \<^verbatim>\<open>crates/mty-borrow/src/flow.rs\<close>, with the region counter of
  \<^verbatim>\<open>arena_region.rs\<close> and the drop intents of \<^verbatim>\<open>drop_plan.rs\<close>. The checker state \<open>borrow_cx\<close> is threaded
  explicitly; its stack of scopes has the innermost frame first. What the walker only reads (the
  type arena, the definition tables, the types of expressions and the patterns) is the environment
  \<open>flow_env\<close>. The side table of types is keyed by expression identifiers in Rust; the expressions
  are a tree here, so it is keyed by the position of the node: the list of child numbers from the
  node up to the root of the body. Popping a frame from an empty stack panics in Rust and sets
  \<open>bc_panicked\<close> here. Program points are natural numbers.
\<close>

section \<open>State\<close>

datatype hir_pat =
    PWildcard
  | PLiteral hir_literal
  | PBinding string "hir_pat option"
  | PRef bool hir_pat
  | PTuple "hir_pat list"
  | PStruct "string list" "(string \<times> hir_pat option) list"
  | PEnum "string list" "hir_pat list"
  | PRange hir_pat hir_pat bool

text \<open>\<open>ArenaBody\<close> is not a position of the source: it marks the body of an arena expression, where
  the code looks inside a block instead of calling the walker. Everything else treats it as \<open>Use\<close>.\<close>

datatype position = PUse | PMove | PBorrowShared | PBorrowMut | PAssignTarget | ArenaBody

fun plain :: "position \<Rightarrow> position" where
  "plain ArenaBody = PUse"
| "plain p = p"

record drop_entry =
  de_local_name :: string
  de_span :: source_span

record flow_env =
  fe_arena :: ty_arena
  fe_defs :: def_map
  fe_expr_ty :: "nat list \<Rightarrow> ty_id option"
  fe_pats :: "pat_id \<Rightarrow> hir_pat"

record borrow_cx =
  bc_locals :: "string \<rightharpoonup> local_state"
  bc_scopes :: "scope_frame list"
  bc_next_arena :: u32
  bc_diag :: "diagnostic list"
  bc_drops :: "drop_entry list"
  bc_ledger :: borrow_ledger
  bc_last_use :: "string \<rightharpoonup> nat"
  bc_point :: nat
  bc_pending :: "string option"
  bc_panicked :: bool

definition BorrowCx_new :: "diagnostic list \<Rightarrow> drop_entry list \<Rightarrow> borrow_cx" where
  "BorrowCx_new ds drops = \<lparr>bc_locals = Map.empty, bc_scopes = [], bc_next_arena = 0, bc_diag = ds,
     bc_drops = drops, bc_ledger = [], bc_last_use = Map.empty, bc_point = 0, bc_pending = None,
     bc_panicked = False\<rparr>"

definition zero_span :: source_span where
  "zero_span = \<lparr>sp_start = 0, sp_end = 0\<rparr>"

definition push_diag :: "diagnostic \<Rightarrow> borrow_cx \<Rightarrow> borrow_cx" where
  "push_diag d s = s\<lparr>bc_diag := bc_diag s @ [d]\<rparr>"

definition set_state :: "string \<Rightarrow> local_state \<Rightarrow> ownership \<Rightarrow> borrow_cx \<Rightarrow> borrow_cx" where
  "set_state n ls o' s = s\<lparr>bc_locals := (bc_locals s)(n \<mapsto> ls\<lparr>ls_state := o'\<rparr>)\<rparr>"

definition fresh_arena :: "borrow_cx \<Rightarrow> borrow_cx \<times> u32" where
  "fresh_arena s = (s\<lparr>bc_next_arena := bc_next_arena s + 1\<rparr>, bc_next_arena s)"

section \<open>Frames and bindings\<close>

definition push_frame :: "u32 option \<Rightarrow> borrow_cx \<Rightarrow> borrow_cx" where
  "push_frame region s = s\<lparr>bc_scopes := \<lparr>sf_locals = [], sf_arena_region = region\<rparr> # bc_scopes s\<rparr>"

definition recompute_root_state :: "string \<Rightarrow> borrow_cx \<Rightarrow> borrow_cx" where
  "recompute_root_state n s =
     (let rs = filter (\<lambda>r. root (br_place r) = n) (bc_ledger s);
          shared = (of_nat (length (filter (\<lambda>r. br_kind r = Shared) rs)) :: u32);
          has_mut = list_ex (\<lambda>r. br_kind r = Mut) rs;
          o' = (if has_mut then BorrowedMut else if 0 < shared then Borrowed shared else Owned)
      in case bc_locals s n of
           None \<Rightarrow> s
         | Some ls \<Rightarrow>
             (case ls_state ls of
                Owned \<Rightarrow> set_state n ls o' s
              | Borrowed _ \<Rightarrow> set_state n ls o' s
              | BorrowedMut \<Rightarrow> set_state n ls o' s
              | _ \<Rightarrow> s))"

definition recompute_all :: "borrow_record list \<Rightarrow> borrow_cx \<Rightarrow> borrow_cx" where
  "recompute_all rs = seq_all (map (\<lambda>r. recompute_root_state (root (br_place r))) rs)"

definition drop_local :: "string \<Rightarrow> borrow_cx \<Rightarrow> borrow_cx" where
  "drop_local n s =
     (let s1 = (case bc_locals s n of
                  Some st \<Rightarrow>
                    if ls_state st = Owned \<and> \<not> ls_is_copy st
                    then s\<lparr>bc_drops := bc_drops s @ [\<lparr>de_local_name = n, de_span = ls_declared_at st\<rparr>]\<rparr>
                    else s
                | None \<Rightarrow> s)
      in s1\<lparr>bc_locals := (bc_locals s1)(n := None)\<rparr>)"

definition outlives_diags :: "string list \<Rightarrow> borrow_ledger \<Rightarrow> diagnostic list" where
  "outlives_diags departing l =
     concat (map (\<lambda>r. if root (br_place r) \<in> set departing
                      then (case br_borrower r of
                              Some b \<Rightarrow> if b \<notin> set departing
                                then [borrow_outlives_owner (root (br_place r)) (br_at r)] else []
                            | None \<Rightarrow> [])
                      else []) l)"

definition pop_frame :: "borrow_cx \<Rightarrow> borrow_cx" where
  "pop_frame s =
     (case bc_scopes s of
        [] \<Rightarrow> s\<lparr>bc_panicked := True\<rparr>
      | frame # rest \<Rightarrow>
          (let names = sf_locals frame;
               s1 = s\<lparr>bc_scopes := rest, bc_diag := bc_diag s @ outlives_diags names (bc_ledger s)\<rparr>;
               (kept, removed) = decay_borrowers (bc_ledger s1) names;
               s2 = recompute_all removed (s1\<lparr>bc_ledger := kept\<rparr>);
               s3 = s2\<lparr>bc_ledger := filter (\<lambda>r. \<not> list_ex (\<lambda>n. n = root (br_place r)) names) (bc_ledger s2)\<rparr>
           in seq_all (map drop_local names) s3))"

definition current_arena :: "borrow_cx \<Rightarrow> u32 option" where
  "current_arena s = Option.bind (List.find (\<lambda>f. sf_arena_region f \<noteq> None) (bc_scopes s)) sf_arena_region"

definition bind_local_with_state ::
  "flow_env \<Rightarrow> string \<Rightarrow> ty_id \<Rightarrow> source_span \<Rightarrow> bool \<Rightarrow> ownership \<Rightarrow> borrow_cx \<Rightarrow> borrow_cx" where
  "bind_local_with_state E name ty sp mutable o' s =
     (let st = \<lparr>ls_name = name, ls_ty = ty, ls_state = o', ls_declared_at = sp, ls_mutable = mutable,
                ls_is_copy = is_copy ty (fe_arena E) (fe_defs E), ls_arena_region = current_arena s\<rparr>;
          s1 = s\<lparr>bc_locals := (bc_locals s)(name \<mapsto> st)\<rparr>
      in case bc_scopes s1 of
           [] \<Rightarrow> s1
         | f # fs \<Rightarrow> s1\<lparr>bc_scopes := f\<lparr>sf_locals := sf_locals f @ [name]\<rparr> # fs\<rparr>)"

definition bind_local :: "flow_env \<Rightarrow> string \<Rightarrow> ty_id \<Rightarrow> source_span \<Rightarrow> bool \<Rightarrow> borrow_cx \<Rightarrow> borrow_cx" where
  "bind_local E name ty sp mutable = bind_local_with_state E name ty sp mutable Owned"

primrec bind_pattern_inner_mut ::
  "hir_pat \<Rightarrow> flow_env \<Rightarrow> ty_id \<Rightarrow> bool \<Rightarrow> ownership \<Rightarrow> borrow_cx \<Rightarrow> borrow_cx" where
  "bind_pattern_inner_mut (PBinding name sub) = (\<lambda>E t m o'.
     seq_opt (map_option (\<lambda>f. f E t m o') (map_option bind_pattern_inner_mut sub)) \<circ>
     bind_local_with_state E name t zero_span m o')"
| "bind_pattern_inner_mut (PTuple xs) = (\<lambda>E t m o'.
     let ps = (case arena_get (fe_arena E) t of TTuple ps \<Rightarrow> ps | _ \<Rightarrow> replicate (length xs) unit_id)
     in seq_all (map (\<lambda>(i, f). f E (case vec_get ps i of Some c \<Rightarrow> c | None \<Rightarrow> unit_id) m o')
          (enumerate 0 (map bind_pattern_inner_mut xs))))"
| "bind_pattern_inner_mut (PStruct p fs) = (\<lambda>E t m o'.
     seq_all (map (\<lambda>(n, sub). case sub of
                     Some f \<Rightarrow> f E unit_id m o'
                   | None \<Rightarrow> bind_local_with_state E n unit_id zero_span m o')
          (map (map_prod id (map_option bind_pattern_inner_mut)) fs)))"
| "bind_pattern_inner_mut (PEnum p args) = (\<lambda>E t m o'.
     seq_all (map (\<lambda>f. f E unit_id m o') (map bind_pattern_inner_mut args)))"
| "bind_pattern_inner_mut (PRef b inner) = (\<lambda>E t m o'.
     bind_pattern_inner_mut inner E (case arena_get (fe_arena E) t of TRef _ i \<Rightarrow> i | _ \<Rightarrow> unit_id) m o')"
| "bind_pattern_inner_mut (PRange lo hi incl) = (\<lambda>E t m o'. id)"
| "bind_pattern_inner_mut PWildcard = (\<lambda>E t m o'. id)"
| "bind_pattern_inner_mut (PLiteral l) = (\<lambda>E t m o'. id)"

definition bind_pattern :: "flow_env \<Rightarrow> pat_id \<Rightarrow> ty_id \<Rightarrow> borrow_cx \<Rightarrow> borrow_cx" where
  "bind_pattern E pid t = bind_pattern_inner_mut (fe_pats E pid) E t False Owned"

definition bind_pattern_mut_with_state ::
  "flow_env \<Rightarrow> pat_id \<Rightarrow> ty_id \<Rightarrow> bool \<Rightarrow> ownership \<Rightarrow> borrow_cx \<Rightarrow> borrow_cx" where
  "bind_pattern_mut_with_state E pid t m o' = bind_pattern_inner_mut (fe_pats E pid) E t m o'"

definition pattern_single_name :: "flow_env \<Rightarrow> pat_id \<Rightarrow> string option" where
  "pattern_single_name E pid = (case fe_pats E pid of PBinding n None \<Rightarrow> Some n | _ \<Rightarrow> None)"

section \<open>Places\<close>

definition segs_to_place :: "borrow_cx \<Rightarrow> string list \<Rightarrow> place option" where
  "segs_to_place s segs =
     (case segs of
        [] \<Rightarrow> None
      | x # xs \<Rightarrow>
          if bc_locals s x = None then None
          else Some (truncate_for_v0_3 ((Place_root x)\<lparr>projs := projs (Place_root x) @ map Field xs\<rparr>)))"

fun expr_as_place :: "borrow_cx \<Rightarrow> expr \<Rightarrow> place option" where
  "expr_as_place s (EPath segs) = segs_to_place s segs"
| "expr_as_place s (EPathGeneric segs _) = segs_to_place s segs"
| "expr_as_place s (EField r n) = map_option (\<lambda>p. truncate_for_v0_3 (with_field p n)) (expr_as_place s r)"
| "expr_as_place s (EUnary UDeref r) = map_option (\<lambda>p. truncate_for_v0_3 (with_deref p)) (expr_as_place s r)"
| "expr_as_place s (EIndex r _) = map_option (\<lambda>p. truncate_for_v0_3 (with_index p)) (expr_as_place s r)"
| "expr_as_place s _ = None"

definition lhs_root_name :: "expr \<Rightarrow> string option" where
  "lhs_root_name e = (case e of EPath [x] \<Rightarrow> Some x | _ \<Rightarrow> None)"

fun expr_pretty_name :: "expr \<Rightarrow> string" where
  "expr_pretty_name (EPath segs) = str_join ''.'' segs"
| "expr_pretty_name (EPathGeneric segs _) = str_join ''.'' segs"
| "expr_pretty_name (EField r n) = expr_pretty_name r @ ''.'' @ n"
| "expr_pretty_name _ = ''<ref>''"

section \<open>Uses, moves and borrows of a local\<close>

definition advance_point_and_record_use :: "string \<Rightarrow> borrow_cx \<Rightarrow> borrow_cx" where
  "advance_point_and_record_use n s = s\<lparr>bc_point := bc_point s + 1\<rparr>"

definition maybe_decay_after_use :: "string \<Rightarrow> borrow_cx \<Rightarrow> borrow_cx" where
  "maybe_decay_after_use n s =
     (case LastUseMap_get (bc_last_use s) n of
        None \<Rightarrow> s
      | Some last_pt \<Rightarrow>
          if last_pt \<le> bc_point s - 1
          then (let (kept, removed) = decay_borrower (bc_ledger s) n
                in recompute_all removed (s\<lparr>bc_ledger := kept\<rparr>))
          else s)"

definition do_use :: "string \<Rightarrow> source_span \<Rightarrow> borrow_cx \<Rightarrow> borrow_cx" where
  "do_use n sp s =
     (case bc_locals s n of
        None \<Rightarrow> s
      | Some ls \<Rightarrow>
          (case ls_state ls of
             Moved at \<Rightarrow> push_diag (use_after_move n sp at) s
           | Uninit \<Rightarrow> push_diag (use_of_uninitialized n sp) s
           | _ \<Rightarrow> s))"

definition do_move :: "string \<Rightarrow> source_span \<Rightarrow> borrow_cx \<Rightarrow> borrow_cx" where
  "do_move n sp s =
     (let has_subplace_borrow = list_ex (\<lambda>r. root (br_place r) = n \<and> projs (br_place r) \<noteq> []) (bc_ledger s);
          has_root_borrow = list_ex (\<lambda>r. root (br_place r) = n \<and> projs (br_place r) = []) (bc_ledger s);
          borrowed = (if has_subplace_borrow \<and> \<not> has_root_borrow
                      then push_diag (move_out_of_borrow n sp) s
                      else push_diag (cannot_move_borrowed n sp) s)
      in case bc_locals s n of
           None \<Rightarrow> s
         | Some ls \<Rightarrow>
             (case ls_state ls of
                Moved at \<Rightarrow> push_diag (use_after_move n sp at) s
              | Uninit \<Rightarrow> push_diag (use_of_uninitialized n sp) s
              | Borrowed _ \<Rightarrow> borrowed
              | BorrowedMut \<Rightarrow> borrowed
              | Owned \<Rightarrow>
                  (let s1 = (if has_subplace_borrow then push_diag (move_out_of_borrow n sp) s else s)
                   in if \<not> ls_is_copy ls then set_state n ls (Moved sp) s1 else s1)))"

text \<open>The conflict a new borrow raises against the records whose places overlap its own.\<close>

definition conflict_diags :: "place \<Rightarrow> borrow_kind \<Rightarrow> source_span \<Rightarrow> borrow_record list \<Rightarrow> diagnostic list" where
  "conflict_diags p kind sp cs =
     (let is_root_borrow = (projs p = []); pretty = show_place p;
          any_mut = list_ex (\<lambda>r. br_kind r = Mut) cs; any_shared = list_ex (\<lambda>r. br_kind r = Shared) cs
      in if length cs = 0 then []
         else case (kind, any_mut, any_shared) of
           (Mut, True, _) \<Rightarrow>
             [if is_root_borrow then two_mut_borrows (root p) sp else two_mut_borrows_place pretty sp]
         | (Mut, False, True) \<Rightarrow>
             [if is_root_borrow then mut_borrow_while_shared (root p) sp else mut_borrow_while_shared_place pretty sp]
         | (Shared, True, _) \<Rightarrow>
             [if is_root_borrow then shared_borrow_while_mut (root p) sp else shared_borrow_while_mut_place pretty sp]
         | (Shared, False, True) \<Rightarrow> []
         | _ \<Rightarrow> [])"

definition record_borrow :: "place \<Rightarrow> borrow_kind \<Rightarrow> source_span \<Rightarrow> borrow_cx \<Rightarrow> borrow_cx" where
  "record_borrow p kind sp s =
     (let s1 = s\<lparr>bc_diag := bc_diag s @ conflict_diags p kind sp (conflicts_with (bc_ledger s) p)\<rparr>;
          s2 = s1\<lparr>bc_ledger := ledger_push (bc_ledger s1)
                   \<lparr>br_place = p, br_kind = kind, br_borrower = bc_pending s1, br_at = sp\<rparr>\<rparr>
      in case bc_locals s2 (root p) of
           None \<Rightarrow> s2
         | Some ls \<Rightarrow>
             (case (ls_state ls, kind) of
                (Owned, Shared) \<Rightarrow> set_state (root p) ls (Borrowed 1) s2
              | (Borrowed count, Shared) \<Rightarrow> set_state (root p) ls (Borrowed (count + 1)) s2
              | (Owned, Mut) \<Rightarrow> set_state (root p) ls BorrowedMut s2
              | _ \<Rightarrow> s2))"

definition try_place_borrow :: "place \<Rightarrow> borrow_kind \<Rightarrow> source_span \<Rightarrow> borrow_cx \<Rightarrow> borrow_cx" where
  "try_place_borrow p kind sp s =
     (let s1 = (case bc_locals s (root p) of
                  Some ls \<Rightarrow> if kind = Mut \<and> \<not> ls_mutable ls
                             then push_diag (mut_borrow_of_immut_local (root p) sp) s else s
                | None \<Rightarrow> s)
      in case bc_locals s1 (root p) of
           Some ls \<Rightarrow>
             (case ls_state ls of
                Moved at \<Rightarrow> push_diag (borrow_after_move (root p) sp at) s1
              | Uninit \<Rightarrow> push_diag (use_of_uninitialized (root p) sp) s1
              | _ \<Rightarrow> record_borrow p kind sp s1)
         | None \<Rightarrow> record_borrow p kind sp s1)"

definition local_is_ref_typed :: "flow_env \<Rightarrow> borrow_cx \<Rightarrow> string \<Rightarrow> bool" where
  "local_is_ref_typed E s n =
     (case bc_locals s n of
        Some ls \<Rightarrow> (case arena_get (fe_arena E) (ls_ty ls) of TRef _ _ \<Rightarrow> True | _ \<Rightarrow> False)
      | None \<Rightarrow> False)"

definition do_borrow_shared :: "flow_env \<Rightarrow> string \<Rightarrow> source_span \<Rightarrow> borrow_cx \<Rightarrow> borrow_cx" where
  "do_borrow_shared E n sp s =
     (if local_is_ref_typed E s n then do_use n sp s else try_place_borrow (Place_root n) Shared sp s)"

definition do_borrow_mut :: "flow_env \<Rightarrow> string \<Rightarrow> source_span \<Rightarrow> borrow_cx \<Rightarrow> borrow_cx" where
  "do_borrow_mut E n sp s =
     (if local_is_ref_typed E s n then do_use n sp s else try_place_borrow (Place_root n) Mut sp s)"

definition do_assign :: "string \<Rightarrow> source_span \<Rightarrow> borrow_cx \<Rightarrow> borrow_cx" where
  "do_assign n sp s =
     (case bc_locals s n of
        None \<Rightarrow> s
      | Some ls \<Rightarrow>
          set_state n ls Owned (if \<not> ls_mutable ls then push_diag (assign_to_immut_local n sp) s else s))"

fun walk_for_points_only :: "expr \<Rightarrow> borrow_cx \<Rightarrow> borrow_cx" where
  "walk_for_points_only (EPath (x # xs)) s = maybe_decay_after_use x (advance_point_and_record_use x s)"
| "walk_for_points_only (EPathGeneric (x # xs) gs) s = maybe_decay_after_use x (advance_point_and_record_use x s)"
| "walk_for_points_only (EField r n) s = walk_for_points_only r s"
| "walk_for_points_only (EUnary p r) s = walk_for_points_only r s"
| "walk_for_points_only (EIndex r i) s = walk_for_points_only i (walk_for_points_only r s)"
| "walk_for_points_only _ s = s"

section \<open>Joins and loops\<close>

definition join_ledgers :: "borrow_ledger \<Rightarrow> borrow_ledger \<Rightarrow> borrow_ledger" where
  "join_ledgers a b =
     foldl (\<lambda>out r. if list_ex (\<lambda>x. br_place x = br_place r \<and> br_kind x = br_kind r \<and> br_borrower x = br_borrower r) out
                    then out else out @ [r]) [] (a @ b)"

definition join_into :: "(string \<rightharpoonup> local_state) \<Rightarrow> borrow_ledger \<Rightarrow> borrow_cx \<Rightarrow> borrow_cx" where
  "join_into ls l s = s\<lparr>bc_locals := join_states ls (bc_locals s), bc_ledger := join_ledgers l (bc_ledger s)\<rparr>"

fun loop_rounds ::
  "nat \<Rightarrow> (string \<rightharpoonup> local_state) \<Rightarrow> borrow_ledger \<Rightarrow> nat \<Rightarrow> (borrow_cx \<Rightarrow> borrow_cx) \<Rightarrow> borrow_cx \<Rightarrow> borrow_cx" where
  "loop_rounds 0 pre_locals pre_ledger prev body s = join_into pre_locals pre_ledger (body s)"
| "loop_rounds (Suc n) pre_locals pre_ledger prev body s =
     (let s1 = join_into pre_locals pre_ledger (body s)
      in if length (bc_ledger s1) = prev then s1
         else loop_rounds n pre_locals pre_ledger (length (bc_ledger s1)) body s1)"

definition loop_fixed_point :: "(borrow_cx \<Rightarrow> borrow_cx) \<Rightarrow> borrow_cx \<Rightarrow> borrow_cx" where
  "loop_fixed_point body s = loop_rounds 16 (bc_locals s) (bc_ledger s) (length (bc_ledger s)) body s"

text \<open>Two branches from the same state: the second is walked from the locals and the ledger saved
  before the first, and the results are joined.\<close>

definition walk_branches :: "(borrow_cx \<Rightarrow> borrow_cx) \<Rightarrow> (borrow_cx \<Rightarrow> borrow_cx) \<Rightarrow> borrow_cx \<Rightarrow> borrow_cx" where
  "walk_branches f g s =
     (let s1 = f s;
          s2 = g (s1\<lparr>bc_locals := bc_locals s, bc_ledger := bc_ledger s\<rparr>)
      in s2\<lparr>bc_locals := join_states (bc_locals s2) (bc_locals s1),
            bc_ledger := join_ledgers (bc_ledger s2) (bc_ledger s1)\<rparr>)"

type_synonym arms_st = "borrow_cx \<times> (string \<rightharpoonup> local_state) option \<times> borrow_ledger option"

definition arm_step ::
  "(string \<rightharpoonup> local_state) \<Rightarrow> borrow_ledger \<Rightarrow> arms_st \<Rightarrow> (borrow_cx \<Rightarrow> borrow_cx) \<Rightarrow> arms_st" where
  "arm_step base base_ledger st w =
     (let (s, j, jl) = st;
          s1 = w (s\<lparr>bc_locals := base, bc_ledger := base_ledger\<rparr>)
      in (s1, Some (case j of Some j' \<Rightarrow> join_states j' (bc_locals s1) | None \<Rightarrow> bc_locals s1),
          Some (case jl of Some l \<Rightarrow> join_ledgers l (bc_ledger s1) | None \<Rightarrow> bc_ledger s1)))"

definition walk_arms :: "(borrow_cx \<Rightarrow> borrow_cx) list \<Rightarrow> borrow_cx \<Rightarrow> borrow_cx" where
  "walk_arms ws s =
     (let (s', j, jl) = foldl (arm_step (bc_locals s) (bc_ledger s)) (s, None, None) ws
      in s'\<lparr>bc_locals := (case j of Some j' \<Rightarrow> j' | None \<Rightarrow> bc_locals s),
            bc_ledger := (case jl of Some l \<Rightarrow> l | None \<Rightarrow> bc_ledger s)\<rparr>)"

definition in_frame :: "u32 option \<Rightarrow> (borrow_cx \<Rightarrow> borrow_cx) \<Rightarrow> borrow_cx \<Rightarrow> borrow_cx" where
  "in_frame region f s = pop_frame (f (push_frame region s))"

section \<open>The walk\<close>

definition ty_or_unit :: "flow_env \<Rightarrow> nat list \<Rightarrow> ty_id" where
  "ty_or_unit E \<pi> = (case fe_expr_ty E \<pi> of Some t \<Rightarrow> t | None \<Rightarrow> unit_id)"

definition check_deref_move :: "flow_env \<Rightarrow> nat list \<Rightarrow> expr \<Rightarrow> borrow_cx \<Rightarrow> borrow_cx" where
  "check_deref_move E \<pi> ref_expr s =
     (case fe_expr_ty E \<pi> of
        None \<Rightarrow> s
      | Some rty \<Rightarrow>
          (case arena_get (fe_arena E) rty of
             TRef _ inner \<Rightarrow>
               if is_copy inner (fe_arena E) (fe_defs E) then s
               else push_diag (move_out_of_ref_named (expr_pretty_name ref_expr) zero_span) s
           | _ \<Rightarrow> s))"

definition walk_path :: "flow_env \<Rightarrow> string list \<Rightarrow> position \<Rightarrow> borrow_cx \<Rightarrow> borrow_cx \<times> string option" where
  "walk_path E segs pos s =
     (case segs of
        [] \<Rightarrow> (s, None)
      | name # rest \<Rightarrow>
          (let s1 = advance_point_and_record_use name s
           in if rest = [] \<and> bc_locals s1 name \<noteq> None
              then (maybe_decay_after_use name
                     (case plain pos of
                        PMove \<Rightarrow> do_move name zero_span s1
                      | PBorrowShared \<Rightarrow> do_borrow_shared E name zero_span s1
                      | PBorrowMut \<Rightarrow> do_borrow_mut E name zero_span s1
                      | PAssignTarget \<Rightarrow> do_assign name zero_span s1
                      | _ \<Rightarrow> do_use name zero_span s1), Some name)
              else
                (let s2 = (case bc_locals s1 name of
                             None \<Rightarrow> s1
                           | Some ls \<Rightarrow>
                               (case plain pos of
                                  PMove \<Rightarrow> do_move name zero_span s1
                                | PAssignTarget \<Rightarrow>
                                    if \<not> ls_mutable ls then push_diag (assign_to_immut_local name zero_span) s1 else s1
                                | _ \<Rightarrow> do_use name zero_span s1))
                 in (maybe_decay_after_use name s2, if rest = [] then Some name else None))))"

definition walk_path_generic :: "string list \<Rightarrow> position \<Rightarrow> borrow_cx \<Rightarrow> borrow_cx \<times> string option" where
  "walk_path_generic segs pos s =
     (case segs of
        [] \<Rightarrow> (s, None)
      | name # rest \<Rightarrow>
          (let s1 = advance_point_and_record_use name s
           in if rest = [] \<and> bc_locals s1 name \<noteq> None
              then (maybe_decay_after_use name (if plain pos = PUse then do_use name zero_span s1 else s1), Some name)
              else (maybe_decay_after_use name s1, None)))"

definition is_assign :: "bin_op \<Rightarrow> bool" where
  "is_assign op = (op \<in> {BAssign, BAssignAdd, BAssignSub, BAssignMul, BAssignDiv, BAssignRem,
     BAssignBitAnd, BAssignBitOr, BAssignBitXor, BAssignShl, BAssignShr})"

text \<open>The borrower the right-hand side of a \<open>let\<close> or of a plain assignment stamps on its borrows.\<close>

definition with_pending :: "string option \<Rightarrow> (borrow_cx \<Rightarrow> borrow_cx) \<Rightarrow> borrow_cx \<Rightarrow> borrow_cx" where
  "with_pending name f s = (f (s\<lparr>bc_pending := name\<rparr>))\<lparr>bc_pending := bc_pending s\<rparr>"

definition param_tys :: "flow_env \<Rightarrow> nat list \<Rightarrow> ty_id list" where
  "param_tys E \<pi> =
     (case fe_expr_ty E \<pi> of
        Some t \<Rightarrow> (case arena_get (fe_arena E) t of TFn params _ _ \<Rightarrow> params | _ \<Rightarrow> [])
      | None \<Rightarrow> [])"

definition arg_position :: "flow_env \<Rightarrow> ty_id list \<Rightarrow> nat \<Rightarrow> position" where
  "arg_position E ps i =
     (case vec_get ps i of
        Some pt \<Rightarrow> (case arena_get (fe_arena E) pt of
                      TRef True _ \<Rightarrow> PBorrowMut | TRef False _ \<Rightarrow> PBorrowShared | _ \<Rightarrow> PUse)
      | None \<Rightarrow> PUse)"

definition elem_ty :: "flow_env \<Rightarrow> ty_id \<Rightarrow> ty_id" where
  "elem_ty E t =
     (case arena_get (fe_arena E) t of
        TArray e _ \<Rightarrow> e
      | TRef _ i \<Rightarrow> (case arena_get (fe_arena E) i of TArray e _ \<Rightarrow> e | _ \<Rightarrow> unit_id)
      | _ \<Rightarrow> unit_id)"

type_synonym flow_walk = "flow_env \<Rightarrow> nat list \<Rightarrow> position \<Rightarrow> borrow_cx \<Rightarrow> borrow_cx \<times> string option"

definition go :: "flow_walk \<Rightarrow> flow_env \<Rightarrow> nat list \<Rightarrow> position \<Rightarrow> borrow_cx \<Rightarrow> borrow_cx" where
  "go w E \<pi> pos s = fst (w E \<pi> pos s)"

text \<open>The children of a list, at consecutive positions from \<open>k\<close>.\<close>

definition go_list :: "flow_walk list \<Rightarrow> flow_env \<Rightarrow> nat list \<Rightarrow> nat \<Rightarrow> position \<Rightarrow> borrow_cx \<Rightarrow> borrow_cx" where
  "go_list ws E \<pi> k pos = seq_all (map (\<lambda>(i, w). go w E (i # \<pi>) pos) (enumerate k ws))"

definition go_opt :: "flow_walk option \<Rightarrow> flow_env \<Rightarrow> nat list \<Rightarrow> position \<Rightarrow> borrow_cx \<Rightarrow> borrow_cx" where
  "go_opt w E \<pi> pos = seq_opt (map_option (\<lambda>w. go w E \<pi> pos) w)"

definition call_args :: "flow_walk list \<Rightarrow> flow_env \<Rightarrow> nat list \<Rightarrow> borrow_cx \<Rightarrow> borrow_cx" where
  "call_args ws E \<pi> =
     seq_all (map (\<lambda>(i, w). go w E (Suc i # \<pi>) (arg_position E (param_tys E (0 # \<pi>)) i)) (enumerate 0 ws))"

definition message_arg :: "flow_walk \<Rightarrow> flow_env \<Rightarrow> nat list \<Rightarrow> borrow_cx \<Rightarrow> borrow_cx" where
  "message_arg w E \<pi> s =
     (let (s1, arg_name) = w E \<pi> PMove s
      in case fe_expr_ty E \<pi> of
           Some t \<Rightarrow>
             if \<not> is_sendable t (fe_arena E) (fe_defs E)
             then push_diag (non_sendable_message_arg (case arg_name of Some n \<Rightarrow> n | None \<Rightarrow> ''<arg>'') zero_span) s1
             else s1
         | None \<Rightarrow> s1)"

definition walk_message :: "flow_walk \<Rightarrow> flow_walk list \<Rightarrow> flow_walk" where
  "walk_message t ws E \<pi> pos s =
     (seq_all (map (\<lambda>(i, w). message_arg w E (i # \<pi>)) (enumerate 1 ws)) (go t E (0 # \<pi>) PUse s), None)"

definition check_arena_escape :: "u32 \<Rightarrow> borrow_cx \<times> string option \<Rightarrow> borrow_cx" where
  "check_arena_escape region st =
     (case snd st of
        Some n \<Rightarrow>
          (case bc_locals (fst st) n of
             Some ls \<Rightarrow> if ls_arena_region ls = Some region \<and> \<not> ls_is_copy ls
                        then push_diag (arena_escape n zero_span) (fst st) else fst st
           | None \<Rightarrow> fst st)
      | None \<Rightarrow> fst st)"

definition walk_arena :: "flow_walk \<Rightarrow> flow_walk" where
  "walk_arena w E \<pi> pos s =
     (let (s0, region) = fresh_arena s
      in (in_frame (Some region) (\<lambda>s. check_arena_escape region (w E (0 # \<pi>) ArenaBody s)) s0, None))"

definition walk_lambda :: "hir_param list \<Rightarrow> flow_walk \<Rightarrow> flow_env \<Rightarrow> nat list \<Rightarrow> borrow_cx \<Rightarrow> borrow_cx" where
  "walk_lambda params body E \<pi> s =
     (let s1 = in_frame None
                 (in_frame None (go body E (0 # \<pi>) PUse) \<circ>
                  seq_all (map (\<lambda>p. bind_local E (hp_name p) unit_id (hp_span p) False) params)) s
      in s1\<lparr>bc_locals := bc_locals s, bc_ledger := bc_ledger s\<rparr>)"

primrec walk_expr :: "expr \<Rightarrow> flow_walk"
  and walk_body :: "block \<Rightarrow> flow_walk"
  and walk_stmt :: "stmt \<Rightarrow> flow_env \<Rightarrow> nat list \<Rightarrow> borrow_cx \<Rightarrow> borrow_cx"
  and walk_arg :: "arg \<Rightarrow> flow_walk"
  and walk_arm :: "match_arm \<Rightarrow> flow_env \<Rightarrow> nat list \<Rightarrow> ty_id \<Rightarrow> borrow_cx \<Rightarrow> borrow_cx" where
  "walk_expr (EPath segs) = (\<lambda>E \<pi> pos. walk_path E segs pos)"
| "walk_expr (EPathGeneric segs gs) = (\<lambda>E \<pi> pos. walk_path_generic segs pos)"
| "walk_expr (ELiteral l) = (\<lambda>E \<pi> pos s. (s, None))"
| "walk_expr (EBlock b) = (\<lambda>E \<pi> pos s.
     if pos = ArenaBody then walk_body b E \<pi> PUse s else (in_frame None (go (walk_body b) E \<pi> PUse) s, None))"
| "walk_expr (ETuple xs) = (\<lambda>E \<pi> pos s. (go_list (map walk_expr xs) E \<pi> 0 PUse s, None))"
| "walk_expr (EArray xs) = (\<lambda>E \<pi> pos s. (go_list (map walk_expr xs) E \<pi> 0 PUse s, None))"
| "walk_expr (EBinary op l r) = (\<lambda>E \<pi> pos s.
     let s1 = go (walk_expr l) E (0 # \<pi>) (if is_assign op then PAssignTarget else PUse) s;
         bind_name = (if op = BAssign then lhs_root_name l else None)
     in (if bind_name \<noteq> None then with_pending bind_name (go (walk_expr r) E (1 # \<pi>) PUse) s1
         else go (walk_expr r) E (1 # \<pi>) PUse s1, None))"
| "walk_expr (EUnary op r) = (\<lambda>E \<pi> pos s.
     (go (walk_expr r) E (0 # \<pi>) PUse
        (if op = UDeref \<and> plain pos = PUse then check_deref_move E (0 # \<pi>) r s else s), None))"
| "walk_expr (EBorrow mutable inner) = (\<lambda>E \<pi> pos s.
     (case expr_as_place s inner of
        Some p \<Rightarrow> walk_for_points_only inner (try_place_borrow p (if mutable then Mut else Shared) zero_span s)
      | None \<Rightarrow> go (walk_expr inner) E (0 # \<pi>) (if mutable then PBorrowMut else PBorrowShared) s, None))"
| "walk_expr (EMove inner) = (\<lambda>E \<pi> pos s.
     (go (walk_expr inner) E (0 # \<pi>) PMove
        (case inner of EUnary UDeref r \<Rightarrow> check_deref_move E (0 # 0 # \<pi>) r s | _ \<Rightarrow> s), None))"
| "walk_expr (ECall c args) = (\<lambda>E \<pi> pos s.
     (call_args (map walk_arg args) E \<pi> (go (walk_expr c) E (0 # \<pi>) PUse s), None))"
| "walk_expr (EMethodCall r m args) = (\<lambda>E \<pi> pos s.
     (go_list (map walk_arg args) E \<pi> 1 PUse (go (walk_expr r) E (0 # \<pi>) PBorrowShared s), None))"
| "walk_expr (EField r n) = (\<lambda>E \<pi> pos s. (go (walk_expr r) E (0 # \<pi>) PUse s, None))"
| "walk_expr (EIndex r i) = (\<lambda>E \<pi> pos s.
     (go (walk_expr i) E (1 # \<pi>) PUse (go (walk_expr r) E (0 # \<pi>) PUse s), None))"
| "walk_expr (EIf c t e) = (\<lambda>E \<pi> pos s.
     (walk_branches (in_frame None (go (walk_body t) E (1 # \<pi>) PUse)) (go_opt (map_option walk_expr e) E (2 # \<pi>) PUse)
        (go (walk_expr c) E (0 # \<pi>) PUse s), None))"
| "walk_expr (EIfLet p c t e) = (\<lambda>E \<pi> pos s.
     (walk_branches
        (in_frame None (in_frame None (go (walk_body t) E (1 # \<pi>) PUse) \<circ> bind_pattern E p (ty_or_unit E (0 # \<pi>))))
        (go_opt (map_option walk_expr e) E (2 # \<pi>) PUse)
        (go (walk_expr c) E (0 # \<pi>) PUse s), None))"
| "walk_expr (EMatch c arms) = (\<lambda>E \<pi> pos s.
     (walk_arms (map (\<lambda>(i, w). w E (i # \<pi>) (ty_or_unit E (0 # \<pi>))) (enumerate 1 (map walk_arm arms)))
        (go (walk_expr c) E (0 # \<pi>) PUse s), None))"
| "walk_expr (EFor p i b) = (\<lambda>E \<pi> pos s.
     (loop_fixed_point
        (in_frame None (in_frame None (go (walk_body b) E (1 # \<pi>) PUse) \<circ>
           bind_pattern E p (elem_ty E (ty_or_unit E (0 # \<pi>)))))
        (go (walk_expr i) E (0 # \<pi>) PUse s), None))"
| "walk_expr (EWhile c b) = (\<lambda>E \<pi> pos s.
     (loop_fixed_point (in_frame None (go (walk_body b) E (1 # \<pi>) PUse)) (go (walk_expr c) E (0 # \<pi>) PUse s), None))"
| "walk_expr (EWhileLet p c b) = (\<lambda>E \<pi> pos s.
     (loop_fixed_point
        (in_frame None (in_frame None (go (walk_body b) E (1 # \<pi>) PUse) \<circ> bind_pattern E p (ty_or_unit E (0 # \<pi>))))
        (go (walk_expr c) E (0 # \<pi>) PUse s), None))"
| "walk_expr (ELoop b) = (\<lambda>E \<pi> pos s.
     (loop_fixed_point (in_frame None (go (walk_body b) E (0 # \<pi>) PUse)) s, None))"
| "walk_expr (EReturn e) = (\<lambda>E \<pi> pos s. (go_opt (map_option walk_expr e) E (0 # \<pi>) PMove s, None))"
| "walk_expr (EBreak e) = (\<lambda>E \<pi> pos s. (go_opt (map_option walk_expr e) E (0 # \<pi>) PMove s, None))"
| "walk_expr EContinue = (\<lambda>E \<pi> pos s. (s, None))"
| "walk_expr (EStruct p fs) = (\<lambda>E \<pi> pos s. (go_list (map snd (map (map_prod id walk_expr) fs)) E \<pi> 0 PUse s, None))"
| "walk_expr (EMap es) = (\<lambda>E \<pi> pos s.
     (seq_all (map (\<lambda>(i, k, v). go v E (1 # i # \<pi>) PUse \<circ> go k E (0 # i # \<pi>) PUse)
        (enumerate 0 (map (map_prod walk_expr walk_expr) es))) s, None))"
| "walk_expr (ESend t m args) = walk_message (walk_expr t) (map walk_arg args)"
| "walk_expr (EAsk t m args) = walk_message (walk_expr t) (map walk_arg args)"
| "walk_expr (EDeadline i d) = (\<lambda>E \<pi> pos s. walk_expr i E (0 # \<pi>) (plain pos) (go (walk_expr d) E (1 # \<pi>) PUse s))"
| "walk_expr (EQuestion i) = (\<lambda>E \<pi> pos. walk_expr i E (0 # \<pi>) (plain pos))"
| "walk_expr (ESpawn k i) = (\<lambda>E \<pi> pos s. (go (walk_expr i) E (0 # \<pi>) PUse s, None))"
| "walk_expr (EDetach i) = (\<lambda>E \<pi> pos s. (go (walk_expr i) E (0 # \<pi>) PUse s, None))"
| "walk_expr (EJoin i) = (\<lambda>E \<pi> pos s. (go (walk_expr i) E (0 # \<pi>) PUse s, None))"
| "walk_expr (EHtmlTemplate h) = (\<lambda>E \<pi> pos s. (s, None))"
| "walk_expr (EUnsafe b) = (\<lambda>E \<pi> pos s. (in_frame None (go (walk_body b) E \<pi> PUse) s, None))"
| "walk_expr (EArena n b) = walk_arena (walk_expr b)"
| "walk_expr (ETaskScope d b) = (\<lambda>E \<pi> pos s. (in_frame None (go (walk_body b) E (1 # \<pi>) PUse) s, None))"
| "walk_expr (EBudget es b) = (\<lambda>E \<pi> pos s.
     (go (walk_expr b) E (0 # \<pi>) PUse (go_list (map snd (map (map_prod id walk_expr) es)) E \<pi> 1 PUse s), None))"
| "walk_expr (ESandbox n es b) = (\<lambda>E \<pi> pos s.
     (in_frame None (go (walk_body b) E (0 # \<pi>) PUse)
        (go_list (map snd (map (map_prod id walk_expr) es)) E \<pi> 1 PUse s), None))"
| "walk_expr (ECast l t) = (\<lambda>E \<pi> pos s. (go (walk_expr l) E (0 # \<pi>) PUse s, None))"
| "walk_expr (ELambda ps r b) = (\<lambda>E \<pi> pos s. (walk_lambda ps (walk_body b) E \<pi> s, None))"
| "walk_expr (ERun i) = (\<lambda>E \<pi> pos. walk_expr i E (0 # \<pi>) (plain pos))"
| "walk_expr EError = (\<lambda>E \<pi> pos s. (s, None))"
| "walk_body (Block ss t) = (\<lambda>E \<pi> pos s.
     let s1 = seq_all (map (\<lambda>(i, w). w E (i # \<pi>)) (enumerate 0 (map walk_stmt ss))) s
     in case map_option walk_expr t of
          Some w \<Rightarrow> w E (length ss # \<pi>) PUse s1
        | None \<Rightarrow> (s1, None))"
| "walk_stmt (SLet p ty init mutable) = (\<lambda>E \<pi> s.
     let bind_name = pattern_single_name E p;
         (s1, init_ty) = (case map_option walk_expr init of
                            Some w \<Rightarrow> (with_pending bind_name (go w E \<pi> PUse) s, ty_or_unit E \<pi>)
                          | None \<Rightarrow> (s, unit_id))
     in bind_pattern_mut_with_state E p init_ty mutable (if init = None then Uninit else Owned) s1)"
| "walk_stmt (SExpr e) = (\<lambda>E \<pi>. go (walk_expr e) E \<pi> PUse)"
| "walk_arg (Arg n e) = walk_expr e"
| "walk_arm (Arm p g b) = (\<lambda>E \<pi> scrut_ty.
     in_frame None
       (go (walk_expr b) E (1 # \<pi>) PUse \<circ> go_opt (map_option walk_expr g) E (0 # \<pi>) PUse \<circ> bind_pattern E p scrut_ty))"

definition walk_block :: "block \<Rightarrow> flow_env \<Rightarrow> nat list \<Rightarrow> borrow_cx \<Rightarrow> borrow_cx" where
  "walk_block b E \<pi> = in_frame None (go (walk_body b) E \<pi> PUse)"

section \<open>Packages\<close>

definition bind_params :: "flow_env \<Rightarrow> (string \<times> ty_id) list \<Rightarrow> source_span \<Rightarrow> borrow_cx \<Rightarrow> borrow_cx" where
  "bind_params E params sp = seq_all (map (\<lambda>(n, t). bind_local E n t sp False) params)"

definition check_fn_body ::
  "flow_env \<Rightarrow> (string \<times> ty_id) list option \<Rightarrow> source_span \<Rightarrow> block \<Rightarrow> nat list \<Rightarrow>
   diagnostic list \<times> drop_entry list \<Rightarrow> diagnostic list \<times> drop_entry list" where
  "check_fn_body E params sp body \<pi> st =
     (let s0 = (BorrowCx_new (fst st) (snd st))\<lparr>bc_last_use := fst (compute_last_use body)\<rparr>;
          s = in_frame None
                (walk_block body E \<pi> \<circ> (case params of Some ps \<Rightarrow> bind_params E ps sp | None \<Rightarrow> id)) s0
      in (bc_diag s, bc_drops s))"

definition check_standalone ::
  "flow_env \<Rightarrow> expr \<Rightarrow> nat list \<Rightarrow> diagnostic list \<times> drop_entry list \<Rightarrow> diagnostic list \<times> drop_entry list" where
  "check_standalone E e \<pi> st =
     (let s = in_frame None (go (walk_expr e) E \<pi> PUse) (BorrowCx_new (fst st) (snd st))
      in (bc_diag s, bc_drops s))"

definition check_handler ::
  "flow_env \<Rightarrow> string list \<Rightarrow> source_span \<Rightarrow> block \<Rightarrow> nat list \<Rightarrow>
   diagnostic list \<times> drop_entry list \<Rightarrow> diagnostic list \<times> drop_entry list" where
  "check_handler E params sp body \<pi> st =
     (let s = in_frame None
                (walk_block body E \<pi> \<circ> bind_params E (map (\<lambda>n. (n, unit_id)) params) sp)
                (BorrowCx_new (fst st) (snd st))
      in (bc_diag s, bc_drops s))"

record hir_handler =
  hd_params :: "string list"
  hd_body :: block
  hd_span :: source_span

datatype flow_item =
    FAgent "(string \<times> expr option) list" "hir_handler list"
  | FSupervisor "(string \<times> expr) list"
  | FOther

text \<open>The root positions of the bodies of a package: function \<open>i\<close> is rooted at \<open>[i, 0]\<close>, part
  \<open>j\<close> of top-level item \<open>i\<close> at \<open>[j, i, 1]\<close>, the state initialisers before the handlers.\<close>

definition check_item ::
  "flow_env \<Rightarrow> nat \<times> flow_item \<Rightarrow> diagnostic list \<times> drop_entry list \<Rightarrow> diagnostic list \<times> drop_entry list" where
  "check_item E it =
     (case snd it of
        FAgent states handlers \<Rightarrow>
          seq_all (map (\<lambda>(j, h). check_handler E (hd_params h) (hd_span h) (hd_body h) [j, fst it, 1])
            (enumerate (length states) handlers)) \<circ>
          seq_all (map (\<lambda>(j, _, init). case init of Some e \<Rightarrow> check_standalone E e [j, fst it, 1] | None \<Rightarrow> id)
            (enumerate 0 states))
      | FSupervisor children \<Rightarrow>
          seq_all (map (\<lambda>(j, _, e). check_standalone E e [j, fst it, 1]) (enumerate 0 children))
      | FOther \<Rightarrow> id)"

definition flow_run ::
  "flow_env \<Rightarrow> (hir_fn \<times> (string \<times> ty_id) list option) list \<Rightarrow> flow_item list \<Rightarrow> diagnostic list" where
  "flow_run E fns items =
     (let st = seq_all (map (\<lambda>(i, f, params). case fn_body f of
                               Some body \<Rightarrow> check_fn_body E params (fn_span f) body [i, 0]
                             | None \<Rightarrow> id) (enumerate 0 fns)) ([], [])
      in fst (seq_all (map (check_item E) (enumerate 0 items)) st))"

end
