(* ===== verification/Borrow_Frames.thy ===== *)
theory Borrow_Frames
  imports Borrow_Flow
begin

text \<open>
  What every walk of the borrow checker keeps, whatever the program: the stack of scopes is balanced
  (so popping never panics), the last-use table and the pending borrower are as before, program
  points do not go back, and the lists of diagnostics and drop intents only grow, the diagnostics by
  errors of this pass. \<open>keeps R\<close> says this of two states with the scopes related by \<open>R\<close>: equality
  for an expression, \<open>grown\<close> for a statement, which may bind names in the innermost frame.
\<close>

section \<open>The relation\<close>

fun grown :: "scope_frame list \<Rightarrow> scope_frame list \<Rightarrow> bool" where
  "grown (f # fs) (g # gs) \<longleftrightarrow>
     fs = gs \<and> sf_arena_region g = sf_arena_region f \<and> (\<exists>ns. sf_locals g = sf_locals f @ ns)"
| "grown fs gs \<longleftrightarrow> fs = [] \<and> gs = []"

definition keeps :: "(scope_frame list \<Rightarrow> scope_frame list \<Rightarrow> bool) \<Rightarrow> borrow_cx \<Rightarrow> borrow_cx \<Rightarrow> bool" where
  "keeps R s s' \<longleftrightarrow>
     R (bc_scopes s) (bc_scopes s') \<and> bc_last_use s' = bc_last_use s \<and> bc_pending s' = bc_pending s \<and>
     bc_panicked s' = bc_panicked s \<and> bc_point s \<le> bc_point s' \<and>
     (\<exists>ds. bc_diag s' = bc_diag s @ ds \<and> list_all is_borrow_error ds) \<and>
     (\<exists>xs. bc_drops s' = bc_drops s @ xs)"

abbreviation kept :: "borrow_cx \<Rightarrow> borrow_cx \<Rightarrow> bool" where
  "kept \<equiv> keeps (=)"

lemma scopes_grown_refl [simp]: "grown fs fs"
  by (cases fs) (auto intro: exI [of _ "[]"])

lemma scopes_grown_trans: "grown a b \<Longrightarrow> grown b c \<Longrightarrow> grown a c"
  by (cases a; cases b; cases c) auto

lemma keeps_refl [simp]: "kept s s" "keeps grown s s"
  by (auto simp: keeps_def)

lemma keeps_grown: "kept s s' \<Longrightarrow> keeps grown s s'"
  by (auto simp: keeps_def)

lemma keeps_trans:
  assumes "transp R" "keeps R a b" "keeps R b c"
  shows "keeps R a c"
proof -
  have "\<exists>ds. bc_diag c = bc_diag a @ ds \<and> list_all is_borrow_error ds"
    using assms(2,3) by (auto simp: keeps_def)
  moreover have "\<exists>xs. bc_drops c = bc_drops a @ xs" using assms(2,3) by (auto simp: keeps_def)
  ultimately show ?thesis using assms by (auto simp: keeps_def dest: transpD)
qed

lemma transp_R [simp]: "transp grown" "transp ((=) :: scope_frame list \<Rightarrow> _)"
  by (auto intro!: transpI dest: scopes_grown_trans)

lemmas kept_trans = keeps_trans [OF transp_R(2)]
lemmas grows_trans = keeps_trans [OF transp_R(1)]

lemma keeps_seq_all:
  assumes "transp R" "\<And>s. keeps R s s" "\<And>f s. f \<in> set fs \<Longrightarrow> keeps R s (f s)"
  shows "keeps R s (seq_all fs s)"
  using assms(3)
proof (induction fs arbitrary: s)
  case (Cons f fs)
  from Cons.prems [of f s] Cons.IH [of "f s"] Cons.prems show ?case
    by (auto simp: seq_all_def intro: keeps_trans [OF assms(1)])
qed (use assms in \<open>simp add: seq_all_def\<close>)

lemmas kept_seq_all = keeps_seq_all [OF transp_R(2) keeps_refl(1)]
lemmas grows_seq_all = keeps_seq_all [OF transp_R(1) keeps_refl(2)]

lemma keeps_seq_opt: "(\<And>s. keeps R s s) \<Longrightarrow> (\<And>f s. fo = Some f \<Longrightarrow> keeps R s (f s)) \<Longrightarrow> keeps R s (seq_opt fo s)"
  by (auto simp: seq_opt_def split: option.split)

section \<open>Operations on one local\<close>

lemma kept_push_diag: "is_borrow_error d \<Longrightarrow> kept s (push_diag d s)"
  by (simp add: keeps_def push_diag_def)

lemma kept_append_diag: "list_all is_borrow_error ds \<Longrightarrow> kept s (s\<lparr>bc_diag := bc_diag s @ ds\<rparr>)"
  by (simp add: keeps_def)

lemma kept_set_state: "kept s (set_state n ls o' s)"
  by (simp add: keeps_def set_state_def)

lemma kept_recompute_root_state: "kept s (recompute_root_state n s)"
  by (auto simp: recompute_root_state_def Let_def kept_set_state split: option.split ownership.split)

lemma kept_recompute_all: "kept s (recompute_all rs s)"
  unfolding recompute_all_def by (rule kept_seq_all) (auto simp: kept_recompute_root_state)

lemma kept_locals [simp]: "kept s (s\<lparr>bc_locals := m\<rparr>)" "kept s (s\<lparr>bc_ledger := l\<rparr>)"
    "kept s (s\<lparr>bc_locals := m, bc_ledger := l\<rparr>)"
  by (simp_all add: keeps_def)

lemma kept_advance: "kept s (advance_point_and_record_use n s)"
  by (simp add: keeps_def advance_point_and_record_use_def)

lemma kept_maybe_decay: "kept s (maybe_decay_after_use n s)"
  by (auto simp: maybe_decay_after_use_def Let_def split_beta intro: kept_trans [OF kept_locals(2) kept_recompute_all]
      split: option.split)

lemma kept_do_use: "kept s (do_use n sp s)"
  by (auto simp: do_use_def kept_push_diag split: option.split ownership.split)

lemma kept_do_move: "kept s (do_move n sp s)"
  by (auto simp: do_move_def Let_def kept_push_diag intro: kept_trans [OF kept_push_diag kept_set_state] kept_set_state
      split: option.split ownership.split)

lemma conflict_diags_errors: "list_all is_borrow_error (conflict_diags p k sp cs)"
  by (auto simp: conflict_diags_def Let_def split: borrow_kind.split bool.split)

lemma kept_record_borrow: "kept s (record_borrow p k sp s)"
proof -
  let ?s1 = "s\<lparr>bc_diag := bc_diag s @ conflict_diags p k sp (conflicts_with (bc_ledger s) p)\<rparr>"
  let ?s2 = "?s1\<lparr>bc_ledger := ledger_push (bc_ledger ?s1)
      \<lparr>br_place = p, br_kind = k, br_borrower = bc_pending ?s1, br_at = sp\<rparr>\<rparr>"
  have "kept s ?s2"
    by (rule kept_trans [OF kept_append_diag [OF conflict_diags_errors] kept_locals(2)])
  moreover have "kept ?s2 (record_borrow p k sp s)"
    unfolding record_borrow_def Let_def by (simp add: kept_set_state split: option.split ownership.split borrow_kind.split)
  ultimately show ?thesis by (rule kept_trans)
qed

lemma kept_try_place_borrow: "kept s (try_place_borrow p k sp s)"
proof -
  define s1 where "s1 = (case bc_locals s (root p) of
      Some ls \<Rightarrow> if k = Mut \<and> \<not> ls_mutable ls then push_diag (mut_borrow_of_immut_local (root p) sp) s else s
    | None \<Rightarrow> s)"
  have "kept s s1" by (auto simp: s1_def kept_push_diag split: option.split)
  moreover have "kept s1 (try_place_borrow p k sp s)"
    unfolding try_place_borrow_def Let_def s1_def [symmetric]
    by (simp add: kept_push_diag kept_record_borrow split: option.split ownership.split)
  ultimately show ?thesis by (rule kept_trans)
qed

lemma kept_do_borrow: "kept s (do_borrow_shared E n sp s)" "kept s (do_borrow_mut E n sp s)"
  by (simp_all add: do_borrow_shared_def do_borrow_mut_def kept_do_use kept_try_place_borrow)

lemma kept_do_assign: "kept s (do_assign n sp s)"
  by (auto simp: do_assign_def intro: kept_trans [OF kept_push_diag kept_set_state] kept_set_state split: option.split)

lemma kept_point: "kept (advance_point_and_record_use n s) t \<Longrightarrow> kept s (maybe_decay_after_use n t)"
  by (rule kept_trans [OF kept_advance kept_trans [OF _ kept_maybe_decay]])

lemma kept_walk_path: "kept s (fst (walk_path E segs pos s))"
proof (cases segs)
  case (Cons n rest)
  show ?thesis unfolding Cons walk_path_def
    by (auto simp: Let_def kept_do_move kept_do_borrow kept_do_use kept_do_assign kept_push_diag
        intro!: kept_point split: option.split position.split)
qed (simp add: walk_path_def)

lemma kept_walk_path_generic: "kept s (fst (walk_path_generic segs pos s))"
proof (cases segs)
  case (Cons n rest)
  show ?thesis unfolding Cons walk_path_generic_def
    by (auto simp: Let_def kept_do_use intro!: kept_point)
qed (simp add: walk_path_generic_def)

lemma kept_for_points_only: "kept s (walk_for_points_only e s)"
  by (induction e s rule: walk_for_points_only.induct) (auto intro: kept_point [OF keeps_refl(1)] kept_trans)

section \<open>Frames\<close>

lemma grows_bind_local: "keeps grown s (bind_local_with_state E n t sp m o' s)"
  by (simp add: keeps_def bind_local_with_state_def Let_def split: list.split)

lemma grows_bind_pattern: "keeps grown s (bind_pattern_inner_mut p E t m o' s)"
proof (induction p arbitrary: s t)
  case (PBinding n sub)
  then show ?case by (cases sub) (auto simp: seq_opt_def grows_bind_local intro: grows_trans [OF grows_bind_local])
next
  case (PTuple xs)
  then show ?case
    by (auto simp: Let_def in_set_enumerate_eq intro!: grows_seq_all)
next
  case (PStruct p fs)
  have "keeps grown s (f s)" if "f \<in> set (map (\<lambda>(n, sub). case sub of Some f \<Rightarrow> f E unit_id m o'
      | None \<Rightarrow> bind_local_with_state E n unit_id zero_span m o')
        (map (map_prod id (map_option bind_pattern_inner_mut)) fs))" for f s
  proof -
    from that obtain n sub where "(n, sub) \<in> set fs" "f = (case map_option bind_pattern_inner_mut sub of
        Some f \<Rightarrow> f E unit_id m o' | None \<Rightarrow> bind_local_with_state E n unit_id zero_span m o')" by force
    then show ?thesis using PStruct [of "(n, sub)" sub] by (cases sub) (auto simp: grows_bind_local)
  qed
  then show ?case by (auto intro: grows_seq_all)
next
  case (PEnum p args)
  then show ?case by (auto intro!: grows_seq_all)
qed auto

lemma kept_drop_local: "kept s (drop_local n s)"
  by (auto simp: drop_local_def Let_def keeps_def split: option.split)

lemma outlives_errors: "list_all is_borrow_error (outlives_diags ns l)"
  by (auto simp: outlives_diags_def list_all_iff split: option.splits if_splits)

lemma kept_pop_frame:
  assumes "bc_scopes s = f # fs"
  shows "kept (s\<lparr>bc_scopes := fs\<rparr>) (pop_frame s)"
proof -
  let ?ns = "sf_locals f"
  let ?s0 = "s\<lparr>bc_scopes := fs\<rparr>"
  let ?s1 = "?s0\<lparr>bc_diag := bc_diag ?s0 @ outlives_diags ?ns (bc_ledger ?s0)\<rparr>"
  obtain k r where kr: "decay_borrowers (bc_ledger s) ?ns = (k, r)" by force
  let ?s2 = "recompute_all r (?s1\<lparr>bc_ledger := k\<rparr>)"
  let ?s3 = "?s2\<lparr>bc_ledger := filter (\<lambda>r. \<not> list_ex (\<lambda>n. n = root (br_place r)) ?ns) (bc_ledger ?s2)\<rparr>"
  have "kept ?s0 ?s1" by (rule kept_append_diag [OF outlives_errors])
  moreover have "kept ?s1 ?s2" by (rule kept_trans [OF kept_locals(2) kept_recompute_all])
  moreover have "kept ?s2 (seq_all (map drop_local ?ns) ?s3)"
    by (rule kept_trans [OF kept_locals(2)], rule kept_seq_all) (auto simp: kept_drop_local)
  moreover have "pop_frame s = seq_all (map drop_local ?ns) ?s3"
    by (simp add: pop_frame_def assms Let_def kr)
  ultimately show ?thesis by (metis kept_trans)
qed

lemma in_frame_keeps:
  assumes "\<And>s. keeps grown s (f s)"
  shows "kept s (in_frame region f s)"
proof -
  let ?s0 = "push_frame region s"
  have g: "keeps grown ?s0 (f ?s0)" by (rule assms)
  then obtain fr where sc: "bc_scopes (f ?s0) = fr # bc_scopes s"
    by (cases "bc_scopes (f ?s0)") (auto simp: keeps_def push_frame_def)
  have "kept s ((f ?s0)\<lparr>bc_scopes := bc_scopes s\<rparr>)" using g by (auto simp: keeps_def push_frame_def)
  from kept_trans [OF this kept_pop_frame [OF sc]] show ?thesis by (simp add: in_frame_def)
qed

section \<open>Branches and loops\<close>

lemma kept_join_into: "kept s (join_into m l s)"
  by (simp add: join_into_def)

lemma kept_loop_rounds:
  assumes "\<And>s. kept s (f s)"
  shows "kept s (loop_rounds n m l k f s)"
proof (induction n arbitrary: k s)
  case 0
  show ?case using kept_trans [OF assms kept_join_into] by simp
next
  case (Suc n)
  show ?case using kept_trans [OF kept_trans [OF assms kept_join_into] Suc] kept_trans [OF assms kept_join_into]
    by (simp add: Let_def)
qed

lemma kept_loop: "(\<And>s. kept s (f s)) \<Longrightarrow> kept s (loop_fixed_point f s)"
  by (simp add: loop_fixed_point_def kept_loop_rounds)

lemma kept_walk_branches:
  assumes "\<And>s. kept s (f s)" "\<And>s. kept s (g s)"
  shows "kept s (walk_branches f g s)"
proof -
  have "kept s ((f s)\<lparr>bc_locals := bc_locals s, bc_ledger := bc_ledger s\<rparr>)" (is "kept s ?s1")
    by (rule kept_trans [OF assms(1) kept_locals(3)])
  from kept_trans [OF this kept_trans [OF assms(2) kept_locals(3)]] show ?thesis
    by (simp add: walk_branches_def Let_def)
qed

lemma kept_walk_arms:
  assumes "\<And>w s. w \<in> set ws \<Longrightarrow> kept s (w s)"
  shows "kept s (walk_arms ws s)"
proof -
  let ?step = "arm_step (bc_locals s) (bc_ledger s)"
  have "kept (fst a) (fst (foldl ?step a us))" if "set us \<subseteq> set ws" for us a
    using that
  proof (induction us arbitrary: a)
    case (Cons u us)
    have "kept (fst a) (fst (?step a u))"
      using kept_trans [OF kept_locals(3) assms [of u]] Cons.prems by (cases a) (auto simp: arm_step_def Let_def)
    then show ?case using Cons kept_trans by (metis foldl_Cons insert_subset list.simps(15))
  qed simp
  from kept_trans [OF this [of ws "(s, None, None)"] kept_locals(3)] show ?thesis
    by (simp add: walk_arms_def split_beta Let_def)
qed

lemma kept_with_pending: "(\<And>s. kept s (f s)) \<Longrightarrow> kept s (with_pending n f s)"
proof -
  assume "\<And>s. kept s (f s)"
  then have "kept (s\<lparr>bc_pending := n\<rparr>) (f (s\<lparr>bc_pending := n\<rparr>))" .
  then show ?thesis by (auto simp: with_pending_def keeps_def)
qed

lemma kept_check_deref: "kept s (check_deref_move E \<pi> e s)"
  by (auto simp: check_deref_move_def kept_push_diag split: option.split ty_data.split)

lemma kept_message_arg:
  assumes "\<And>s. kept s (fst (w E \<pi> PMove s))"
  shows "kept s (message_arg w E \<pi> s)"
proof -
  obtain s1 n where w: "w E \<pi> PMove s = (s1, n)" by force
  then have "kept s s1" using assms [of s] by simp
  then show ?thesis
    by (auto simp: message_arg_def w intro: kept_trans [OF _ kept_push_diag] split: option.split)
qed

lemma kept_check_arena_escape: "kept (fst st) (check_arena_escape r st)"
  by (auto simp: check_arena_escape_def kept_push_diag split: option.split)

lemma kept_walk_arena:
  assumes "\<And>s. keeps grown s (fst (w E (0 # \<pi>) ArenaBody s))"
  shows "kept s (fst (walk_arena w E \<pi> pos s))"
proof -
  have "kept s (fst (fresh_arena s))" by (simp add: fresh_arena_def keeps_def)
  from kept_trans [OF this in_frame_keeps [OF grows_trans [OF assms keeps_grown [OF kept_check_arena_escape]]]]
  show ?thesis by (simp add: walk_arena_def split_beta)
qed

section \<open>The walk\<close>

lemma kept_go_list:
  "(\<And>w \<pi> s. w \<in> set ws \<Longrightarrow> kept s (fst (w E \<pi> pos s))) \<Longrightarrow> kept s (go_list ws E \<pi> k pos s)"
  unfolding go_list_def by (rule kept_seq_all) (auto simp: go_def in_set_enumerate_eq)

lemma arg_position_ne [simp]: "arg_position E ps i \<noteq> ArenaBody"
  by (auto simp: arg_position_def split: option.split ty_data.split bool.split)

lemma kept_call_args:
  "(\<And>w \<pi> pos s. w \<in> set ws \<Longrightarrow> pos \<noteq> ArenaBody \<Longrightarrow> kept s (fst (w E \<pi> pos s))) \<Longrightarrow> kept s (call_args ws E \<pi> s)"
  unfolding call_args_def by (rule kept_seq_all) (auto simp: go_def in_set_enumerate_eq)

lemma kept_walk_message:
  assumes "\<And>\<pi> s. kept s (fst (t E \<pi> PUse s))" "\<And>w \<pi> s. w \<in> set ws \<Longrightarrow> kept s (fst (w E \<pi> PMove s))"
  shows "kept s (fst (walk_message t ws E \<pi> pos s))"
  unfolding walk_message_def fst_conv go_def
  by (rule kept_trans [OF assms(1)], rule kept_seq_all) (auto simp: in_set_enumerate_eq intro!: kept_message_arg assms(2))

lemma kept_map_entries:
  assumes "\<And>k v \<pi> s. (k, v) \<in> set ws \<Longrightarrow> kept s (fst (k E \<pi> PUse s)) \<and> kept s (fst (v E \<pi> PUse s))"
  shows "kept s (seq_all (map (\<lambda>(i, k, v). go v E (Suc 0 # i # \<pi>) PUse \<circ> go k E (0 # i # \<pi>) PUse) (enumerate n ws)) s)"
proof (rule kept_seq_all)
  fix f s assume "f \<in> set (map (\<lambda>(i, k, v). go v E (Suc 0 # i # \<pi>) PUse \<circ> go k E (0 # i # \<pi>) PUse) (enumerate n ws))"
  then obtain i k v where f: "f = go v E (Suc 0 # i # \<pi>) PUse \<circ> go k E (0 # i # \<pi>) PUse" and "(i, k, v) \<in> set (enumerate n ws)"
    by auto
  then have "(k, v) \<in> set ws" by (metis in_set_enumerate_eq nth_mem snd_conv less_diff_conv2 fst_conv add.commute)
  then show "kept s (f s)" unfolding f go_def comp_apply using assms kept_trans by blast
qed

lemma kept_walk_lambda:
  assumes "\<And>\<pi> pos s. keeps grown s (fst (w E \<pi> pos s))"
  shows "kept s (walk_lambda ps w E \<pi> s)"
proof -
  let ?b = "seq_all (map (\<lambda>p. bind_local E (hp_name p) unit_id (hp_span p) False) ps)"
  have "keeps grown s (?b s)" for s
    by (rule grows_seq_all) (auto simp: bind_local_def grows_bind_local)
  moreover have "keeps grown s (in_frame None (go w E (0 # \<pi>) PUse) s)" for s
    by (rule keeps_grown, rule in_frame_keeps) (simp add: go_def assms)
  ultimately have "kept s (in_frame None (in_frame None (go w E (0 # \<pi>) PUse) \<circ> ?b) s)"
    by (intro in_frame_keeps) (auto intro: grows_trans)
  from kept_trans [OF this kept_locals(3)] show ?thesis by (simp add: walk_lambda_def Let_def)
qed

lemma kept_go: "(\<And>s. kept s (fst (w E \<pi> pos s))) \<Longrightarrow> kept s (go w E \<pi> pos s)"
  by (simp add: go_def)

lemma grows_go: "(\<And>s. keeps grown s (fst (w E \<pi> pos s))) \<Longrightarrow> keeps grown s (go w E \<pi> pos s)"
  by (simp add: go_def)

lemma kept_go_opt: "(\<And>w s. wo = Some w \<Longrightarrow> kept s (fst (w E \<pi> pos s))) \<Longrightarrow> kept s (go_opt wo E \<pi> pos s)"
  unfolding go_opt_def by (rule keeps_seq_opt) (auto simp: go_def)

lemma grows_bind: "keeps grown s (bind_pattern E p t s)" "keeps grown s (bind_pattern_mut_with_state E p t m o' s)"
  by (simp_all add: bind_pattern_def bind_pattern_mut_with_state_def grows_bind_pattern)

lemma kept_weaken: "kept s t \<Longrightarrow> keeps (if b then grown else (=)) s t"
  by (simp add: keeps_grown)

lemma in_frame_bind:
  "(\<And>s. keeps grown s (b s)) \<Longrightarrow> (\<And>s. kept s (f s)) \<Longrightarrow> kept s (in_frame r (f \<circ> b) s)"
  by (rule in_frame_keeps) (auto intro: grows_trans [OF _ keeps_grown])

lemma grows_frame_bind:
  "(\<And>s. keeps grown s (f s)) \<Longrightarrow> keeps grown s (in_frame r f (bind_pattern E p t s))"
  by (rule grows_trans [OF grows_bind(1) keeps_grown [OF in_frame_keeps]])

lemma arena_path [simp]:
  "walk_path E segs ArenaBody s = walk_path E segs PUse s"
  "walk_path_generic segs ArenaBody s = walk_path_generic segs PUse s"
  unfolding walk_path_def walk_path_generic_def plain.simps by (rule refl)+

lemma kept_move_deref: "kept s (case i of EUnary UDeref r \<Rightarrow> check_deref_move E \<pi> r s | _ \<Rightarrow> s)"
proof (cases i)
  case (EUnary op r)
  then show ?thesis by (cases op) (simp_all add: kept_check_deref)
qed simp_all

lemma walk_arena_body: "(\<And>b. e \<noteq> EBlock b) \<Longrightarrow> walk_expr e E \<pi> ArenaBody s = walk_expr e E \<pi> PUse s"
  by (cases e) (auto simp: walk_message_def walk_arena_def)

text \<open>The same facts as rules that take a walk of several steps apart.\<close>

lemmas kept_intros =
  kept_trans [OF _ kept_go] kept_trans [OF _ kept_go_opt] kept_trans [OF _ kept_go_list]
  kept_trans [OF _ kept_call_args] kept_trans [OF _ kept_loop] kept_trans [OF _ kept_walk_branches]
  kept_trans [OF _ kept_walk_arms] kept_trans [OF _ kept_with_pending] kept_trans [OF _ kept_check_deref]
  kept_trans [OF _ kept_try_place_borrow] kept_trans [OF _ kept_for_points_only]
  kept_trans [OF _ in_frame_bind] kept_trans [OF _ kept_walk_lambda] kept_trans [OF _ kept_map_entries]
  kept_trans [OF _ kept_move_deref]
  kept_walk_message kept_walk_arena

definition walk_fine :: "flow_env \<Rightarrow> expr \<Rightarrow> bool" where
  "walk_fine E e \<longleftrightarrow> (\<forall>s \<pi> pos. pos \<noteq> ArenaBody \<longrightarrow> kept s (fst (walk_expr e E \<pi> pos s))) \<and>
     (\<forall>s \<pi>. keeps grown s (fst (walk_expr e E \<pi> ArenaBody s)))"

lemma walk_fineI:
  "(\<And>b. e \<noteq> EBlock b) \<Longrightarrow> (\<And>s \<pi> pos. pos \<noteq> ArenaBody \<Longrightarrow> kept s (fst (walk_expr e E \<pi> pos s))) \<Longrightarrow> walk_fine E e"
  by (simp add: walk_fine_def walk_arena_body keeps_grown)

lemma walk_fineD:
  "walk_fine E e \<Longrightarrow> pos \<noteq> ArenaBody \<Longrightarrow> kept s (fst (walk_expr e E \<pi> pos s))"
  "walk_fine E e \<Longrightarrow> keeps grown s (fst (walk_expr e E \<pi> ArenaBody s))"
  by (simp_all add: walk_fine_def)

lemma plain_ne [simp]: "plain p \<noteq> ArenaBody"
  by (cases p) auto

lemma walk_arg_value [simp]: "walk_arg a = walk_expr (arg_value a)"
  by (cases a) simp

lemma walk_keeps_all:
  "walk_fine E e"
  "\<forall>s \<pi> pos. keeps grown s (fst (walk_body b E \<pi> pos s))"
  "\<forall>s \<pi>. keeps grown s (walk_stmt st E \<pi> s)"
  "walk_fine E (arg_value a)"
  "\<forall>s \<pi> t. kept s (walk_arm m E \<pi> t s)"
proof (induction e and b and st and a and m)
  case (EBlock b)
  then show ?case by (auto simp: walk_fine_def go_def intro!: in_frame_keeps)
next
  case (EPath x)
  then show ?case by (auto intro!: walk_fineI kept_walk_path)
next
  case (EPathGeneric x y)
  then show ?case by (auto intro!: walk_fineI kept_walk_path_generic)
next
  case (EBinary op l r)
  then show ?case by (intro walk_fineI) (auto simp: walk_fineD Let_def intro!: kept_intros)
next
  case (EUnary op r)
  then show ?case by (intro walk_fineI) (auto simp: walk_fineD intro!: kept_intros)
next
  case (ETuple x)
  then show ?case by (intro walk_fineI) (auto simp: walk_fineD intro!: kept_intros)
next
  case (EBorrow m i)
  then show ?case by (intro walk_fineI) (auto simp: walk_fineD intro!: kept_intros split: option.split)
next
  case (EMove i)
  then show ?case by (intro walk_fineI) (auto simp: walk_fineD intro!: kept_intros)
next
  case (EMap es)
  then show ?case by (intro walk_fineI) (auto simp: walk_fineD intro!: kept_intros)
next
  case (EMatch c arms)
  then show ?case by (intro walk_fineI) (auto simp: walk_fineD in_set_enumerate_eq intro!: kept_intros)
next
  case (EArena n b)
  then show ?case by (intro walk_fineI) (auto simp: walk_fineD intro!: kept_intros)
next
  case (Block ss t)
  have "keeps grown s (seq_all (map (\<lambda>(i, w). w E (i # \<pi>)) (enumerate 0 (map walk_stmt ss))) s)" for s \<pi>
    by (rule grows_seq_all) (use Block in \<open>auto simp: in_set_enumerate_eq\<close>)
  then show ?case using Block(2) by (cases t) (auto simp: Let_def intro: grows_trans [OF _ keeps_grown [OF walk_fineD(1)]])
next
  case (SLet p ty i m)
  then show ?case
    by (cases i) (auto simp: Let_def walk_fineD grows_bind intro!: kept_intros grows_trans [OF keeps_grown grows_bind(2)])
next
  case (Arm p g b)
  then show ?case by (auto simp: walk_fineD grows_bind intro!: in_frame_bind kept_intros simp flip: comp_assoc)
next
  case (Arg n e)
  then show ?case by simp
next
  case (SExpr e)
  then show ?case by (simp add: go_def walk_fineD keeps_grown)
qed (intro walk_fineI; auto simp: walk_fineD grows_bind intro!: kept_intros kept_trans [OF _ walk_fineD(1)] kept_trans [OF _ in_frame_keeps] grows_go grows_frame_bind)+

lemma walk_keeps:
  "pos \<noteq> ArenaBody \<Longrightarrow> kept s (fst (walk_expr e E \<pi> pos s))"
  "kept s (walk_block b E \<pi> s)"
  using walk_fineD(1) [OF walk_keeps_all(1)] walk_keeps_all(2)
  by (auto simp: walk_block_def go_def intro!: in_frame_keeps)

lemma grows_bind_params: "keeps grown s (bind_params E ps sp s)"
  unfolding bind_params_def by (rule grows_seq_all) (auto simp: bind_local_def grows_bind_local)



section \<open>Packages\<close>

definition grows_errors :: "diagnostic list \<times> drop_entry list \<Rightarrow> diagnostic list \<times> drop_entry list \<Rightarrow> bool" where
  "grows_errors a b \<longleftrightarrow> (\<exists>ds. fst b = fst a @ ds \<and> list_all is_borrow_error ds)"

lemma grows_errors_trans: "grows_errors a b \<Longrightarrow> grows_errors b c \<Longrightarrow> grows_errors a c"
  by (auto simp: grows_errors_def)

lemma grows_errors_seq_all: "(\<And>f st. f \<in> set fs \<Longrightarrow> grows_errors st (f st)) \<Longrightarrow> grows_errors st (seq_all fs st)"
proof (induction fs arbitrary: st)
  case (Cons f fs)
  have "grows_errors st (f st)" "grows_errors (f st) (seq_all fs (f st))" using Cons by simp_all
  from grows_errors_trans [OF this] show ?case by (simp add: seq_all_def)
qed (simp add: seq_all_def grows_errors_def)

lemma kept_result: "kept (BorrowCx_new (fst st) (snd st)) s \<Longrightarrow> grows_errors st (bc_diag s, bc_drops s)"
  by (auto simp: keeps_def grows_errors_def BorrowCx_new_def)

lemma check_fn_body_errors: "grows_errors st (check_fn_body E ps sp b \<pi> st)"
proof -
  let ?s0 = "(BorrowCx_new (fst st) (snd st))\<lparr>bc_last_use := fst (compute_last_use b)\<rparr>"
  have "kept ?s0 (in_frame None (walk_block b E \<pi> \<circ> (case ps of Some ps \<Rightarrow> bind_params E ps sp | None \<Rightarrow> id)) ?s0)"
    by (rule in_frame_bind) (auto simp: grows_bind_params walk_keeps split: option.split)
  then show ?thesis by (auto simp: check_fn_body_def Let_def keeps_def grows_errors_def BorrowCx_new_def)
qed

lemma check_standalone_errors: "grows_errors st (check_standalone E e \<pi> st)"
  unfolding check_standalone_def Let_def
  by (rule kept_result, rule in_frame_keeps) (simp add: go_def keeps_grown walk_keeps)

lemma check_handler_errors: "grows_errors st (check_handler E ps sp b \<pi> st)"
  unfolding check_handler_def Let_def
  by (rule kept_result, rule in_frame_bind) (simp_all add: grows_bind_params walk_keeps)

lemma grows_errors_refl: "grows_errors st st"
  by (simp add: grows_errors_def)

lemma check_item_errors: "grows_errors st (check_item E it st)"
proof (cases "snd it")
  case (FAgent states handlers)
  let ?inits = "map (\<lambda>(j, _, init). case init of Some e \<Rightarrow> check_standalone E e [j, fst it, 1] | None \<Rightarrow> id) (enumerate 0 states)"
  have "grows_errors st (seq_all ?inits st)"
    by (rule grows_errors_seq_all) (auto simp: check_standalone_errors grows_errors_refl split: option.split)
  moreover have "grows_errors st (seq_all (map (\<lambda>(j, h). check_handler E (hd_params h) (hd_span h) (hd_body h) [j, fst it, 1])
            (enumerate (length states) handlers)) st)" for st
    by (rule grows_errors_seq_all) (auto simp: check_handler_errors)
  ultimately show ?thesis
    unfolding check_item_def FAgent flow_item.case comp_apply by (rule grows_errors_trans)
next
  case (FSupervisor cs)
  show ?thesis unfolding check_item_def FSupervisor flow_item.case
    by (rule grows_errors_seq_all) (auto simp: check_standalone_errors)
qed (simp add: check_item_def grows_errors_refl)

lemma flow_run_errors: "list_all is_borrow_error (flow_run E fns items)"
proof -
  let ?fs = "map (\<lambda>(i, f, params). case fn_body f of
      Some body \<Rightarrow> check_fn_body E params (fn_span f) body [i, 0] | None \<Rightarrow> id) (enumerate 0 fns)"
  have "grows_errors ([], []) (seq_all ?fs ([], []))"
    by (rule grows_errors_seq_all)
      (auto simp: check_fn_body_errors grows_errors_refl split: option.split)
  moreover have "grows_errors st (seq_all (map (check_item E) (enumerate 0 items)) st)" for st
    by (rule grows_errors_seq_all) (auto simp: check_item_errors)
  ultimately have "grows_errors ([], []) (seq_all (map (check_item E) (enumerate 0 items)) (seq_all ?fs ([], [])))"
    by (rule grows_errors_trans)
  then show ?thesis by (auto simp: flow_run_def Let_def grows_errors_def)
qed

end
