(* ===== verification/Borrow_Avail.thy ===== *)
theory Borrow_Avail
  imports Mty_Prelude
begin

text \<open>
  A small language of availability: what the evaluation of a Mighty expression does to its locals,
  with everything else erased. A local is bound (initialised or not), read, moved away and stored
  to; control may branch, loop, leave a loop or return. \<open>exec\<close> is the big-step semantics: reading or
  moving a local that is moved or not initialised is a fault. \<open>chk\<close> is a checker on this language
  that passes over a command once, in the manner of the borrow checker, and is sound: what it
  accepts does not fault, however often its loops run. The borrow checker is compared with it in
  \<open>Borrow_Sound\<close>.
\<close>

section \<open>Commands and their execution\<close>

text \<open>A local's copy flag and whether it holds a value.\<close>

type_synonym store = "string \<rightharpoonup> bool \<times> bool"

datatype cmd =
    CSkip
  | CUse string
  | CMove string
  | CStore string cmd
  | CBind string bool bool
  | CSeq cmd cmd
  | CChoice cmd cmd
  | CWhile cmd cmd
  | CScope cmd
  | CReturn
  | CBreak
  | CContinue

datatype outcome = RDone store | RBreak store | RContinue store | RReturn | RFault string

fun out_map :: "(store \<Rightarrow> store) \<Rightarrow> outcome \<Rightarrow> outcome" where
  "out_map f (RDone s) = RDone (f s)"
| "out_map f (RBreak s) = RBreak (f s)"
| "out_map f (RContinue s) = RContinue (f s)"
| "out_map f r = r"

fun is_done :: "outcome \<Rightarrow> bool" where
  "is_done (RDone s) = True"
| "is_done _ = False"

definition fill :: "string \<Rightarrow> store \<Rightarrow> store" where
  "fill x s = (case s x of None \<Rightarrow> s | Some (c, a) \<Rightarrow> s(x \<mapsto> (c, True)))"

inductive exec :: "cmd \<Rightarrow> store \<Rightarrow> outcome \<Rightarrow> bool" where
  Skip: "exec CSkip s (RDone s)"
| Use: "(\<forall>c. s x \<noteq> Some (c, False)) \<Longrightarrow> exec (CUse x) s (RDone s)"
| UseFault: "s x = Some (c, False) \<Longrightarrow> exec (CUse x) s (RFault x)"
| MoveGlobal: "s x = None \<Longrightarrow> exec (CMove x) s (RDone s)"
| Move: "s x = Some (c, True) \<Longrightarrow> exec (CMove x) s (RDone (s(x \<mapsto> (c, c))))"
| MoveFault: "s x = Some (c, False) \<Longrightarrow> exec (CMove x) s (RFault x)"
| Store: "exec c s (RDone s1) \<Longrightarrow> exec (CStore x c) s (RDone (fill x s1))"
| StoreExit: "exec c s r \<Longrightarrow> \<not> is_done r \<Longrightarrow> exec (CStore x c) s r"
| Bind: "exec (CBind x c a) s (RDone (s(x \<mapsto> (c, a))))"
| Seq: "exec c1 s (RDone s1) \<Longrightarrow> exec c2 s1 r \<Longrightarrow> exec (CSeq c1 c2) s r"
| SeqExit: "exec c1 s r \<Longrightarrow> \<not> is_done r \<Longrightarrow> exec (CSeq c1 c2) s r"
| Left: "exec c1 s r \<Longrightarrow> exec (CChoice c1 c2) s r"
| Right: "exec c2 s r \<Longrightarrow> exec (CChoice c1 c2) s r"
| WhileExit: "exec c s r \<Longrightarrow> exec (CWhile c b) s r"
| WhileBreak: "exec c s (RDone s1) \<Longrightarrow> exec b s1 (RBreak s2) \<Longrightarrow> exec (CWhile c b) s (RDone (s2 |` dom s1))"
| WhileDone: "exec c s (RDone s1) \<Longrightarrow> exec b s1 (RDone s2) \<Longrightarrow> exec (CWhile c b) (s2 |` dom s1) r \<Longrightarrow>
    exec (CWhile c b) s r"
| WhileContinue: "exec c s (RDone s1) \<Longrightarrow> exec b s1 (RContinue s2) \<Longrightarrow> exec (CWhile c b) (s2 |` dom s1) r \<Longrightarrow>
    exec (CWhile c b) s r"
| WhileReturn: "exec c s (RDone s1) \<Longrightarrow> exec b s1 RReturn \<Longrightarrow> exec (CWhile c b) s RReturn"
| WhileFault: "exec c s (RDone s1) \<Longrightarrow> exec b s1 (RFault x) \<Longrightarrow> exec (CWhile c b) s (RFault x)"
| Scope: "exec c s r \<Longrightarrow> exec (CScope c) s (out_map (\<lambda>s'. s' |` dom s) r)"
| Return: "exec CReturn s RReturn"
| Break: "exec CBreak s (RBreak s)"
| Continue: "exec CContinue s (RContinue s)"

inductive_cases exec_SkipE [elim!]: "exec CSkip s r"
inductive_cases exec_UseE [elim!]: "exec (CUse x) s r"
inductive_cases exec_MoveE [elim!]: "exec (CMove x) s r"
inductive_cases exec_StoreE: "exec (CStore x c) s r"
inductive_cases exec_BindE [elim!]: "exec (CBind x c a) s r"
inductive_cases exec_SeqE: "exec (CSeq c1 c2) s r"
inductive_cases exec_ChoiceE [elim!]: "exec (CChoice c1 c2) s r"
inductive_cases exec_ScopeE: "exec (CScope c) s r"
inductive_cases exec_ReturnE [elim!]: "exec CReturn s r"
inductive_cases exec_BreakE [elim!]: "exec CBreak s r"
inductive_cases exec_ContinueE [elim!]: "exec CContinue s r"

section \<open>The checker\<close>

text \<open>Names occurring in a command; names a command leaves bound; moves out of the current scope.\<close>

fun names :: "cmd \<Rightarrow> string set" where
  "names (CUse x) = {x}"
| "names (CMove x) = {x}"
| "names (CStore x c) = insert x (names c)"
| "names (CBind x c a) = {x}"
| "names (CSeq c1 c2) = names c1 \<union> names c2"
| "names (CChoice c1 c2) = names c1 \<union> names c2"
| "names (CWhile c b) = names c \<union> names b"
| "names (CScope c) = names c"
| "names _ = {}"

fun binds :: "cmd \<Rightarrow> string list" where
  "binds (CBind x c a) = [x]"
| "binds (CStore x c) = binds c"
| "binds (CSeq c1 c2) = binds c1 @ binds c2"
| "binds (CChoice c1 c2) = binds c1 @ binds c2"
| "binds (CWhile c b) = binds c"
| "binds _ = []"

fun mv_free :: "cmd \<Rightarrow> bool" where
  "mv_free (CMove x) = False"
| "mv_free (CStore x c) = mv_free c"
| "mv_free (CSeq c1 c2) \<longleftrightarrow> mv_free c1 \<and> mv_free c2"
| "mv_free (CChoice c1 c2) \<longleftrightarrow> mv_free c1 \<and> mv_free c2"
| "mv_free (CWhile c b) \<longleftrightarrow> mv_free c \<and> mv_free b"
| "mv_free (CScope c) = mv_free c"
| "mv_free _ = True"

text \<open>No name is bound while it is in scope, a branch and a loop condition bind nothing, and a loop
  does not move.\<close>

fun noshadow :: "string set \<Rightarrow> cmd \<Rightarrow> bool" where
  "noshadow \<Gamma> (CBind x c a) \<longleftrightarrow> x \<notin> \<Gamma>"
| "noshadow \<Gamma> (CStore x c) \<longleftrightarrow> noshadow \<Gamma> c"
| "noshadow \<Gamma> (CSeq c1 c2) \<longleftrightarrow> noshadow \<Gamma> c1 \<and> noshadow (\<Gamma> \<union> set (binds c1)) c2"
| "noshadow \<Gamma> (CChoice c1 c2) \<longleftrightarrow> noshadow \<Gamma> c1 \<and> noshadow \<Gamma> c2 \<and> binds c1 = [] \<and> binds c2 = []"
| "noshadow \<Gamma> (CWhile c b) \<longleftrightarrow> noshadow \<Gamma> c \<and> noshadow \<Gamma> b \<and> binds c = [] \<and> mv_free c \<and> mv_free b"
| "noshadow \<Gamma> (CScope c) \<longleftrightarrow> noshadow \<Gamma> c"
| "noshadow \<Gamma> _ \<longleftrightarrow> True"

text \<open>The locals a command leaves bound that are copied and initialised: nothing can make them
  unavailable. The value stored to any other local must not mention it.\<close>

fun solid :: "cmd \<Rightarrow> string set" where
  "solid (CBind x c a) = (if c \<and> a then {x} else {})"
| "solid (CStore x c) = solid c"
| "solid (CSeq c1 c2) = solid c1 \<union> solid c2"
| "solid _ = {}"

fun settled :: "string set \<Rightarrow> cmd \<Rightarrow> bool" where
  "settled K (CStore x c) \<longleftrightarrow> settled K c \<and> (x \<notin> names c \<or> x \<in> K)"
| "settled K (CSeq c1 c2) \<longleftrightarrow> settled K c1 \<and> settled (K \<union> solid c1) c2"
| "settled K (CChoice c1 c2) \<longleftrightarrow> settled K c1 \<and> settled K c2"
| "settled K (CWhile c b) \<longleftrightarrow> settled K c \<and> settled K b"
| "settled K (CScope c) \<longleftrightarrow> settled K c"
| "settled K _ \<longleftrightarrow> True"

definition join_cell :: "(bool \<times> bool) option \<Rightarrow> (bool \<times> bool) option \<Rightarrow> (bool \<times> bool) option" where
  "join_cell a b =
     (case (a, b) of
        (Some (c, x), Some (_, y)) \<Rightarrow> Some (c, x \<and> y)
      | (None, _) \<Rightarrow> b
      | _ \<Rightarrow> a)"

definition join_store :: "store \<Rightarrow> store \<Rightarrow> store" where
  "join_store A B = (\<lambda>x. join_cell (A x) (B x))"

fun chk :: "cmd \<Rightarrow> store \<Rightarrow> store option" where
  "chk (CUse x) A = (case A x of Some (c, False) \<Rightarrow> None | _ \<Rightarrow> Some A)"
| "chk (CMove x) A =
     (case A x of
        Some (c, True) \<Rightarrow> Some (A(x \<mapsto> (c, c)))
      | Some (c, False) \<Rightarrow> None
      | None \<Rightarrow> Some A)"
| "chk (CStore x c) A = chk c (fill x A)"
| "chk (CBind x c a) A = Some (A(x \<mapsto> (c, a)))"
| "chk (CSeq c1 c2) A = Option.bind (chk c1 A) (chk c2)"
| "chk (CChoice c1 c2) A =
     Option.bind (chk c1 A) (\<lambda>A1. Option.bind (chk c2 A) (\<lambda>A2. Some (join_store A1 A2)))"
| "chk (CWhile c b) A = Option.bind (chk c A) (\<lambda>A1. Option.bind (chk b A1) (\<lambda>A2. Some A1))"
| "chk (CScope c) A = map_option (\<lambda>A1. A1 |` dom A) (chk c A)"
| "chk _ A = Some A"

section \<open>Soundness\<close>

text \<open>\<open>A\<close> describes \<open>s\<close>: the same locals with the same copy flags, and what \<open>A\<close> calls available is.\<close>

fun cell_le :: "(bool \<times> bool) option \<Rightarrow> (bool \<times> bool) option \<Rightarrow> bool" where
  "cell_le None None = True"
| "cell_le (Some (c, a)) (Some (c', a')) \<longleftrightarrow> c = c' \<and> (a \<longrightarrow> a')"
| "cell_le _ _ = False"

definition describes :: "store \<Rightarrow> store \<Rightarrow> bool" where
  "describes A s \<longleftrightarrow> (\<forall>x. cell_le (A x) (s x))"

lemma fill_simps [simp]:
  "dom (fill x s) = dom s"
  "y \<noteq> x \<Longrightarrow> fill x s y = s y"
  "fill x s x = map_option (\<lambda>(c, a). (c, True)) (s x)"
  by (auto simp: fill_def split: option.splits)

lemma fill_restrict: "fill x (s |` D) = fill x s |` D"
  by (auto simp: fill_def restrict_map_def fun_eq_iff split: option.split)

lemma fill_upd: "y \<noteq> x \<Longrightarrow> fill x (s(y \<mapsto> v)) = (fill x s)(y \<mapsto> v)"
  by (auto simp: fill_def fun_eq_iff split: option.split)

lemma fill_commute: "fill x (fill y s) = fill y (fill x s)"
  by (auto simp: fill_def fun_eq_iff split: option.split)

lemma is_done_out_map [simp]: "is_done (out_map f r) = is_done r"
  by (cases r) auto

lemma out_map_out_map: "out_map f (out_map g r) = out_map (\<lambda>s. f (g s)) r"
  by (cases r) auto

text \<open>Filling a local a command does not mention commutes with running it.\<close>

lemma exec_fill: "exec c s r \<Longrightarrow> x \<notin> names c \<Longrightarrow> exec c (fill x s) (out_map (fill x) r)"
proof (induction rule: exec.induct)
  case (Store c s s1 y)
  then have "exec c (fill x s) (RDone (fill x s1))" by simp
  from exec.Store [OF this, of y] show ?case by (simp add: fill_commute)
next
  case (Bind y c a s)
  then show ?case using exec.Bind [of y c a "fill x s"] by (simp add: fill_upd)
next
  case (Move s y c)
  then have "exec (CMove y) (fill x s) (RDone ((fill x s)(y \<mapsto> (c, c))))" by (intro exec.Move) simp
  then show ?case using Move by (simp add: fill_upd)
next
  case (Scope c s r)
  then have "exec (CScope c) (fill x s) (out_map (\<lambda>s'. s' |` dom (fill x s)) (out_map (fill x) r))"
    by (intro exec.Scope) simp
  then show ?case by (simp add: out_map_out_map fill_restrict)
next
  case (WhileBreak c s s1 b s2)
  then have "exec (CWhile c b) (fill x s) (RDone (fill x s2 |` dom (fill x s1)))"
    by (intro exec.WhileBreak) auto
  then show ?case by (simp add: fill_restrict)
next
  case (WhileDone c s s1 b s2 r)
  then have "exec c (fill x s) (RDone (fill x s1))" "exec b (fill x s1) (RDone (fill x s2))"
    "exec (CWhile c b) (fill x s2 |` dom (fill x s1)) (out_map (fill x) r)" by (auto simp: fill_restrict)
  then show ?case by (rule exec.WhileDone)
next
  case (WhileContinue c s s1 b s2 r)
  then have "exec c (fill x s) (RDone (fill x s1))" "exec b (fill x s1) (RContinue (fill x s2))"
    "exec (CWhile c b) (fill x s2 |` dom (fill x s1)) (out_map (fill x) r)" by (auto simp: fill_restrict)
  then show ?case by (rule exec.WhileContinue)
qed (auto intro: exec.intros)

fun out_store :: "outcome \<Rightarrow> store option" where
  "out_store (RDone s) = Some s"
| "out_store (RBreak s) = Some s"
| "out_store (RContinue s) = Some s"
| "out_store _ = None"

lemma out_store_out_map [simp]: "out_store (out_map f r) = map_option f (out_store r)"
  by (cases r) auto

text \<open>Without a move, what is bound stays bound and what is available stays available.\<close>

definition keeps_avail :: "store \<Rightarrow> store \<Rightarrow> bool" where
  "keeps_avail s s' \<longleftrightarrow> (\<forall>x c a. s x = Some (c, a) \<longrightarrow> (\<exists>a'. s' x = Some (c, a') \<and> (a \<longrightarrow> a')))"

lemma keeps_avail_trans: "keeps_avail a b \<Longrightarrow> keeps_avail b c \<Longrightarrow> keeps_avail a c"
  unfolding keeps_avail_def by meson

lemma keeps_avail_restrict: "keeps_avail s s' \<Longrightarrow> keeps_avail s (s' |` dom s)"
  unfolding keeps_avail_def by (metis domI restrict_in)

lemma dom_restrict_sub: "dom s \<subseteq> dom s' \<Longrightarrow> dom (s' |` dom s) = dom s"
  by (simp add: Int_absorb1)

lemma exec_dom:
  "exec c s r \<Longrightarrow> out_store r = Some s' \<Longrightarrow> dom s \<subseteq> dom s' \<and> dom s' \<subseteq> dom s \<union> set (binds c)"
proof (induction arbitrary: s' rule: exec.induct)
  case (Seq c1 s s1 c2 r)
  from Seq.IH(1) [of s1] Seq.IH(2) [OF Seq.prems] show ?case by simp blast
next
  case (WhileBreak c s s1 b s2)
  then have "s' = s2 |` dom s1" by simp
  then show ?case using WhileBreak.IH(1) [of s1] WhileBreak.IH(2) [of s2] dom_restrict_sub [of s1 s2] by simp
next
  case (WhileDone c s s1 b s2 r)
  from WhileDone.IH(1) [of s1] WhileDone.IH(2) [of s2] WhileDone.IH(3) [OF WhileDone.prems] show ?case
    by (simp add: Int_absorb1) blast
next
  case (WhileContinue c s s1 b s2 r)
  from WhileContinue.IH(1) [of s1] WhileContinue.IH(2) [of s2] WhileContinue.IH(3) [OF WhileContinue.prems] show ?case
    by (simp add: Int_absorb1) blast
next
  case (Move s x c)
  then have "s' = s(x \<mapsto> (c, c))" by simp
  then have "dom s' = insert x (dom s)" by simp
  moreover have "x \<in> dom s" using Move.hyps by (rule domI)
  ultimately show ?case by (simp add: insert_absorb)
next
  case (Store c s s1 x)
  then have "s' = fill x s1" by simp
  then show ?case using Store.IH [of s1] by simp
next
  case (Scope c s r)
  then obtain s1 where "out_store r = Some s1" "s' = s1 |` dom s" by auto
  then show ?case using Scope.IH [of s1] dom_restrict_sub [of s s1] by simp
qed auto

lemma noshadow_mono: "noshadow \<Gamma> c \<Longrightarrow> \<Delta> \<subseteq> \<Gamma> \<Longrightarrow> noshadow \<Delta> c"
proof (induction c arbitrary: \<Gamma> \<Delta>)
  case (CSeq c1 c2)
  then show ?case by (metis Un_mono noshadow.simps(3) order_refl)
qed auto

lemma mv_free_keeps:
  "exec c s r \<Longrightarrow> mv_free c \<Longrightarrow> noshadow (dom s) c \<Longrightarrow> out_store r = Some s' \<Longrightarrow> keeps_avail s s'"
proof (induction arbitrary: s' rule: exec.induct)
  case (Store c s s1 x)
  then have "keeps_avail s s1" by simp
  moreover have "keeps_avail s1 (fill x s1)" by (auto simp: keeps_avail_def fill_def split: option.split)
  ultimately show ?case using Store.prems keeps_avail_trans by auto
next
  case (Seq c1 s s1 c2 r)
  have "noshadow (dom s1) c2" using Seq.prems(2) exec_dom [OF Seq.hyps(1), of s1] noshadow_mono by auto
  then show ?case using Seq keeps_avail_trans by auto
next
  case (Scope c s r)
  then show ?case using keeps_avail_restrict by auto
next
  case (WhileBreak c s s1 b s2)
  have "dom s1 = dom s" using WhileBreak.prems exec_dom [OF WhileBreak.hyps(1), of s1] by auto
  moreover have "keeps_avail s s1" "keeps_avail s1 s2" using WhileBreak calculation by auto
  ultimately show ?case using WhileBreak.prems keeps_avail_trans keeps_avail_restrict by fastforce
next
  case (WhileDone c s s1 b s2 r)
  have d: "dom s1 = dom s" using WhileDone.prems exec_dom [OF WhileDone.hyps(1), of s1] by auto
  have "dom (s2 |` dom s1) = dom s1" using exec_dom [OF WhileDone.hyps(2), of s2] by auto
  then have "keeps_avail (s2 |` dom s1) s'" using WhileDone.IH(3) WhileDone.prems d by simp
  moreover have "keeps_avail s (s2 |` dom s1)"
    using WhileDone.IH(1,2) WhileDone.prems d keeps_avail_trans keeps_avail_restrict by fastforce
  ultimately show ?case using keeps_avail_trans by blast
next
  case (WhileContinue c s s1 b s2 r)
  have d: "dom s1 = dom s" using WhileContinue.prems exec_dom [OF WhileContinue.hyps(1), of s1] by auto
  have "dom (s2 |` dom s1) = dom s1" using exec_dom [OF WhileContinue.hyps(2), of s2] by auto
  then have "keeps_avail (s2 |` dom s1) s'" using WhileContinue.IH(3) WhileContinue.prems d by simp
  moreover have "keeps_avail s (s2 |` dom s1)"
    using WhileContinue.IH(1,2) WhileContinue.prems d keeps_avail_trans keeps_avail_restrict by fastforce
  ultimately show ?case using keeps_avail_trans by blast
next
  case (Bind x c a s)
  then have "s x = None" "s' = s(x \<mapsto> (c, a))" by auto
  then show ?case by (simp add: keeps_avail_def)
qed (auto simp: keeps_avail_def)

lemma cell_le_simps [simp]:
  "cell_le None s \<longleftrightarrow> s = None" "cell_le a None \<longleftrightarrow> a = None"
  "cell_le (Some p) s \<longleftrightarrow> (\<exists>a'. s = Some (fst p, a') \<and> (snd p \<longrightarrow> a'))"
  by (cases a; cases s; cases p; auto)+

lemma describes_dom: "describes A s \<Longrightarrow> dom A = dom s"
proof -
  assume d: "describes A s"
  have "A x = None \<longleftrightarrow> s x = None" for x
    using d [unfolded describes_def, THEN spec, of x] by (cases "A x") auto
  then show ?thesis by (auto simp: dom_def)
qed

lemma describes_fill: "describes A s \<Longrightarrow> describes (fill x A) (fill x s)"
  unfolding describes_def
proof (intro allI)
  fix y assume "\<forall>x. cell_le (A x) (s x)"
  then have "cell_le (A y) (s y)" by blast
  then show "cell_le (fill x A y) (fill x s y)"
    by (cases "y = x"; cases "A y"; cases "s y") auto
qed

lemma describes_upd: "describes A s \<Longrightarrow> describes (A(x \<mapsto> v)) (s(x \<mapsto> v))"
  by (cases v) (simp add: describes_def)

lemma describes_restrict: "describes A s \<Longrightarrow> describes (A |` D) (s |` D)"
  by (simp add: describes_def restrict_map_def)

lemma describes_keeps:
  assumes "describes A s" "keeps_avail s s'" "dom s' = dom s"
  shows "describes A s'"
  unfolding describes_def
proof
  fix x
  have c: "cell_le (A x) (s x)" using assms(1) by (simp add: describes_def)
  show "cell_le (A x) (s' x)"
  proof (cases "s x")
    case None
    then have "s' x = None" using assms(3) by (metis domIff)
    then show ?thesis using c None by simp
  next
    case (Some p)
    then obtain a' where "s' x = Some (fst p, a')" "snd p \<longrightarrow> a'"
      using assms(2) unfolding keeps_avail_def by (metis prod.collapse)
    then show ?thesis using c Some by (cases "A x") auto
  qed
qed

lemma join_cell_le: "cell_le a s \<Longrightarrow> (a = None \<longleftrightarrow> b = None) \<Longrightarrow> cell_le (join_cell a b) s"
  "cell_le b s \<Longrightarrow> (a = None \<longleftrightarrow> b = None) \<Longrightarrow> map_option fst a = map_option fst b \<Longrightarrow> cell_le (join_cell a b) s"
  by (cases a; cases b; auto simp: join_cell_def split: prod.splits)+

definition fine :: "outcome \<Rightarrow> store \<Rightarrow> bool" where
  "fine r A = (case r of RFault _ \<Rightarrow> False | RDone s \<Rightarrow> describes A s | _ \<Rightarrow> True)"

lemma fine_simps [simp]:
  "fine (RDone s) A = describes A s" "fine (RFault x) A = False" "fine RReturn A"
  "fine (RBreak s) A" "fine (RContinue s) A"
  by (simp_all add: fine_def)

lemma fine_exit: "fine r A \<Longrightarrow> \<not> is_done r \<Longrightarrow> fine r B"
  by (cases r) auto

text \<open>What the checker keeps: the locals grow by the names bound, copy flags stay.\<close>

lemma map_fst_fill [simp]: "map_option fst (fill x A y) = map_option fst (A y)"
  by (cases "y = x") (auto simp: option.map_comp comp_def split_beta)

lemma chk_shape:
  "chk c A = Some A' \<Longrightarrow> noshadow (dom A) c \<Longrightarrow>
   dom A' = dom A \<union> set (binds c) \<and> (\<forall>x \<in> dom A. map_option fst (A' x) = map_option fst (A x))"
proof (induction c arbitrary: A A')
  case (CMove x)
  show ?case
  proof (cases "A x")
    case None
    then show ?thesis using CMove by simp
  next
    case (Some p)
    then have "x \<in> dom A" by (rule domI)
    moreover have "A' = A(x \<mapsto> (fst p, fst p))" using CMove.prems(1) Some by (auto split: bool.splits prod.splits)
    moreover from this have "dom A' = insert x (dom A)" by simp
    ultimately have "dom A' = dom A" "\<forall>y. map_option fst (A' y) = map_option fst (A y)"
      using Some by (simp_all add: insert_absorb)
    then show ?thesis by simp
  qed
next
  case (CStore x c)
  then show ?case using CStore.IH [of "fill x A" A'] by simp
next
  case (CSeq c1 c2)
  then obtain A1 where c1: "chk c1 A = Some A1" and c2: "chk c2 A1 = Some A'" by (auto simp: bind_eq_Some_conv)
  note d1 = CSeq.IH(1) [OF c1]
  have "noshadow (dom A1) c2" "noshadow (dom A) c1" using d1 CSeq.prems by auto
  then show ?case using d1 CSeq.IH(2) [OF c2] by auto
next
  case (CChoice c1 c2)
  then obtain A1 A2 where c1: "chk c1 A = Some A1" and c2: "chk c2 A = Some A2" and j: "A' = join_store A1 A2"
    by (auto simp: bind_eq_Some_conv)
  have d: "dom A1 = dom A" "dom A2 = dom A" "\<forall>x \<in> dom A. map_option fst (A1 x) = map_option fst (A x)"
    using CChoice.IH(1) [OF c1] CChoice.IH(2) [OF c2] CChoice.prems by auto
  have e: "A1 x = None \<longleftrightarrow> A2 x = None" for x using d by (metis domIff)
  then have "dom A' = dom A1" unfolding j
    by (auto simp: join_store_def join_cell_def dom_def split: option.splits prod.splits)
  moreover have "map_option fst (A' x) = map_option fst (A1 x)" for x
    using e [of x] unfolding j by (auto simp: join_store_def join_cell_def split: option.splits prod.splits)
  ultimately show ?case using d CChoice.prems by simp
next
  case (CWhile c b)
  then show ?case by (auto simp: bind_eq_Some_conv)
next
  case (CScope c)
  then obtain A1 where "chk c A = Some A1" "A' = A1 |` dom A" by auto
  then show ?case using CScope.IH [of A A1] CScope.prems by auto
qed (auto split: option.splits bool.splits)

text \<open>One round of a loop without moves leads back to a store the loop was checked for.\<close>

lemma while_round:
  assumes wf: "noshadow (dom s) (CWhile c b)" and e: "exec c s (RDone s1)" "exec b s1 r" "out_store r = Some s2"
  shows "keeps_avail s1 (s2 |` dom s1)" "dom (s2 |` dom s1) = dom s1" "keeps_avail s s1" "dom s1 = dom s"
proof -
  show d: "dom s1 = dom s" using exec_dom [OF e(1), of s1] wf by auto
  show "keeps_avail s s1" using mv_free_keeps [OF e(1)] wf by simp
  have "keeps_avail s1 s2" using mv_free_keeps [OF e(2) _ _ e(3)] wf d by simp
  then show "keeps_avail s1 (s2 |` dom s1)" by (rule keeps_avail_restrict)
  show "dom (s2 |` dom s1) = dom s1"
    using exec_dom [OF e(2,3)] by (intro dom_restrict_sub) simp
qed

lemma chk_while:
  assumes c: "\<And>s r. describes A s \<Longrightarrow> exec c s r \<Longrightarrow> fine r A1"
    and b: "\<And>s r. describes A1 s \<Longrightarrow> exec b s r \<Longrightarrow> fine r A2"
    and wf: "noshadow (dom A) (CWhile c b)"
  shows "exec w s r \<Longrightarrow> w = CWhile c b \<Longrightarrow> describes A s \<Longrightarrow> fine r A1"
proof (induction rule: exec.induct)
  case (WhileExit c' s r b')
  then show ?case using c by auto
next
  case (WhileBreak c' s s1 b' s2)
  then have e: "exec c s (RDone s1)" "exec b s1 (RBreak s2)" by auto
  have "noshadow (dom s) (CWhile c b)" using wf describes_dom [OF WhileBreak.prems(2)] by simp
  from while_round [OF this e] c [OF WhileBreak.prems(2) e(1)] show ?case
    by (simp add: describes_keeps)
next
  case (WhileDone c' s s1 b' s2 r)
  then have e: "exec c s (RDone s1)" "exec b s1 (RDone s2)" by auto
  have "noshadow (dom s) (CWhile c b)" using wf describes_dom [OF WhileDone.prems(2)] by simp
  note wr = while_round [OF this e, simplified]
  have "describes A (s2 |` dom s1)"
    using describes_keeps [OF WhileDone.prems(2) keeps_avail_trans [OF wr(3,1)]] wr by simp
  then show ?case using WhileDone by blast
next
  case (WhileContinue c' s s1 b' s2 r)
  then have e: "exec c s (RDone s1)" "exec b s1 (RContinue s2)" by auto
  have "noshadow (dom s) (CWhile c b)" using wf describes_dom [OF WhileContinue.prems(2)] by simp
  note wr = while_round [OF this e, simplified]
  have "describes A (s2 |` dom s1)"
    using describes_keeps [OF WhileContinue.prems(2) keeps_avail_trans [OF wr(3,1)]] wr by simp
  then show ?case using WhileContinue by blast
next
  case (WhileFault c' s s1 b' x)
  then have e: "exec c s (RDone s1)" "exec b s1 (RFault x)" by auto
  from c [OF WhileFault.prems(2) e(1)] b [OF _ e(2)] show ?case by simp
qed auto

text \<open>Solid locals stay available.\<close>

definition stable :: "string set \<Rightarrow> store \<Rightarrow> bool" where
  "stable K A \<longleftrightarrow> (\<forall>x \<in> K. A x = Some (True, True))"

lemma stable_fill: "stable K A \<Longrightarrow> stable K (fill x A)"
  by (auto simp: stable_def fill_def split: option.split)

lemma stable_describes: "stable K A \<Longrightarrow> describes A s \<Longrightarrow> stable K s"
proof -
  assume "stable K A" "describes A s"
  then have "cell_le (Some (True, True)) (s x)" if "x \<in> K" for x
    using that unfolding stable_def describes_def by metis
  then show "stable K s" by (fastforce simp: stable_def)
qed

lemma stable_sub: "stable K A \<Longrightarrow> K \<subseteq> dom A"
  by (auto simp: stable_def)

lemma chk_stable:
  "chk c A = Some A' \<Longrightarrow> noshadow (dom A) c \<Longrightarrow> stable K A \<Longrightarrow> stable (K \<union> solid c) A'"
proof (induction c arbitrary: A A' K)
  case (CMove x)
  then show ?case by (auto simp: stable_def split: option.splits bool.splits)
next
  case (CBind x c a)
  then show ?case using stable_sub [OF CBind.prems(3)] by (auto simp: stable_def)
next
  case (CStore x c)
  then show ?case using CStore.IH [of "fill x A" A' K] stable_fill by simp
next
  case (CSeq c1 c2)
  then obtain A1 where c1: "chk c1 A = Some A1" and c2: "chk c2 A1 = Some A'" by (auto simp: bind_eq_Some_conv)
  have "noshadow (dom A1) c2" "noshadow (dom A) c1" using chk_shape [OF c1] CSeq.prems by auto
  then show ?case using CSeq.IH(2) [OF c2, of "K \<union> solid c1"] CSeq.IH(1) [OF c1 _ CSeq.prems(3)] by (simp add: Un_assoc)
next
  case (CChoice c1 c2)
  then obtain A1 A2 where c: "chk c1 A = Some A1" "chk c2 A = Some A2" and j: "A' = join_store A1 A2"
    by (auto simp: bind_eq_Some_conv)
  have "stable K A1" "stable K A2"
    using CChoice.IH(1) [OF c(1) _ CChoice.prems(3)] CChoice.IH(2) [OF c(2) _ CChoice.prems(3)] CChoice.prems(2)
    by (auto simp: stable_def)
  then show ?case by (auto simp: j stable_def join_store_def join_cell_def)
next
  case (CWhile c b)
  then obtain A2 where "chk c A = Some A'" by (auto simp: bind_eq_Some_conv)
  then show ?case using CWhile.IH(1) [of A A' K] CWhile.prems by (auto simp: stable_def)
next
  case (CScope c)
  then obtain A1 where c: "chk c A = Some A1" "A' = A1 |` dom A" by auto
  then have "stable K A1" using CScope.IH [OF c(1) _ CScope.prems(3)] CScope.prems(2) by (auto simp: stable_def)
  then show ?case using stable_sub [OF CScope.prems(3)] by (auto simp: c stable_def restrict_map_def)
qed (auto split: option.splits bool.splits)

lemma chk_sound:
  "chk c A = Some A' \<Longrightarrow> noshadow (dom A) c \<Longrightarrow> describes A s \<Longrightarrow> exec c s r \<Longrightarrow>
   settled K c \<Longrightarrow> stable K A \<Longrightarrow> fine r A'"
proof (induction c arbitrary: A A' s r K)
  case (CUse x)
  have "cell_le (A x) (s x)" using CUse.prems(3) by (simp add: describes_def)
  then show ?case using CUse.prems by (auto split: option.splits bool.splits)
next
  case (CMove x)
  have "cell_le (A x) (s x)" using CMove.prems(3) by (simp add: describes_def)
  then show ?case using CMove.prems by (auto simp: describes_upd split: option.splits bool.splits)
next
  case (CStore x c)
  have ns: "noshadow (dom (fill x A)) c" "settled K c" "stable K (fill x A)"
    using CStore.prems stable_fill by auto
  have IH: "fine (out_map (fill x) r') A'" if e: "exec c s r'" for r'
  proof (cases "x \<in> names c")
    case False
    show ?thesis
      using CStore.IH [OF _ ns(1) describes_fill [OF CStore.prems(3)] exec_fill [OF e False] ns(2,3)] CStore.prems(1) by simp
  next
    case True
    then have "x \<in> K" using CStore.prems(5) by simp
    then have "A x = Some (True, True)" using CStore.prems(6) by (simp add: stable_def)
    then have "fill x A = A" by (auto simp: fill_def fun_eq_iff)
    then have c: "chk c A = Some A'" using CStore.prems(1) by simp
    have "fine r' A'" using CStore.IH [OF c _ CStore.prems(3) e ns(2) CStore.prems(6)] CStore.prems(2) by simp
    moreover have "A' x = Some (True, True)"
      using chk_stable [OF c _ CStore.prems(6)] CStore.prems(2) \<open>x \<in> K\<close> by (simp add: stable_def)
    then have "fill x A' = A'" by (auto simp: fill_def fun_eq_iff)
    ultimately show ?thesis using describes_fill [of A' _ x] by (cases r') auto
  qed
  from CStore.prems(4) show ?case
  proof (rule exec_StoreE)
    fix s1 assume "r = RDone (fill x s1)" "exec c s (RDone s1)"
    then show ?thesis using IH [of "RDone s1"] by simp
  next
    assume "exec c s r" "\<not> is_done r"
    then show ?thesis using IH [of r] by (cases r) auto
  qed
next
  case (CBind x c a)
  have "r = RDone (s(x \<mapsto> (c, a)))" using CBind.prems(4) by blast
  then show ?case using CBind.prems(1) describes_upd [OF CBind.prems(3), of x "(c, a)"] by simp
next
  case (CSeq c1 c2)
  then obtain A1 where c1: "chk c1 A = Some A1" and c2: "chk c2 A1 = Some A'" by (auto simp: bind_eq_Some_conv)
  have ns: "noshadow (dom A) c1" "noshadow (dom A1) c2" using CSeq.prems(2) chk_shape [OF c1] by auto
  have st: "settled K c1" "settled (K \<union> solid c1) c2" "stable (K \<union> solid c1) A1"
    using CSeq.prems(5) chk_stable [OF c1 ns(1) CSeq.prems(6)] by simp_all
  from CSeq.prems(4) show ?case
  proof (rule exec_SeqE)
    fix s1 assume e: "exec c1 s (RDone s1)" "exec c2 s1 r"
    then have "describes A1 s1" using CSeq.IH(1) [OF c1 ns(1) CSeq.prems(3) _ st(1) CSeq.prems(6)] by fastforce
    then show ?thesis using CSeq.IH(2) [OF c2 ns(2) _ e(2) st(2,3)] by blast
  next
    assume "exec c1 s r" "\<not> is_done r"
    then show ?thesis using CSeq.IH(1) [OF c1 ns(1) CSeq.prems(3) _ st(1) CSeq.prems(6)] fine_exit by blast
  qed
next
  case (CChoice c1 c2)
  then obtain A1 A2 where c1: "chk c1 A = Some A1" and c2: "chk c2 A = Some A2" and j: "A' = join_store A1 A2"
    by (auto simp: bind_eq_Some_conv)
  have ns: "noshadow (dom A) c1" "noshadow (dom A) c2" "binds c1 = []" "binds c2 = []" using CChoice.prems(2) by auto
  have st: "settled K c1" "settled K c2" using CChoice.prems(5) by auto
  note sh = chk_shape [OF c1 ns(1), unfolded ns] chk_shape [OF c2 ns(2), unfolded ns]
  then have "dom A1 = dom A2" by simp
  then have d1: "A1 x = None \<longleftrightarrow> A2 x = None" for x by (metis domIff)
  have d2: "map_option fst (A1 x) = map_option fst (A2 x)" for x
    using sh by (cases "x \<in> dom A") (simp, metis Un_empty_right domIff list.set(1))
  have "fine r A1 \<or> fine r A2" using CChoice.IH(1) [OF c1 ns(1) CChoice.prems(3) _ st(1) CChoice.prems(6)] CChoice.IH(2) [OF c2 ns(2) CChoice.prems(3) _ st(2) CChoice.prems(6)]
      CChoice.prems(4) by blast
  moreover have "cell_le (join_cell (A1 x) (A2 x)) (t x)" if "describes A1 t \<or> describes A2 t" for t x
    using that join_cell_le(1) [OF _ d1, of x "t x"] join_cell_le(2) [OF _ d1 d2, of x "t x"]
    by (auto simp: describes_def)
  ultimately show ?case unfolding j by (cases r) (auto simp: describes_def join_store_def)
next
  case (CWhile c b)
  then obtain A2 where c: "chk c A = Some A'" and b: "chk b A' = Some A2" by (auto simp: bind_eq_Some_conv)
  have ns: "noshadow (dom A) c" "noshadow (dom A') b" using CWhile.prems(2) chk_shape [OF c] by auto
  have st: "settled K c" "settled K b" "stable K A'"
    using CWhile.prems(5) chk_stable [OF c ns(1) CWhile.prems(6)] by (auto simp: stable_def)
  have "fine r1 A'" if "describes A t" "exec c t r1" for t r1
    by (rule CWhile.IH(1) [OF c ns(1) that st(1) CWhile.prems(6)])
  moreover have "fine r1 A2" if "describes A' t" "exec b t r1" for t r1
    by (rule CWhile.IH(2) [OF b ns(2) that st(2,3)])
  ultimately show ?case
    by (rule chk_while [OF _ _ CWhile.prems(2,4) refl CWhile.prems(3)])
next
  case (CScope c)
  then obtain A1 where c: "chk c A = Some A1" "A' = A1 |` dom A" by auto
  from CScope.prems(4) obtain r' where r: "r = out_map (\<lambda>s'. s' |` dom s) r'" "exec c s r'" by (auto elim: exec_ScopeE)
  have "fine r' A1" using CScope.IH [OF c(1) _ CScope.prems(3) r(2) _ CScope.prems(6)] CScope.prems(2,5) by simp
  then show ?case using describes_restrict describes_dom [OF CScope.prems(3)] by (cases r') (auto simp: r c)
qed auto

end
