(* ===== verification/Borrow_Sound.thy ===== *)
theory Borrow_Sound
  imports Borrow_Frames Borrow_Avail
begin

text \<open>
  The borrow checker against the availability semantics. \<open>avail_expr\<close> reads an expression as a
  command of \<open>Borrow_Avail\<close>: the order in which it reads, moves, binds and stores its locals, the
  order of assignments being the one \<^verbatim>\<open>crates/mty-ir/src/lower/exprs.rs\<close> gives them (the right side
  first). Moves are the explicit ones: \<open>move\<close>, message arguments, returned values; taking a field
  of a moved operand counts as moving its root, a store through a dotted path as no read. A closure
  body may run any number of times where the closure is created.
  On a fragment of the language the walker of \<open>Borrow_Flow\<close> does exactly what \<open>chk\<close> does on that
  command, so a body it accepts does not use a local that was moved or never initialised, on any
  path and however often its loops run.
\<close>

section \<open>Expressions as commands\<close>

definition cseq :: "cmd list \<Rightarrow> cmd" where
  "cseq cs = foldr CSeq cs CSkip"

definition avail_path :: "string list \<Rightarrow> position \<Rightarrow> cmd" where
  "avail_path segs pos =
     (case segs of
        [] \<Rightarrow> CSkip
      | x # _ \<Rightarrow> (case plain pos of PMove \<Rightarrow> CMove x | PAssignTarget \<Rightarrow> CSkip | _ \<Rightarrow> CUse x))"

primrec pat_binds :: "hir_pat \<Rightarrow> flow_env \<Rightarrow> ty_id \<Rightarrow> (string \<times> ty_id) list" where
  "pat_binds (PBinding n sub) = (\<lambda>E t. (n, t) # (case map_option pat_binds sub of Some f \<Rightarrow> f E t | None \<Rightarrow> []))"
| "pat_binds (PTuple xs) = (\<lambda>E t.
     let ps = (case arena_get (fe_arena E) t of TTuple ps \<Rightarrow> ps | _ \<Rightarrow> replicate (length xs) unit_id)
     in concat (map (\<lambda>(i, f). f E (case vec_get ps i of Some c \<Rightarrow> c | None \<Rightarrow> unit_id))
          (enumerate 0 (map pat_binds xs))))"
| "pat_binds (PStruct p fs) = (\<lambda>E t.
     concat (map (\<lambda>(n, sub). case sub of Some f \<Rightarrow> f E unit_id | None \<Rightarrow> [(n, unit_id)])
          (map (map_prod id (map_option pat_binds)) fs)))"
| "pat_binds (PEnum p args) = (\<lambda>E t. concat (map (\<lambda>f. f E unit_id) (map pat_binds args)))"
| "pat_binds (PRef b inner) = (\<lambda>E t.
     pat_binds inner E (case arena_get (fe_arena E) t of TRef _ i \<Rightarrow> i | _ \<Rightarrow> unit_id))"
| "pat_binds (PRange lo hi incl) = (\<lambda>E t. [])"
| "pat_binds PWildcard = (\<lambda>E t. [])"
| "pat_binds (PLiteral l) = (\<lambda>E t. [])"

definition avail_binds :: "flow_env \<Rightarrow> (string \<times> ty_id) list \<Rightarrow> bool \<Rightarrow> cmd" where
  "avail_binds E bs init = cseq (map (\<lambda>(n, t). CBind n (is_copy t (fe_arena E) (fe_defs E)) init) bs)"

definition avail_pat :: "flow_env \<Rightarrow> pat_id \<Rightarrow> ty_id \<Rightarrow> bool \<Rightarrow> cmd" where
  "avail_pat E p t init = avail_binds E (pat_binds (fe_pats E p) E t) init"

text \<open>The arms of a \<open>match\<close>, tried in order. An arm is its bindings, its guard and its body; a guard
  that fails falls through to the later arms.\<close>

fun avail_arms :: "(cmd \<times> cmd option \<times> cmd) list \<Rightarrow> cmd" where
  "avail_arms [] = CSkip"
| "avail_arms [(b, None, e)] = CScope (CSeq b e)"
| "avail_arms ((b, None, e) # m # ms) = CChoice (CScope (CSeq b e)) (avail_arms (m # ms))"
| "avail_arms ((b, Some g, e) # ms) =
     CChoice (CScope (CSeq b (CSeq g e))) (CChoice (CSeq (CScope (CSeq b g)) (avail_arms ms)) (avail_arms ms))"

definition path_segs :: "expr \<Rightarrow> string list option" where
  "path_segs e = (case e of EPath segs \<Rightarrow> Some segs | _ \<Rightarrow> None)"

type_synonym avail_fn = "flow_env \<Rightarrow> nat list \<Rightarrow> position \<Rightarrow> cmd"

definition avail_opt :: "avail_fn option \<Rightarrow> avail_fn" where
  "avail_opt w E \<pi> pos = (case w of Some w \<Rightarrow> w E \<pi> pos | None \<Rightarrow> CSkip)"

definition avail_list :: "avail_fn list \<Rightarrow> flow_env \<Rightarrow> nat list \<Rightarrow> nat \<Rightarrow> position \<Rightarrow> cmd" where
  "avail_list ws E \<pi> k pos = cseq (map (\<lambda>(i, w). w E (i # \<pi>) pos) (enumerate k ws))"

definition move_pos :: "position \<Rightarrow> position" where
  "move_pos pos = (if plain pos = PMove then PMove else PUse)"

primrec avail_expr :: "expr \<Rightarrow> avail_fn"
  and avail_body :: "block \<Rightarrow> avail_fn"
  and avail_stmt :: "stmt \<Rightarrow> flow_env \<Rightarrow> nat list \<Rightarrow> cmd"
  and avail_arg :: "arg \<Rightarrow> avail_fn"
  and avail_arm :: "match_arm \<Rightarrow> flow_env \<Rightarrow> nat list \<Rightarrow> ty_id \<Rightarrow> cmd \<times> cmd option \<times> cmd" where
  "avail_expr (EPath segs) = (\<lambda>E \<pi> pos. avail_path segs pos)"
| "avail_expr (EPathGeneric segs gs) = (\<lambda>E \<pi> pos. avail_path segs pos)"
| "avail_expr (ELiteral l) = (\<lambda>E \<pi> pos. CSkip)"
| "avail_expr (EBlock b) = (\<lambda>E \<pi> pos. if pos = ArenaBody then avail_body b E \<pi> PUse else CScope (avail_body b E \<pi> PUse))"
| "avail_expr (ETuple xs) = (\<lambda>E \<pi> pos. avail_list (map avail_expr xs) E \<pi> 0 PUse)"
| "avail_expr (EArray xs) = (\<lambda>E \<pi> pos. avail_list (map avail_expr xs) E \<pi> 0 PUse)"
| "avail_expr (EBinary op l r) = (\<lambda>E \<pi> pos.
     if \<not> is_assign op then CSeq (avail_expr l E (0 # \<pi>) PUse) (avail_expr r E (1 # \<pi>) PUse)
     else case path_segs l of
       Some [x] \<Rightarrow> CStore x (if op = BAssign then avail_expr r E (1 # \<pi>) PUse
                              else CSeq (avail_expr r E (1 # \<pi>) PUse) (CUse x))
     | Some (x # y # zs) \<Rightarrow> (if op = BAssign then avail_expr r E (1 # \<pi>) PUse
                              else CSeq (avail_expr r E (1 # \<pi>) PUse) (CUse x))
     | _ \<Rightarrow> CSeq (avail_expr r E (1 # \<pi>) PUse) (avail_expr l E (0 # \<pi>) PAssignTarget))"
| "avail_expr (EUnary op r) = (\<lambda>E \<pi> pos. avail_expr r E (0 # \<pi>) PUse)"
| "avail_expr (EBorrow mutable inner) = (\<lambda>E \<pi> pos.
     avail_expr inner E (0 # \<pi>) (if mutable then PBorrowMut else PBorrowShared))"
| "avail_expr (EMove inner) = (\<lambda>E \<pi> pos. avail_expr inner E (0 # \<pi>) PMove)"
| "avail_expr (ECall c args) = (\<lambda>E \<pi> pos.
     CSeq (avail_expr c E (0 # \<pi>) PUse)
       (cseq (map (\<lambda>(i, w). w E (Suc i # \<pi>) (arg_position E (param_tys E (0 # \<pi>)) i)) (enumerate 0 (map avail_arg args)))))"
| "avail_expr (EMethodCall r m args) = (\<lambda>E \<pi> pos.
     CSeq (avail_expr r E (0 # \<pi>) PBorrowShared) (avail_list (map avail_arg args) E \<pi> 1 PUse))"
| "avail_expr (EField r n) = (\<lambda>E \<pi> pos. avail_expr r E (0 # \<pi>) (move_pos pos))"
| "avail_expr (EIndex r i) = (\<lambda>E \<pi> pos.
     CSeq (avail_expr r E (0 # \<pi>) (move_pos pos)) (avail_expr i E (1 # \<pi>) PUse))"
| "avail_expr (EIf c t e) = (\<lambda>E \<pi> pos.
     CSeq (avail_expr c E (0 # \<pi>) PUse)
       (CChoice (avail_opt (map_option avail_expr e) E (2 # \<pi>) PUse) (CScope (avail_body t E (1 # \<pi>) PUse))))"
| "avail_expr (EIfLet p c t e) = (\<lambda>E \<pi> pos.
     CSeq (avail_expr c E (0 # \<pi>) PUse)
       (CChoice (avail_opt (map_option avail_expr e) E (2 # \<pi>) PUse)
          (CScope (CSeq (avail_pat E p (ty_or_unit E (0 # \<pi>)) True) (CScope (avail_body t E (1 # \<pi>) PUse))))))"
| "avail_expr (EMatch c arms) = (\<lambda>E \<pi> pos.
     CSeq (avail_expr c E (0 # \<pi>) PUse)
       (avail_arms (map (\<lambda>(i, w). w E (i # \<pi>) (ty_or_unit E (0 # \<pi>))) (enumerate 1 (map avail_arm arms)))))"
| "avail_expr (EFor p i b) = (\<lambda>E \<pi> pos.
     CSeq (avail_expr i E (0 # \<pi>) PUse)
       (CWhile CSkip (CScope (CSeq (avail_pat E p (elem_ty E (ty_or_unit E (0 # \<pi>))) True)
          (CScope (avail_body b E (1 # \<pi>) PUse))))))"
| "avail_expr (EWhile c b) = (\<lambda>E \<pi> pos.
     CWhile (avail_expr c E (0 # \<pi>) PUse) (CScope (avail_body b E (1 # \<pi>) PUse)))"
| "avail_expr (EWhileLet p c b) = (\<lambda>E \<pi> pos.
     CWhile (avail_expr c E (0 # \<pi>) PUse)
       (CScope (CSeq (avail_pat E p (ty_or_unit E (0 # \<pi>)) True) (CScope (avail_body b E (1 # \<pi>) PUse)))))"
| "avail_expr (ELoop b) = (\<lambda>E \<pi> pos. CWhile CSkip (CScope (avail_body b E (0 # \<pi>) PUse)))"
| "avail_expr (EReturn e) = (\<lambda>E \<pi> pos. CSeq (avail_opt (map_option avail_expr e) E (0 # \<pi>) PMove) CReturn)"
| "avail_expr (EBreak e) = (\<lambda>E \<pi> pos. CSeq (avail_opt (map_option avail_expr e) E (0 # \<pi>) PMove) CBreak)"
| "avail_expr EContinue = (\<lambda>E \<pi> pos. CContinue)"
| "avail_expr (EStruct p fs) = (\<lambda>E \<pi> pos. avail_list (map snd (map (map_prod id avail_expr) fs)) E \<pi> 0 PUse)"
| "avail_expr (EMap es) = (\<lambda>E \<pi> pos.
     cseq (map (\<lambda>(i, k, v). CSeq (k E (0 # i # \<pi>) PUse) (v E (1 # i # \<pi>) PUse))
        (enumerate 0 (map (map_prod avail_expr avail_expr) es))))"
| "avail_expr (ESend t m args) = (\<lambda>E \<pi> pos.
     CSeq (avail_expr t E (0 # \<pi>) PUse) (avail_list (map avail_arg args) E \<pi> 1 PMove))"
| "avail_expr (EAsk t m args) = (\<lambda>E \<pi> pos.
     CSeq (avail_expr t E (0 # \<pi>) PUse) (avail_list (map avail_arg args) E \<pi> 1 PMove))"
| "avail_expr (EDeadline i d) = (\<lambda>E \<pi> pos. CSeq (avail_expr d E (1 # \<pi>) PUse) (avail_expr i E (0 # \<pi>) (plain pos)))"
| "avail_expr (EQuestion i) = (\<lambda>E \<pi> pos. CSeq (avail_expr i E (0 # \<pi>) (plain pos)) (CChoice CSkip CReturn))"
| "avail_expr (ESpawn k i) = (\<lambda>E \<pi> pos. avail_expr i E (0 # \<pi>) PUse)"
| "avail_expr (EDetach i) = (\<lambda>E \<pi> pos. avail_expr i E (0 # \<pi>) PUse)"
| "avail_expr (EJoin i) = (\<lambda>E \<pi> pos. avail_expr i E (0 # \<pi>) PUse)"
| "avail_expr (EHtmlTemplate h) = (\<lambda>E \<pi> pos. CSkip)"
| "avail_expr (EUnsafe b) = (\<lambda>E \<pi> pos. CScope (avail_body b E \<pi> PUse))"
| "avail_expr (EArena n b) = (\<lambda>E \<pi> pos. CScope (avail_expr b E (0 # \<pi>) ArenaBody))"
| "avail_expr (ETaskScope d b) = (\<lambda>E \<pi> pos.
     CSeq (avail_opt (map_option avail_expr d) E (0 # \<pi>) PUse) (CScope (avail_body b E (1 # \<pi>) PUse)))"
| "avail_expr (EBudget es b) = (\<lambda>E \<pi> pos.
     CSeq (avail_list (map snd (map (map_prod id avail_expr) es)) E \<pi> 1 PUse) (avail_expr b E (0 # \<pi>) PUse))"
| "avail_expr (ESandbox n es b) = (\<lambda>E \<pi> pos.
     CSeq (avail_list (map snd (map (map_prod id avail_expr) es)) E \<pi> 1 PUse) (CScope (avail_body b E (0 # \<pi>) PUse)))"
| "avail_expr (ECast l t) = (\<lambda>E \<pi> pos. avail_expr l E (0 # \<pi>) PUse)"
| "avail_expr (ELambda ps r b) = (\<lambda>E \<pi> pos.
     CWhile CSkip (CScope (CSeq (avail_binds E (map (\<lambda>p. (hp_name p, unit_id)) ps) True) (CScope (avail_body b E (0 # \<pi>) PUse)))))"
| "avail_expr (ERun i) = (\<lambda>E \<pi> pos. avail_expr i E (0 # \<pi>) (plain pos))"
| "avail_expr EError = (\<lambda>E \<pi> pos. CSkip)"
| "avail_body (Block ss t) = (\<lambda>E \<pi> pos.
     CSeq (cseq (map (\<lambda>(i, w). w E (i # \<pi>)) (enumerate 0 (map avail_stmt ss))))
       (avail_opt (map_option avail_expr t) E (length ss # \<pi>) PUse))"
| "avail_stmt (SLet p ty init mutable) = (\<lambda>E \<pi>.
     CSeq (avail_opt (map_option avail_expr init) E \<pi> PUse)
       (avail_pat E p (if init = None then unit_id else ty_or_unit E \<pi>) (init \<noteq> None)))"
| "avail_stmt (SExpr e) = (\<lambda>E \<pi>. avail_expr e E \<pi> PUse)"
| "avail_arg (Arg n e) = avail_expr e"
| "avail_arm (Arm p g b) = (\<lambda>E \<pi> t.
     (avail_pat E p t True, map_option (\<lambda>w. w E (0 # \<pi>) PUse) (map_option avail_expr g), avail_expr b E (1 # \<pi>) PUse))"

section \<open>The simulation relation\<close>

fun holds_value :: "ownership \<Rightarrow> bool" where
  "holds_value (Moved _) = False"
| "holds_value Uninit = False"
| "holds_value _ = True"

definition abs_locals :: "(string \<rightharpoonup> local_state) \<Rightarrow> store" where
  "abs_locals m = (\<lambda>x. map_option (\<lambda>ls. (ls_is_copy ls, holds_value (ls_state ls))) (m x))"

abbreviation abs_cx :: "borrow_cx \<Rightarrow> store" where
  "abs_cx s \<equiv> abs_locals (bc_locals s)"

fun extend_top :: "string list \<Rightarrow> scope_frame list \<Rightarrow> scope_frame list" where
  "extend_top ns (f # fs) = f\<lparr>sf_locals := sf_locals f @ ns\<rparr> # fs"
| "extend_top ns [] = []"

definition ready :: "string set \<Rightarrow> cmd \<Rightarrow> borrow_cx \<Rightarrow> bool" where
  "ready L c s \<longleftrightarrow> dom (bc_locals s) \<subseteq> L \<and> noshadow (dom (bc_locals s)) c \<and> bc_scopes s \<noteq> [] \<and>
     (\<exists>K. settled K c \<and> stable K (abs_cx s))"

text \<open>The state transformer \<open>f\<close> of the walker does what \<open>chk\<close> does on \<open>c\<close>, as long as it raises no diagnostic.\<close>

definition sim_of :: "string set \<Rightarrow> cmd \<Rightarrow> (borrow_cx \<Rightarrow> borrow_cx) \<Rightarrow> bool" where
  "sim_of L c f \<longleftrightarrow> set (binds c) \<subseteq> L \<and> (\<forall>s. \<exists>ds. bc_diag (f s) = bc_diag s @ ds) \<and>
     (\<forall>s. ready L c s \<and> bc_diag (f s) = bc_diag s \<longrightarrow>
        chk c (abs_cx s) = Some (abs_cx (f s)) \<and> bc_scopes (f s) = extend_top (binds c) (bc_scopes s))"

lemma sim_ofI:
  assumes "set (binds c) \<subseteq> L" "\<And>s. \<exists>ds. bc_diag (f s) = bc_diag s @ ds"
    "\<And>s. ready L c s \<Longrightarrow> bc_diag (f s) = bc_diag s \<Longrightarrow>
      chk c (abs_cx s) = Some (abs_cx (f s)) \<and> bc_scopes (f s) = extend_top (binds c) (bc_scopes s)"
  shows "sim_of L c f"
  using assms by (simp add: sim_of_def)

lemma sim_ofD:
  assumes "sim_of L c f"
  shows "set (binds c) \<subseteq> L" "\<exists>ds. bc_diag (f s) = bc_diag s @ ds"
    "ready L c s \<Longrightarrow> bc_diag (f s) = bc_diag s \<Longrightarrow> chk c (abs_cx s) = Some (abs_cx (f s))"
    "ready L c s \<Longrightarrow> bc_diag (f s) = bc_diag s \<Longrightarrow> bc_scopes (f s) = extend_top (binds c) (bc_scopes s)"
  using assms by (simp_all add: sim_of_def)

lemma unchanged_between:
  "\<exists>ds. b = a @ ds \<Longrightarrow> \<exists>ds. c = b @ ds \<Longrightarrow> c = a \<Longrightarrow> b = a \<and> c = b"
  by auto

lemma extends_between: "\<exists>ds. b = a @ ds \<Longrightarrow> \<exists>ds. c = b @ ds \<Longrightarrow> \<exists>ds. c = a @ ds"
  by auto

lemma extend_top_simps [simp]:
  "extend_top [] fs = fs" "extend_top ns (extend_top ms fs) = extend_top (ms @ ns) fs"
  "extend_top ns fs = [] \<longleftrightarrow> fs = []"
  by (cases fs; simp)+

lemma dom_abs [simp]: "dom (abs_locals m) = dom m"
  by (auto simp: abs_locals_def)

text \<open>A transformer that leaves the locals' availability and the scopes alone.\<close>

definition inert :: "(borrow_cx \<Rightarrow> borrow_cx) \<Rightarrow> bool" where
  "inert f \<longleftrightarrow> (\<forall>s. abs_cx (f s) = abs_cx s \<and> bc_scopes (f s) = bc_scopes s \<and> (\<exists>ds. bc_diag (f s) = bc_diag s @ ds))"

lemma sim_inert: "inert f \<Longrightarrow> sim_of L CSkip f"
  by (rule sim_ofI) (auto simp: inert_def)

lemma sim_skip: "sim_of L CSkip id" "sim_of L CSkip (\<lambda>s. s)"
  by (rule sim_inert; simp add: inert_def)+

text \<open>After a first command the next one is ready.\<close>

lemma ready_next:
  assumes "sim_of L c1 f" "ready L (CSeq c1 c2) s" "bc_diag (f s) = bc_diag s"
  shows "ready L c1 s" "ready L c2 (f s)"
proof -
  show r: "ready L c1 s" using assms(2) by (auto simp: ready_def)
  note c = sim_ofD(3,4) [OF assms(1) r assms(3)]
  have ns: "noshadow (dom (abs_cx s)) c1" using r by (simp add: ready_def)
  have d: "dom (bc_locals (f s)) = dom (bc_locals s) \<union> set (binds c1)"
    using chk_shape [OF c(1) ns] by simp
  obtain K where K: "settled (K \<union> solid c1) c2" "stable K (abs_cx s)" using assms(2) by (auto simp: ready_def)
  then have "stable (K \<union> solid c1) (abs_cx (f s))" using chk_stable [OF c(1) ns] by blast
  then show "ready L c2 (f s)"
    using assms(2) d sim_ofD(1) [OF assms(1)] K(1) c(2) unfolding ready_def by auto
qed

lemma sim_seq:
  assumes "sim_of L c1 f" "sim_of L c2 g"
  shows "sim_of L (CSeq c1 c2) (g \<circ> f)"
proof (rule sim_ofI)
  show "set (binds (CSeq c1 c2)) \<subseteq> L" using sim_ofD(1) [OF assms(1)] sim_ofD(1) [OF assms(2)] by simp
  show "\<exists>ds. bc_diag ((g \<circ> f) s) = bc_diag s @ ds" for s
    unfolding comp_apply by (rule extends_between [OF sim_ofD(2) [OF assms(1)] sim_ofD(2) [OF assms(2)]])
  fix s assume r: "ready L (CSeq c1 c2) s" and d: "bc_diag ((g \<circ> f) s) = bc_diag s"
  note d1 = unchanged_between [OF sim_ofD(2) [OF assms(1)] sim_ofD(2) [OF assms(2)] d [unfolded comp_apply]]
  note n = ready_next [OF assms(1) r d1 [THEN conjunct1]]
  show "chk (CSeq c1 c2) (abs_cx s) = Some (abs_cx ((g \<circ> f) s)) \<and>
      bc_scopes ((g \<circ> f) s) = extend_top (binds (CSeq c1 c2)) (bc_scopes s)"
    using sim_ofD(3,4) [OF assms(1) n(1) d1 [THEN conjunct1]] sim_ofD(3,4) [OF assms(2) n(2) d1 [THEN conjunct2]]
    by simp
qed

lemma sim_inert_before: "inert f \<Longrightarrow> sim_of L c g \<Longrightarrow> sim_of L c (g \<circ> f)"
proof (rule sim_ofI)
  assume i: "inert f" and g: "sim_of L c g"
  show "set (binds c) \<subseteq> L" by (rule sim_ofD(1) [OF g])
  show "\<exists>ds. bc_diag ((g \<circ> f) s) = bc_diag s @ ds" for s
    unfolding comp_apply by (rule extends_between [OF _ sim_ofD(2) [OF g]]) (use i in \<open>simp add: inert_def\<close>)
  fix s assume r: "ready L c s" and d: "bc_diag ((g \<circ> f) s) = bc_diag s"
  have "\<exists>ds. bc_diag (f s) = bc_diag s @ ds" using i by (simp add: inert_def)
  from unchanged_between [OF this sim_ofD(2) [OF g] d [unfolded comp_apply]]
  have "bc_diag (f s) = bc_diag s" "bc_diag (g (f s)) = bc_diag (f s)" by simp_all
  moreover have "dom (bc_locals (f s)) = dom (bc_locals s)" using i unfolding inert_def by (metis dom_abs)
  then have "ready L c (f s)" using r i unfolding ready_def inert_def by metis
  ultimately show "chk c (abs_cx s) = Some (abs_cx ((g \<circ> f) s)) \<and>
      bc_scopes ((g \<circ> f) s) = extend_top (binds c) (bc_scopes s)"
    using sim_ofD(3) [OF g, of "f s"] sim_ofD(4) [OF g, of "f s"] i by (simp add: inert_def)
qed

lemma sim_inert_after: "sim_of L c g \<Longrightarrow> inert f \<Longrightarrow> sim_of L c (f \<circ> g)"
proof (rule sim_ofI)
  assume i: "inert f" and g: "sim_of L c g"
  show "set (binds c) \<subseteq> L" by (rule sim_ofD(1) [OF g])
  show "\<exists>ds. bc_diag ((f \<circ> g) s) = bc_diag s @ ds" for s
    unfolding comp_apply by (rule extends_between [OF sim_ofD(2) [OF g]]) (use i in \<open>simp add: inert_def\<close>)
  fix s assume r: "ready L c s" and d: "bc_diag ((f \<circ> g) s) = bc_diag s"
  have "\<exists>ds. bc_diag (f (g s)) = bc_diag (g s) @ ds" using i by (simp add: inert_def)
  from unchanged_between [OF sim_ofD(2) [OF g] this d [unfolded comp_apply]]
  have "bc_diag (g s) = bc_diag s" by simp
  then show "chk c (abs_cx s) = Some (abs_cx ((f \<circ> g) s)) \<and>
      bc_scopes ((f \<circ> g) s) = extend_top (binds c) (bc_scopes s)"
    using sim_ofD(3,4) [OF g r] i by (simp add: inert_def)
qed

lemma sim_cseq: "list_all2 (sim_of L) cs fs \<Longrightarrow> sim_of L (cseq cs) (seq_all fs)"
proof (induction rule: list_all2_induct)
  case Nil
  then show ?case using sim_skip(2) by (simp add: cseq_def seq_all_def)
next
  case (Cons c cs f fs)
  have e: "seq_all (f # fs) = seq_all fs \<circ> f" by (simp add: seq_all_def fun_eq_iff)
  have c: "cseq (c # cs) = CSeq c (cseq cs)" by (simp add: cseq_def)
  show ?case unfolding e c by (rule sim_seq [OF Cons(1,3)])
qed

section \<open>Frames, branches and loops\<close>

lemma abs_upd: "m x = Some ls \<Longrightarrow> abs_locals (m(x \<mapsto> ls\<lparr>ls_state := o'\<rparr>)) = (abs_locals m)(x \<mapsto> (ls_is_copy ls, holds_value o'))"
  by (auto simp: abs_locals_def fun_eq_iff)

lemma abs_upd_same:
  "m x = Some ls \<Longrightarrow> holds_value o' = holds_value (ls_state ls) \<Longrightarrow> abs_locals (m(x \<mapsto> ls\<lparr>ls_state := o'\<rparr>)) = abs_locals m"
  by (auto simp: abs_locals_def fun_eq_iff)

lemma inert_recompute_root_state: "inert (recompute_root_state n)"
proof -
  have "abs_cx (recompute_root_state n s) = abs_cx s" for s
    by (auto simp: recompute_root_state_def Let_def set_state_def abs_upd_same split: option.split ownership.split)
  moreover have "bc_scopes (recompute_root_state n s) = bc_scopes s \<and> bc_diag (recompute_root_state n s) = bc_diag s" for s
    by (auto simp: recompute_root_state_def Let_def set_state_def split: option.split ownership.split)
  ultimately show ?thesis by (simp add: inert_def)
qed

lemma inert_id: "inert id"
  by (simp add: inert_def)

lemma inert_comp: "inert f \<Longrightarrow> inert g \<Longrightarrow> inert (g \<circ> f)"
  unfolding inert_def comp_apply by (metis append.assoc)

lemma inert_seq_all: "(\<And>f. f \<in> set fs \<Longrightarrow> inert f) \<Longrightarrow> inert (seq_all fs)"
proof (induction fs)
  case (Cons f fs)
  have e: "seq_all (f # fs) = seq_all fs \<circ> f" by (simp add: seq_all_def fun_eq_iff)
  show ?case unfolding e by (rule inert_comp) (use Cons in auto)
qed (simp add: seq_all_def inert_def)

lemma inert_recompute_all: "inert (recompute_all rs)"
  unfolding recompute_all_def by (rule inert_seq_all) (auto simp: inert_recompute_root_state)

lemma abs_drop_local: "abs_cx (drop_local n s) = (abs_cx s)(n := None)" "bc_scopes (drop_local n s) = bc_scopes s"
  by (auto simp: drop_local_def Let_def abs_locals_def fun_eq_iff split: option.split)

lemma abs_drop_locals:
  "abs_cx (seq_all (map drop_local ns) s) = abs_cx s |` (- set ns) \<and> bc_scopes (seq_all (map drop_local ns) s) = bc_scopes s"
proof (induction ns arbitrary: s)
  case (Cons n ns)
  have "seq_all (map drop_local (n # ns)) s = seq_all (map drop_local ns) (drop_local n s)" by (simp add: seq_all_def)
  then show ?case using Cons [of "drop_local n s"] by (auto simp: abs_drop_local restrict_map_def fun_eq_iff)
qed (simp add: seq_all_def restrict_map_def)

lemma pop_frame_abs:
  assumes "bc_scopes s = f # fs"
  shows "abs_cx (pop_frame s) = abs_cx s |` (- set (sf_locals f))" "bc_scopes (pop_frame s) = fs"
proof -
  let ?ns = "sf_locals f"
  let ?s1 = "s\<lparr>bc_scopes := fs, bc_diag := bc_diag s @ outlives_diags ?ns (bc_ledger s)\<rparr>"
  obtain k r where kr: "decay_borrowers (bc_ledger s) ?ns = (k, r)" by force
  let ?s2 = "recompute_all r (?s1\<lparr>bc_ledger := k\<rparr>)"
  let ?s3 = "?s2\<lparr>bc_ledger := filter (\<lambda>r. \<not> list_ex (\<lambda>n. n = root (br_place r)) ?ns) (bc_ledger ?s2)\<rparr>"
  have p: "pop_frame s = seq_all (map drop_local ?ns) ?s3" by (simp add: pop_frame_def assms Let_def kr)
  have "abs_cx ?s3 = abs_cx s" "bc_scopes ?s3 = fs"
    using inert_recompute_all [of r] by (simp_all add: inert_def)
  then show "abs_cx (pop_frame s) = abs_cx s |` (- set ?ns)" "bc_scopes (pop_frame s) = fs"
    using abs_drop_locals [of ?ns ?s3] unfolding p by simp_all
qed

lemma restrict_same: "dom m = D \<union> N \<Longrightarrow> N \<inter> D = {} \<Longrightarrow> m |` (- N) = m |` D"
proof
  fix x assume "dom m = D \<union> N" "N \<inter> D = {}"
  moreover from this have "m x = None" if "x \<notin> D" "x \<notin> N" using that by (metis UnE domIff)
  ultimately show "(m |` (- N)) x = (m |` D) x" by (auto simp: restrict_map_def)
qed

lemma noshadow_fresh: "noshadow \<Gamma> c \<Longrightarrow> set (binds c) \<inter> \<Gamma> = {}"
  by (induction c arbitrary: \<Gamma>) fastforce+

lemma kept_diag: "kept s s' \<Longrightarrow> \<exists>ds. bc_diag s' = bc_diag s @ ds"
  by (auto simp: keeps_def)

lemma sim_frame:
  assumes f: "sim_of L c f" and g: "\<And>s. keeps grown s (f s)"
  shows "sim_of L (CScope c) (in_frame region f)"
proof (rule sim_ofI)
  show "set (binds (CScope c)) \<subseteq> L" by simp
  show "\<exists>ds. bc_diag (in_frame region f s) = bc_diag s @ ds" for s
    by (rule kept_diag [OF in_frame_keeps [OF g]])
  fix s assume r: "ready L (CScope c) s" and d: "bc_diag (in_frame region f s) = bc_diag s"
  let ?s0 = "push_frame region s"
  have r0: "ready L c ?s0" using r by (auto simp: ready_def push_frame_def)
  have sc0: "bc_scopes ?s0 = \<lparr>sf_locals = [], sf_arena_region = region\<rparr> # bc_scopes s" "bc_diag ?s0 = bc_diag s"
    by (simp_all add: push_frame_def)
  obtain fr where fr: "bc_scopes (f ?s0) = fr # bc_scopes s"
    using g [of ?s0] by (cases "bc_scopes (f ?s0)") (auto simp: keeps_def sc0)
  have "\<exists>ds. bc_diag (pop_frame (f ?s0)) = bc_diag (f ?s0) @ ds"
    using kept_diag [OF kept_pop_frame [OF fr]] by simp
  moreover have "bc_diag (pop_frame (f ?s0)) = bc_diag ?s0" using d by (simp add: in_frame_def sc0(2))
  ultimately have d0: "bc_diag (f ?s0) = bc_diag ?s0"
    using unchanged_between [OF sim_ofD(2) [OF f]] by blast
  note c = sim_ofD(3,4) [OF f r0 d0]
  have "bc_scopes (f ?s0) = \<lparr>sf_locals = binds c, sf_arena_region = region\<rparr> # bc_scopes s"
    using c(2) by (simp add: sc0)
  note pop = pop_frame_abs [OF this]
  have ns: "noshadow (dom (abs_cx s)) c" using r by (simp add: ready_def)
  have chk: "chk c (abs_cx s) = Some (abs_cx (f ?s0))" using c(1) by (simp add: push_frame_def)
  have "dom (abs_cx (f ?s0)) = dom (abs_cx s) \<union> set (binds c)" using chk_shape [OF chk ns] by blast
  from restrict_same [OF this noshadow_fresh [OF ns]]
  have "abs_cx (f ?s0) |` (- set (binds c)) = abs_cx (f ?s0) |` dom (abs_cx s)" .
  then show "chk (CScope c) (abs_cx s) = Some (abs_cx (in_frame region f s)) \<and>
      bc_scopes (in_frame region f s) = extend_top (binds (CScope c)) (bc_scopes s)"
    using pop chk by (simp add: in_frame_def)
qed

lemma holds_value_join: "holds_value (join_ownership a b) \<longleftrightarrow> holds_value a \<and> holds_value b"
  by (cases a; cases b) auto

lemma abs_join: "abs_locals (join_states a b) = join_store (abs_locals a) (abs_locals b)"
  by (auto simp: abs_locals_def join_states_def join_store_def join_cell_def fun_eq_iff holds_value_join split: option.split)

lemma sim_branches:
  assumes f: "sim_of L c1 f" and g: "sim_of L c2 g"
  shows "sim_of L (CChoice c2 c1) (walk_branches f g)"
proof (rule sim_ofI)
  show "set (binds (CChoice c2 c1)) \<subseteq> L" using sim_ofD(1) [OF f] sim_ofD(1) [OF g] by simp
  let ?m = "\<lambda>s. (f s)\<lparr>bc_locals := bc_locals s, bc_ledger := bc_ledger s\<rparr>"
  have dg: "\<exists>ds. bc_diag (?m s) = bc_diag s @ ds" for s using sim_ofD(2) [OF f, of s] by simp
  have w: "bc_diag (walk_branches f g s) = bc_diag (g (?m s))" for s by (simp add: walk_branches_def Let_def)
  show "\<exists>ds. bc_diag (walk_branches f g s) = bc_diag s @ ds" for s
    unfolding w by (rule extends_between [OF dg sim_ofD(2) [OF g]])
  fix s assume r: "ready L (CChoice c2 c1) s" and d: "bc_diag (walk_branches f g s) = bc_diag s"
  have d1: "bc_diag (f s) = bc_diag s" "bc_diag (g (?m s)) = bc_diag (?m s)"
    using unchanged_between [OF dg sim_ofD(2) [OF g] d [unfolded w]] by simp_all
  have r1: "ready L c1 s" and b: "binds c1 = []" "binds c2 = []" using r by (auto simp: ready_def)
  note c1 = sim_ofD(3,4) [OF f r1 d1(1)]
  have r2: "ready L c2 (?m s)" using r c1(2) by (auto simp: ready_def b)
  note c2 = sim_ofD(3,4) [OF g r2 d1(2)]
  show "chk (CChoice c2 c1) (abs_cx s) = Some (abs_cx (walk_branches f g s)) \<and>
      bc_scopes (walk_branches f g s) = extend_top (binds (CChoice c2 c1)) (bc_scopes s)"
    using c1 c2 by (simp add: walk_branches_def Let_def abs_join b)
qed

lemma chk_mv_free:
  "chk c A = Some A' \<Longrightarrow> noshadow (dom A) c \<Longrightarrow> mv_free c \<Longrightarrow> keeps_avail A A'"
proof (induction c arbitrary: A A')
  case (CStore x c)
  then have "keeps_avail (fill x A) A'" by simp
  moreover have "keeps_avail A (fill x A)" by (auto simp: keeps_avail_def fill_def split: option.split)
  ultimately show ?case using keeps_avail_trans by blast
next
  case (CBind x c a)
  then have "A x = None" by auto
  then show ?case using CBind by (auto simp: keeps_avail_def)
next
  case (CSeq c1 c2)
  then obtain A1 where c1: "chk c1 A = Some A1" and c2: "chk c2 A1 = Some A'" by (auto simp: bind_eq_Some_conv)
  have ns: "noshadow (dom A1) c2" "noshadow (dom A) c1" using chk_shape [OF c1] CSeq.prems by auto
  show ?case
    by (rule keeps_avail_trans [OF CSeq.IH(1) [OF c1 ns(2)] CSeq.IH(2) [OF c2 ns(1)]]) (use CSeq.prems in auto)
next
  case (CChoice c1 c2)
  then obtain A1 A2 where c: "chk c1 A = Some A1" "chk c2 A = Some A2" and j: "A' = join_store A1 A2"
    by (auto simp: bind_eq_Some_conv)
  have "keeps_avail A A1" "keeps_avail A A2"
    using CChoice.IH(1) [OF c(1)] CChoice.IH(2) [OF c(2)] CChoice.prems(2,3) by auto
  then show ?case unfolding j keeps_avail_def join_store_def join_cell_def by fastforce
next
  case (CWhile c b)
  then obtain A2 where "chk c A = Some A'" by (auto simp: bind_eq_Some_conv)
  then show ?case using CWhile.IH(1) [of A A'] CWhile.prems by auto
next
  case (CScope c)
  then obtain A1 where "chk c A = Some A1" "A' = A1 |` dom A" by auto
  then show ?case using CScope.IH [of A A1] CScope.prems keeps_avail_restrict by simp
qed (auto simp: keeps_avail_def split: option.splits bool.splits)

lemma join_keeps: "keeps_avail A B \<Longrightarrow> dom B = dom A \<Longrightarrow> join_store A B = A"
proof
  fix x assume k: "keeps_avail A B" and d: "dom B = dom A"
  show "join_store A B x = A x"
  proof (cases "A x")
    case None
    then have "B x = None" using d by (metis domIff)
    then show ?thesis using None by (simp add: join_store_def join_cell_def)
  next
    case (Some p)
    obtain c a where p: "p = (c, a)" by force
    then obtain a' where "B x = Some (c, a')" "a \<longrightarrow> a'" using k Some unfolding keeps_avail_def by blast
    then show ?thesis using Some p by (auto simp: join_store_def join_cell_def)
  qed
qed

lemma sim_loop_body:
  assumes f: "sim_of L c f" and r: "ready L (CWhile CSkip c) s" and b: "binds c = []"
    and d: "bc_diag (f s) = bc_diag s" and A: "abs_locals m = abs_cx s"
  shows "abs_cx (join_into m l (f s)) = abs_cx s" "bc_scopes (join_into m l (f s)) = bc_scopes s"
    "\<exists>A2. chk c (abs_cx s) = Some A2"
proof -
  have rc: "ready L c s" and mv: "mv_free c" and ns: "noshadow (dom (abs_cx s)) c" using r by (auto simp: ready_def)
  note c = sim_ofD(3,4) [OF f rc d]
  have "keeps_avail (abs_cx s) (abs_cx (f s))" by (rule chk_mv_free [OF c(1) ns mv])
  moreover have "dom (abs_cx (f s)) = dom (abs_cx s)" using chk_shape [OF c(1) ns] b by simp
  ultimately have "join_store (abs_cx s) (abs_cx (f s)) = abs_cx s" by (rule join_keeps)
  then show "abs_cx (join_into m l (f s)) = abs_cx s" by (simp add: join_into_def abs_join A)
  show "bc_scopes (join_into m l (f s)) = bc_scopes s" using c(2) b by (simp add: join_into_def)
  show "\<exists>A2. chk c (abs_cx s) = Some A2" using c(1) by blast
qed

lemma loop_rounds_diag:
  assumes f: "sim_of L c f"
  shows "\<exists>ds. bc_diag (loop_rounds n m l k f s) = bc_diag s @ ds"
proof (induction n arbitrary: s k)
  case 0
  show ?case using sim_ofD(2) [OF f, of s] by (simp add: join_into_def)
next
  case (Suc n)
  have "\<exists>ds. bc_diag (join_into m l (f s)) = bc_diag s @ ds" using sim_ofD(2) [OF f, of s] by (simp add: join_into_def)
  from extends_between [OF this Suc] this show ?case by (simp add: Let_def)
qed

lemma loop_rounds_abs:
  assumes f: "sim_of L c f" and b: "binds c = []"
  shows "ready L (CWhile CSkip c) s \<Longrightarrow> abs_locals m = abs_cx s \<Longrightarrow> bc_diag (loop_rounds n m l k f s) = bc_diag s \<Longrightarrow>
    abs_cx (loop_rounds n m l k f s) = abs_cx s \<and> bc_scopes (loop_rounds n m l k f s) = bc_scopes s \<and>
    (\<exists>A2. chk c (abs_cx s) = Some A2)"
proof (induction n arbitrary: s k)
  case 0
  then have "bc_diag (f s) = bc_diag s" by (simp add: join_into_def)
  from sim_loop_body [OF f 0(1) b this 0(2)] show ?case by simp
next
  case (Suc n)
  let ?s1 = "join_into m l (f s)"
  have ext: "\<exists>ds. bc_diag ?s1 = bc_diag s @ ds" using sim_ofD(2) [OF f, of s] by (simp add: join_into_def)
  show ?case
  proof (cases "length (bc_ledger ?s1) = k")
    case True
    then have "bc_diag (f s) = bc_diag s" using Suc.prems(3) by (simp add: Let_def join_into_def)
    from sim_loop_body [OF f Suc.prems(1) b this Suc.prems(2)] True show ?thesis by (simp add: Let_def)
  next
    case False
    have e: "loop_rounds (Suc n) m l k f s = loop_rounds n m l (length (bc_ledger ?s1)) f ?s1"
      using False by (simp add: Let_def)
    note u = unchanged_between [OF ext loop_rounds_diag [OF f] Suc.prems(3) [unfolded e]]
    have "bc_diag (f s) = bc_diag s" using u by (simp add: join_into_def)
    note body = sim_loop_body [OF f Suc.prems(1) b this Suc.prems(2)]
    have "dom (bc_locals ?s1) = dom (bc_locals s)" using body(1) by (metis dom_abs)
    then have "ready L (CWhile CSkip c) ?s1" using Suc.prems(1) body(1,2) unfolding ready_def by metis
    moreover have "abs_locals m = abs_cx ?s1" using Suc.prems(2) body(1) by simp
    ultimately show ?thesis using Suc.IH [of ?s1] u body unfolding e by auto
  qed
qed

lemma settled_mono: "settled K c \<Longrightarrow> K \<subseteq> K' \<Longrightarrow> settled K' c"
proof (induction c arbitrary: K K')
  case (CSeq c1 c2)
  then show ?case by (metis Un_mono order_refl settled.simps(2))
qed auto

lemma sim_while:
  assumes g: "sim_of L c1 g" and f: "sim_of L c f" and b: "binds c1 = []" "binds c = []"
  shows "sim_of L (CWhile c1 c) (loop_fixed_point f \<circ> g)"
proof (rule sim_ofI)
  show "set (binds (CWhile c1 c)) \<subseteq> L" using b by simp
  have lp: "\<exists>ds. bc_diag (loop_fixed_point f s) = bc_diag s @ ds" for s
    unfolding loop_fixed_point_def by (rule loop_rounds_diag [OF f])
  show "\<exists>ds. bc_diag ((loop_fixed_point f \<circ> g) s) = bc_diag s @ ds" for s
    unfolding comp_apply by (rule extends_between [OF sim_ofD(2) [OF g] lp])
  fix s assume r: "ready L (CWhile c1 c) s" and d: "bc_diag ((loop_fixed_point f \<circ> g) s) = bc_diag s"
  note u = unchanged_between [OF sim_ofD(2) [OF g] lp d [unfolded comp_apply]]
  have "ready L (CSeq c1 (CWhile CSkip c)) s" using r b by (auto simp: ready_def) (metis settled_mono sup_ge1)
  note n = ready_next [OF g this u [THEN conjunct1]]
  note c1 = sim_ofD(3,4) [OF g n(1) u [THEN conjunct1]]
  from loop_rounds_abs [OF f b(2) n(2) refl, where n = 16 and k = "length (bc_ledger (g s))" and l = "bc_ledger (g s)"]
  show "chk (CWhile c1 c) (abs_cx s) = Some (abs_cx ((loop_fixed_point f \<circ> g) s)) \<and>
      bc_scopes ((loop_fixed_point f \<circ> g) s) = extend_top (binds (CWhile c1 c)) (bc_scopes s)"
    using u c1 b by (auto simp: loop_fixed_point_def)
qed

text \<open>The arms of a match, without guards, are a choice.\<close>

fun choice_all :: "cmd list \<Rightarrow> cmd" where
  "choice_all [] = CSkip"
| "choice_all [c] = c"
| "choice_all (c # d # ds) = CChoice c (choice_all (d # ds))"

lemma choice_all_Cons: "cs \<noteq> [] \<Longrightarrow> choice_all (c # cs) = CChoice c (choice_all cs)"
  by (cases cs) auto

lemma join_store_assoc: "join_store (join_store A B) C = join_store A (join_store B C)"
  by (auto simp: join_store_def join_cell_def fun_eq_iff split: option.split)

lemma ready_same: "ready L c s \<Longrightarrow> bc_locals s' = bc_locals s \<Longrightarrow> bc_scopes s' \<noteq> [] \<Longrightarrow> ready L c s'"
  by (simp add: ready_def)

lemma ready_choice_all: "ready L (choice_all cs) s \<Longrightarrow> c \<in> set cs \<Longrightarrow> ready L c s"
proof (induction cs rule: choice_all.induct)
  case (3 c1 d ds)
  then show ?case by (auto simp: ready_def)
qed auto

lemma choice_all_binds: "(\<And>c. c \<in> set cs \<Longrightarrow> binds c = []) \<Longrightarrow> binds (choice_all cs) = []"
  by (induction cs rule: choice_all.induct) auto

lemma arms_diag:
  assumes "list_all2 (sim_of L) cs ws"
  shows "\<exists>ds. bc_diag (fst (foldl (arm_step m l) st ws)) = bc_diag (fst st) @ ds"
  using assms
proof (induction arbitrary: st rule: list_all2_induct)
  case (Cons c cs w ws)
  have "\<exists>ds. bc_diag (fst (arm_step m l st w)) = bc_diag (fst st) @ ds"
    using sim_ofD(2) [OF Cons(1), of "(fst st)\<lparr>bc_locals := m, bc_ledger := l\<rparr>"]
    by (simp add: arm_step_def split_beta Let_def)
  from extends_between [OF this Cons(3)] show ?case by simp
qed simp

lemma arms_fold:
  assumes "list_all2 (sim_of L) cs ws"
  shows "(\<And>c. c \<in> set cs \<Longrightarrow> binds c = [] \<and> ready L c (s\<lparr>bc_locals := m\<rparr>)) \<Longrightarrow> bc_scopes s \<noteq> [] \<Longrightarrow>
    foldl (arm_step m l) (s, Some j, jl) ws = (s', j', jl') \<Longrightarrow> bc_diag s' = bc_diag s \<Longrightarrow>
    bc_scopes s' = bc_scopes s \<and>
    (\<exists>k. j' = Some k \<and> (cs = [] \<and> abs_locals k = abs_locals j \<or>
       cs \<noteq> [] \<and> (\<exists>A2. chk (choice_all cs) (abs_locals m) = Some A2 \<and> abs_locals k = join_store (abs_locals j) A2)))"
  using assms
proof (induction cs arbitrary: ws s j jl)
  case Nil
  then show ?case by auto
next
  case (Cons c cs)
  then obtain w vs where ws: "ws = w # vs" and w: "sim_of L c w" and vs: "list_all2 (sim_of L) cs vs"
    by (auto simp: list_all2_Cons1)
  let ?s0 = "s\<lparr>bc_locals := m, bc_ledger := l\<rparr>"
  let ?s1 = "w ?s0"
  let ?j1 = "join_states j (bc_locals ?s1)"
  obtain jl1 where step: "arm_step m l (s, Some j, jl) w = (?s1, Some ?j1, jl1)" by (auto simp: arm_step_def Let_def)
  have fold: "foldl (arm_step m l) (?s1, Some ?j1, jl1) vs = (s', j', jl')"
    using Cons.prems(3) unfolding ws by (simp add: step)
  have e2: "\<exists>ds. bc_diag s' = bc_diag ?s1 @ ds" using arms_diag [OF vs, of m l "(?s1, Some ?j1, jl1)"] by (simp add: fold)
  have e1: "\<exists>ds. bc_diag ?s1 = bc_diag s @ ds" using sim_ofD(2) [OF w, of ?s0] by simp
  note u = unchanged_between [OF e1 e2 Cons.prems(4)]
  have d: "bc_diag ?s1 = bc_diag s" "bc_diag s' = bc_diag ?s1" by (rule u [THEN conjunct1], rule u [THEN conjunct2])
  have rc: "ready L c ?s0" using Cons.prems(1) [of c] Cons.prems(2) by (auto simp: ready_def)
  have bc: "binds c = []" using Cons.prems(1) [of c] by simp
  note c = sim_ofD(3,4) [OF w rc]
  have c1: "chk c (abs_locals m) = Some (abs_cx ?s1)" and sc: "bc_scopes ?s1 = bc_scopes s" using c d bc by simp_all
  have "binds c' = [] \<and> ready L c' (?s1\<lparr>bc_locals := m\<rparr>)" if "c' \<in> set cs" for c'
    using Cons.prems(1) [of c'] that Cons.prems(2) sc by (auto simp: ready_def)
  from Cons.IH [OF this _ fold d(2) vs] sc Cons.prems(2)
  have IH: "bc_scopes s' = bc_scopes s" "\<exists>k. j' = Some k \<and> (cs = [] \<and> abs_locals k = abs_locals ?j1 \<or>
       cs \<noteq> [] \<and> (\<exists>A2. chk (choice_all cs) (abs_locals m) = Some A2 \<and> abs_locals k = join_store (abs_locals ?j1) A2))"
    by auto
  then obtain k where k: "j' = Some k" "cs = [] \<and> abs_locals k = abs_locals ?j1 \<or>
       cs \<noteq> [] \<and> (\<exists>A2. chk (choice_all cs) (abs_locals m) = Some A2 \<and> abs_locals k = join_store (abs_locals ?j1) A2)"
    by blast
  then show ?case
    using IH(1) c1 by (cases "cs = []") (auto simp: choice_all_Cons abs_join join_store_assoc)
qed

lemma sim_arms:
  assumes w: "list_all2 (sim_of L) cs ws" and b: "\<And>c. c \<in> set cs \<Longrightarrow> binds c = []"
  shows "sim_of L (choice_all cs) (walk_arms ws)"
proof (rule sim_ofI)
  show "set (binds (choice_all cs)) \<subseteq> L" using choice_all_binds [OF b] by simp
  have wa: "bc_diag (walk_arms ws s) = bc_diag (fst (foldl (arm_step (bc_locals s) (bc_ledger s)) (s, None, None) ws))" for s
    by (simp add: walk_arms_def split_beta Let_def)
  show "\<exists>ds. bc_diag (walk_arms ws s) = bc_diag s @ ds" for s
    using arms_diag [OF w, of _ _ "(s, None, None)"] by (simp add: wa)
  fix s assume r: "ready L (choice_all cs) s" and d: "bc_diag (walk_arms ws s) = bc_diag s"
  show "chk (choice_all cs) (abs_cx s) = Some (abs_cx (walk_arms ws s)) \<and>
      bc_scopes (walk_arms ws s) = extend_top (binds (choice_all cs)) (bc_scopes s)"
  proof (cases cs)
    case Nil
    then show ?thesis using w by (simp add: walk_arms_def)
  next
    case (Cons c ds)
    then obtain v vs where ws: "ws = v # vs" and v: "sim_of L c v" and vs: "list_all2 (sim_of L) ds vs"
      using w by (auto simp: list_all2_Cons1)
    let ?m = "bc_locals s" and ?l = "bc_ledger s"
    let ?s1 = "v s"
    have step: "arm_step ?m ?l (s, None, None) v = (?s1, Some (bc_locals ?s1), Some (bc_ledger ?s1))"
      by (simp add: arm_step_def Let_def)
    obtain s' j' jl' where fold: "foldl (arm_step ?m ?l) (?s1, Some (bc_locals ?s1), Some (bc_ledger ?s1)) vs = (s', j', jl')"
      by (metis prod_cases3)
    have wk: "walk_arms ws s = s'\<lparr>bc_locals := (case j' of Some k \<Rightarrow> k | None \<Rightarrow> ?m), bc_ledger := (case jl' of Some k \<Rightarrow> k | None \<Rightarrow> ?l)\<rparr>"
      by (simp add: walk_arms_def ws step fold)
    have e2: "\<exists>ds. bc_diag s' = bc_diag ?s1 @ ds"
      using arms_diag [OF vs, of ?m ?l "(?s1, Some (bc_locals ?s1), Some (bc_ledger ?s1))"] by (simp add: fold)
    have "bc_diag s' = bc_diag s" using d by (simp add: wk)
    note uu = unchanged_between [OF sim_ofD(2) [OF v, of s] e2 this]
    have u: "bc_diag ?s1 = bc_diag s" "bc_diag s' = bc_diag ?s1" by (rule uu [THEN conjunct1], rule uu [THEN conjunct2])
    have rc: "ready L c' s" if "c' \<in> set cs" for c' by (rule ready_choice_all [OF r that])
    have bc: "binds c = []" using b Cons by simp
    have c1: "chk c (abs_cx s) = Some (abs_cx ?s1)" and sc: "bc_scopes ?s1 = bc_scopes s"
      using sim_ofD(3,4) [OF v rc [of c] u(1)] Cons bc by simp_all
    have ne: "bc_scopes s \<noteq> []" using r by (simp add: ready_def)
    have "binds c' = [] \<and> ready L c' (?s1\<lparr>bc_locals := ?m\<rparr>)" if "c' \<in> set ds" for c'
      using rc [of c'] b [of c'] that Cons ne sc by (auto simp: ready_def)
    from arms_fold [OF vs this _ fold u(2)] sc ne
    obtain k where k: "bc_scopes s' = bc_scopes s" "j' = Some k" "ds = [] \<and> abs_locals k = abs_cx ?s1 \<or>
        ds \<noteq> [] \<and> (\<exists>A2. chk (choice_all ds) (abs_cx s) = Some A2 \<and> abs_locals k = join_store (abs_cx ?s1) A2)"
      by auto
    have bs: "binds (choice_all cs) = []" by (rule choice_all_binds [OF b])
    show ?thesis
      using k c1 bs [unfolded Cons] unfolding wk Cons by (cases "ds = []") (auto simp: choice_all_Cons)
  qed
qed

section \<open>Operations on one local\<close>

lemma inert_push_diag: "inert (push_diag d)"
  by (simp add: inert_def push_diag_def)

lemma inert_advance: "inert (advance_point_and_record_use n)"
  by (simp add: inert_def advance_point_and_record_use_def)

lemma inert_maybe_decay: "inert (maybe_decay_after_use n)"
proof -
  have "abs_cx (maybe_decay_after_use n s) = abs_cx s \<and> bc_scopes (maybe_decay_after_use n s) = bc_scopes s" for s
    using inert_recompute_all [of "snd (decay_borrower (bc_ledger s) n)"]
    by (auto simp: maybe_decay_after_use_def inert_def split_beta Let_def split: option.split)
  then show ?thesis using kept_diag [OF kept_maybe_decay] by (simp add: inert_def)
qed

lemma inert_for_points_only: "inert (walk_for_points_only e)"
proof -
  have "abs_cx (walk_for_points_only e s) = abs_cx s \<and> bc_scopes (walk_for_points_only e s) = bc_scopes s" for s
    by (induction e s rule: walk_for_points_only.induct)
      (use inert_advance inert_maybe_decay in \<open>auto simp: inert_def\<close>)
  then show ?thesis using kept_diag [OF kept_for_points_only] by (simp add: inert_def)
qed

lemma inert_check_deref: "inert (check_deref_move E \<pi> e)"
  by (auto simp: inert_def check_deref_move_def push_diag_def split: option.split ty_data.split)

lemma sim_use: "sim_of L (CUse x) (do_use x sp)"
proof (rule sim_ofI)
  show "\<exists>ds. bc_diag (do_use x sp s) = bc_diag s @ ds" for s by (rule kept_diag [OF kept_do_use])
  fix s assume "bc_diag (do_use x sp s) = bc_diag s"
  then have "do_use x sp s = s \<and> (\<forall>ls. bc_locals s x = Some ls \<longrightarrow> holds_value (ls_state ls))"
    by (auto simp: do_use_def push_diag_def split: option.splits ownership.splits)
  then show "chk (CUse x) (abs_cx s) = Some (abs_cx (do_use x sp s)) \<and>
      bc_scopes (do_use x sp s) = extend_top (binds (CUse x)) (bc_scopes s)"
    by (auto simp: abs_locals_def split: option.split)
qed simp

lemma sim_move: "sim_of L (CMove x) (do_move x sp)"
proof (rule sim_ofI)
  show "\<exists>ds. bc_diag (do_move x sp s) = bc_diag s @ ds" for s by (rule kept_diag [OF kept_do_move])
  fix s assume d: "bc_diag (do_move x sp s) = bc_diag s"
  show "chk (CMove x) (abs_cx s) = Some (abs_cx (do_move x sp s)) \<and>
      bc_scopes (do_move x sp s) = extend_top (binds (CMove x)) (bc_scopes s)"
  proof (cases "bc_locals s x")
    case None
    then show ?thesis by (simp add: do_move_def abs_locals_def)
  next
    case (Some ls)
    have o: "ls_state ls = Owned"
      using d Some by (cases "ls_state ls") (auto simp: do_move_def push_diag_def Let_def split: if_splits)
    then have "do_move x sp s = (if ls_is_copy ls then s else set_state x ls (Moved sp) s)"
      using d Some by (auto simp: do_move_def Let_def push_diag_def set_state_def split: if_splits)
    then show ?thesis
      using Some o by (auto simp: set_state_def abs_upd abs_locals_def fun_eq_iff)
  qed
qed simp

lemma try_place_borrow_abs:
  assumes "bc_diag (try_place_borrow p k sp s) = bc_diag s" "root p = x"
  shows "chk (CUse x) (abs_cx s) = Some (abs_cx (try_place_borrow p k sp s))"
    "bc_scopes (try_place_borrow p k sp s) = bc_scopes s"
proof -
  have rb: "abs_cx (record_borrow p k sp t) = abs_cx t \<and> bc_scopes (record_borrow p k sp t) = bc_scopes t" for t
    by (auto simp: record_borrow_def Let_def set_state_def abs_upd_same
        split: option.split ownership.split borrow_kind.split)
  show "bc_scopes (try_place_borrow p k sp s) = bc_scopes s"
    using kept_try_place_borrow [of s p k sp] by (simp add: keeps_def)
  have "holds_value (ls_state ls)" if "bc_locals s x = Some ls" for ls
    using assms that by (auto simp: try_place_borrow_def Let_def push_diag_def split: ownership.splits if_splits)
  then have "chk (CUse x) (abs_cx s) = Some (abs_cx s)" by (auto simp: abs_locals_def split: option.split)
  moreover have "abs_cx (try_place_borrow p k sp s) = abs_cx s"
    using rb by (auto simp: try_place_borrow_def Let_def push_diag_def split: option.split ownership.split)
  ultimately show "chk (CUse x) (abs_cx s) = Some (abs_cx (try_place_borrow p k sp s))" by simp
qed

lemma sim_place_borrow: "root p = x \<Longrightarrow> sim_of L (CUse x) (try_place_borrow p k sp)"
  by (rule sim_ofI) (simp_all add: try_place_borrow_abs kept_diag [OF kept_try_place_borrow] del: chk.simps)

lemma sim_if: "sim_of L c f \<Longrightarrow> sim_of L c g \<Longrightarrow> sim_of L c (\<lambda>s. if P s then f s else g s)"
  by (simp add: sim_of_def)

lemma sim_borrow: "sim_of L (CUse x) (do_borrow_shared E x sp)" "sim_of L (CUse x) (do_borrow_mut E x sp)"
  unfolding do_borrow_shared_def do_borrow_mut_def
  by (rule sim_if [OF sim_use sim_place_borrow]; simp add: Place_root_def)+

section \<open>Paths\<close>

lemma sim_cong: "sim_of L c f \<Longrightarrow> (\<And>s. f s = g s) \<Longrightarrow> sim_of L c g"
  by (metis ext)

lemma sim_point:
  assumes "sim_of L c f"
  shows "sim_of L c (\<lambda>s. maybe_decay_after_use n (f (advance_point_and_record_use n s)))"
  by (rule sim_cong [OF sim_inert_after [OF sim_inert_before [OF inert_advance assms] inert_maybe_decay]]) simp

lemma sim_path:
  assumes "pos \<noteq> PAssignTarget \<or> length segs \<noteq> 1"
  shows "sim_of L (avail_path segs pos) (\<lambda>s. fst (walk_path E segs pos s))"
proof (cases segs)
  case Nil
  then show ?thesis by (simp add: walk_path_def avail_path_def sim_skip)
next
  case (Cons x rest)
  define act where "act = (\<lambda>s. if rest = [] \<and> bc_locals s x \<noteq> None
      then (case plain pos of
              PMove \<Rightarrow> do_move x zero_span s
            | PBorrowShared \<Rightarrow> do_borrow_shared E x zero_span s
            | PBorrowMut \<Rightarrow> do_borrow_mut E x zero_span s
            | PAssignTarget \<Rightarrow> do_assign x zero_span s
            | _ \<Rightarrow> do_use x zero_span s)
      else (case bc_locals s x of
              None \<Rightarrow> s
            | Some ls \<Rightarrow>
                (case plain pos of
                   PMove \<Rightarrow> do_move x zero_span s
                 | PAssignTarget \<Rightarrow> if \<not> ls_mutable ls then push_diag (assign_to_immut_local x zero_span) s else s
                 | _ \<Rightarrow> do_use x zero_span s)))"
  have w: "fst (walk_path E segs pos s) = maybe_decay_after_use x (act (advance_point_and_record_use x s))" for s
    by (auto simp: walk_path_def Cons act_def Let_def)
  have none: "do_use x zero_span s = s" "do_move x zero_span s = s" if "bc_locals s x = None" for s
    using that by (simp_all add: do_use_def do_move_def)
  have "sim_of L (avail_path segs pos) act"
  proof (cases "plain pos")
    case PMove
    then show ?thesis unfolding act_def Cons avail_path_def
      by (simp, intro sim_cong [OF sim_move]) (auto simp: none split: option.split)
  next
    case PUse
    then show ?thesis unfolding act_def Cons avail_path_def
      by (simp, intro sim_cong [OF sim_use]) (auto simp: none split: option.split)
  next
    case PBorrowShared
    then show ?thesis unfolding act_def Cons avail_path_def
      by (simp, intro sim_cong [OF sim_if [OF sim_borrow(1) sim_use, where P = "\<lambda>s. rest = [] \<and> bc_locals s x \<noteq> None"]])
         (auto simp: none split: option.split)
  next
    case PBorrowMut
    then show ?thesis unfolding act_def Cons avail_path_def
      by (simp, intro sim_cong [OF sim_if [OF sim_borrow(2) sim_use, where P = "\<lambda>s. rest = [] \<and> bc_locals s x \<noteq> None"]])
         (auto simp: none split: option.split)
  next
    case PAssignTarget
    then have "pos = PAssignTarget" by (cases pos) auto
    then have "rest \<noteq> []" using assms Cons by auto
    then show ?thesis unfolding act_def Cons avail_path_def PAssignTarget
      by (simp, intro sim_inert) (auto simp: inert_def push_diag_def split: option.split)
  next
    case ArenaBody
    then show ?thesis by (metis plain_ne)
  qed
  from sim_point [OF this, of x] show ?thesis by (rule sim_cong) (simp add: w)
qed

text \<open>A generic path is checked only as a single name that is read; elsewhere its root must not be a local.\<close>

definition generic_ok :: "string set \<Rightarrow> string list \<Rightarrow> position \<Rightarrow> bool" where
  "generic_ok L segs pos \<longleftrightarrow> segs = [] \<or> hd segs \<notin> L \<or> (tl segs = [] \<and> plain pos = PUse)"

lemma sim_unbound:
  assumes "x \<notin> L" "inert f" "binds c = []" "\<And>A. A x = None \<Longrightarrow> chk c A = Some A"
  shows "sim_of L c f"
proof (rule sim_ofI)
  show "set (binds c) \<subseteq> L" using assms by simp
  show "\<exists>ds. bc_diag (f s) = bc_diag s @ ds" for s using assms by (simp add: inert_def)
  fix s assume "ready L c s"
  then have "x \<notin> dom (bc_locals s)" using assms(1) by (auto simp: ready_def)
  then have "abs_cx s x = None" by (simp add: abs_locals_def domIff)
  then show "chk c (abs_cx s) = Some (abs_cx (f s)) \<and> bc_scopes (f s) = extend_top (binds c) (bc_scopes s)"
    using assms by (simp add: inert_def)
qed

lemma sim_path_generic:
  assumes "generic_ok L segs pos"
  shows "sim_of L (avail_path segs pos) (\<lambda>s. fst (walk_path_generic segs pos s))"
proof (cases segs)
  case Nil
  then show ?thesis by (simp add: walk_path_generic_def avail_path_def sim_skip)
next
  case (Cons x rest)
  define act where "act = (\<lambda>s. if rest = [] \<and> bc_locals s x \<noteq> None then (if plain pos = PUse then do_use x zero_span s else s) else s)"
  have w: "fst (walk_path_generic segs pos s) = maybe_decay_after_use x (act (advance_point_and_record_use x s))" for s
    by (auto simp: walk_path_generic_def Cons act_def Let_def)
  have none: "do_use x zero_span s = s" if "bc_locals s x = None" for s
    using that by (simp_all add: do_use_def)
  have "sim_of L (avail_path segs pos) act"
  proof (cases "x \<in> L")
    case True
    then have r: "rest = []" "plain pos = PUse" using assms Cons by (auto simp: generic_ok_def)
    then show ?thesis unfolding act_def Cons avail_path_def
      by (simp, intro sim_cong [OF sim_use]) (auto simp: none)
  next
    case False
    have "inert (do_use x zero_span)" by (auto simp: inert_def do_use_def push_diag_def split: option.split ownership.split)
    then have "inert act" by (auto simp: act_def inert_def)
    then show ?thesis by (rule sim_unbound [OF False]) (auto simp: Cons avail_path_def split: position.split)
  qed
  from sim_point [OF this, of x] show ?thesis by (rule sim_cong) (simp add: w)
qed

section \<open>Bindings\<close>

definition bind_all :: "flow_env \<Rightarrow> bool \<Rightarrow> ownership \<Rightarrow> (string \<times> ty_id) list \<Rightarrow> borrow_cx \<Rightarrow> borrow_cx" where
  "bind_all E m o' bs = seq_all (map (\<lambda>(n, t). bind_local_with_state E n t zero_span m o') bs)"

lemma bind_all_simps:
  "bind_all E m o' [] = id" "bind_all E m o' (b # bs) = bind_all E m o' bs \<circ> bind_local_with_state E (fst b) (snd b) zero_span m o'"
  "bind_all E m o' (bs @ cs) = bind_all E m o' cs \<circ> bind_all E m o' bs"
  by (auto simp: bind_all_def seq_all_def fun_eq_iff split_beta)

lemma bind_all_concat: "bind_all E m o' (concat bss) = seq_all (map (bind_all E m o') bss)"
proof (induction bss)
  case (Cons bs bss)
  then show ?case by (simp add: bind_all_simps seq_all_def fun_eq_iff)
qed (simp add: bind_all_simps seq_all_def fun_eq_iff)

lemma bind_pattern_is_bind_all: "bind_pattern_inner_mut p E t m o' = bind_all E m o' (pat_binds p E t)"
proof (induction p arbitrary: t)
  case (PBinding n sub)
  then show ?case by (cases sub) (auto simp: bind_all_simps seq_opt_def fun_eq_iff)
next
  case (PTuple xs)
  define g where "g = (\<lambda>i. case vec_get (case arena_get (fe_arena E) t of TTuple ps \<Rightarrow> ps | _ \<Rightarrow> replicate (length xs) unit_id) i
      of Some c \<Rightarrow> c | None \<Rightarrow> unit_id)"
  have "map (\<lambda>(i, f). f E (g i) m o') (enumerate 0 (map bind_pattern_inner_mut xs)) =
      map (bind_all E m o') (map (\<lambda>(i, f). f E (g i)) (enumerate 0 (map pat_binds xs)))"
    by (rule nth_equalityI) (simp_all add: nth_enumerate_eq PTuple)
  then show ?case by (simp add: Let_def bind_all_concat g_def)
next
  case (PStruct p fs)
  have "(case map_option bind_pattern_inner_mut sub of Some f \<Rightarrow> f E unit_id m o'
        | None \<Rightarrow> bind_local_with_state E n unit_id zero_span m o') =
      bind_all E m o' (case map_option pat_binds sub of Some f \<Rightarrow> f E unit_id | None \<Rightarrow> [(n, unit_id)])"
    if "(n, sub) \<in> set fs" for n sub
    using PStruct [of "(n, sub)" sub] that by (cases sub) (auto simp: bind_all_simps)
  then show ?case by (auto simp: bind_all_concat comp_def split_beta intro!: arg_cong [where f = seq_all] map_cong)
next
  case (PEnum p args)
  then show ?case by (auto simp: bind_all_concat comp_def intro!: arg_cong [where f = seq_all])
qed (simp_all add: bind_all_simps)

lemma sim_bind_local:
  assumes "n \<in> L"
  shows "sim_of L (CBind n (is_copy t (fe_arena E) (fe_defs E)) (holds_value o')) (bind_local_with_state E n t sp m o')"
proof (rule sim_ofI)
  show "set (binds (CBind n (is_copy t (fe_arena E) (fe_defs E)) (holds_value o'))) \<subseteq> L" using assms by simp
  show "\<exists>ds. bc_diag (bind_local_with_state E n t sp m o' s) = bc_diag s @ ds" for s
    by (simp add: bind_local_with_state_def Let_def split: list.split)
  fix s :: borrow_cx
  show "chk (CBind n (is_copy t (fe_arena E) (fe_defs E)) (holds_value o')) (abs_cx s) =
      Some (abs_cx (bind_local_with_state E n t sp m o' s)) \<and>
    bc_scopes (bind_local_with_state E n t sp m o' s) =
      extend_top (binds (CBind n (is_copy t (fe_arena E) (fe_defs E)) (holds_value o'))) (bc_scopes s)"
    by (cases "bc_scopes s") (auto simp: bind_local_with_state_def Let_def abs_locals_def fun_eq_iff)
qed

lemma sim_bind_all:
  assumes "fst ` set bs \<subseteq> L" "holds_value o' = init"
  shows "sim_of L (avail_binds E bs init) (bind_all E m o' bs)"
  unfolding avail_binds_def bind_all_def
proof (rule sim_cseq, rule list_all2I)
  have "sim_of L (CBind n (is_copy t (fe_arena E) (fe_defs E)) init) (bind_local_with_state E n t zero_span m o')"
    if "(n, t) \<in> set bs" for n t
    using sim_bind_local [of n L t E o' zero_span m] assms that by force
  then show "\<forall>(c, f)\<in>set (zip (map (\<lambda>(n, t). CBind n (is_copy t (fe_arena E) (fe_defs E)) init) bs)
        (map (\<lambda>(n, t). bind_local_with_state E n t zero_span m o') bs)). sim_of L c f"
    by (auto simp: zip_map1 zip_map2 zip_same)
qed simp

lemma sim_bind_pattern:
  assumes "fst ` set (pat_binds (fe_pats E p) E t) \<subseteq> L"
  shows "sim_of L (avail_pat E p t True) (bind_pattern E p t)"
    "holds_value o' = init \<Longrightarrow> sim_of L (avail_pat E p t init) (bind_pattern_mut_with_state E p t m o')"
  using sim_bind_all [OF assms]
  by (simp_all add: avail_pat_def bind_pattern_def bind_pattern_mut_with_state_def bind_pattern_is_bind_all)

section \<open>Lists of walks\<close>

lemma sim_go_list:
  assumes "\<And>x \<pi>. x \<in> set xs \<Longrightarrow> sim_of L (av x E \<pi> pos) (go (wk x) E \<pi> pos)"
  shows "sim_of L (avail_list (map av xs) E \<pi> k pos) (go_list (map wk xs) E \<pi> k pos)"
  unfolding avail_list_def go_list_def
  by (rule sim_cseq) (use assms in \<open>auto simp: list_all2_conv_all_nth nth_enumerate_eq\<close>)

lemma sim_call_args:
  assumes "\<And>x \<pi> pos. x \<in> set xs \<Longrightarrow> pos \<in> {PUse, PBorrowShared, PBorrowMut} \<Longrightarrow> sim_of L (av x E \<pi> pos) (go (wk x) E \<pi> pos)"
  shows "sim_of L (cseq (map (\<lambda>(i, w). w E (Suc i # \<pi>) (arg_position E (param_tys E (0 # \<pi>)) i)) (enumerate 0 (map av xs))))
    (call_args (map wk xs) E \<pi>)"
proof -
  have "arg_position E ps i \<in> {PUse, PBorrowShared, PBorrowMut}" for ps i
    by (auto simp: arg_position_def split: option.split ty_data.split bool.split)
  then show ?thesis unfolding call_args_def
    by (intro sim_cseq) (use assms in \<open>auto simp: list_all2_conv_all_nth nth_enumerate_eq\<close>)
qed

lemma sim_message_arg:
  assumes "sim_of L c (go w E \<pi> PMove)"
  shows "sim_of L c (message_arg w E \<pi>)"
proof -
  define post where "post = (\<lambda>n s1. case fe_expr_ty E \<pi> of
       Some t \<Rightarrow> if \<not> is_sendable t (fe_arena E) (fe_defs E)
         then push_diag (non_sendable_message_arg (case n of Some n \<Rightarrow> n | None \<Rightarrow> ''<arg>'') zero_span) s1 else s1
     | None \<Rightarrow> s1)"
  have m: "message_arg w E \<pi> s = post (snd (w E \<pi> PMove s)) (go w E \<pi> PMove s)" for s
    by (simp add: message_arg_def post_def go_def split_beta)
  have i: "abs_cx (post n s) = abs_cx s" "bc_scopes (post n s) = bc_scopes s" "\<exists>ds. bc_diag (post n s) = bc_diag s @ ds" for n s
    by (auto simp: post_def push_diag_def split: option.split)
  show ?thesis
  proof (rule sim_ofI)
    show "set (binds c) \<subseteq> L" by (rule sim_ofD(1) [OF assms])
    show "\<exists>ds. bc_diag (message_arg w E \<pi> s) = bc_diag s @ ds" for s
      unfolding m by (rule extends_between [OF sim_ofD(2) [OF assms] i(3)])
    fix s assume r: "ready L c s" and d: "bc_diag (message_arg w E \<pi> s) = bc_diag s"
    have "bc_diag (go w E \<pi> PMove s) = bc_diag s"
      using unchanged_between [OF sim_ofD(2) [OF assms] i(3) d [unfolded m]] by simp
    from sim_ofD(3,4) [OF assms r this] show "chk c (abs_cx s) = Some (abs_cx (message_arg w E \<pi> s)) \<and>
      bc_scopes (message_arg w E \<pi> s) = extend_top (binds c) (bc_scopes s)" by (simp add: m i)
  qed
qed

lemma sim_with_pending:
  assumes "sim_of L c f"
  shows "sim_of L c (with_pending n f)"
proof (rule sim_ofI)
  show "set (binds c) \<subseteq> L" by (rule sim_ofD(1) [OF assms])
  show "\<exists>ds. bc_diag (with_pending n f s) = bc_diag s @ ds" for s
    using sim_ofD(2) [OF assms, of "s\<lparr>bc_pending := n\<rparr>"] by (simp add: with_pending_def)
  fix s assume "ready L c s" "bc_diag (with_pending n f s) = bc_diag s"
  then show "chk c (abs_cx s) = Some (abs_cx (with_pending n f s)) \<and>
      bc_scopes (with_pending n f s) = extend_top (binds c) (bc_scopes s)"
    using sim_ofD(3,4) [OF assms, of "s\<lparr>bc_pending := n\<rparr>"] by (simp add: with_pending_def ready_def)
qed

section \<open>Assignments and borrows\<close>

lemma assign_abs:
  "abs_cx (fst (walk_path E [x] PAssignTarget s)) = fill x (abs_cx s)"
  "bc_scopes (fst (walk_path E [x] PAssignTarget s)) = bc_scopes s"
proof -
  let ?s1 = "advance_point_and_record_use x s"
  let ?s2 = "if bc_locals s x = None then ?s1 else do_assign x zero_span ?s1"
  have w: "fst (walk_path E [x] PAssignTarget s) = maybe_decay_after_use x ?s2"
    by (auto simp: walk_path_def Let_def advance_point_and_record_use_def)
  have "abs_cx ?s2 = fill x (abs_cx s)"
    by (auto simp: do_assign_def set_state_def push_diag_def advance_point_and_record_use_def abs_upd fill_def
        abs_locals_def fun_eq_iff split: option.split)
  then show "abs_cx (fst (walk_path E [x] PAssignTarget s)) = fill x (abs_cx s)"
    using inert_maybe_decay [of x] unfolding w inert_def by simp
  show "bc_scopes (fst (walk_path E [x] PAssignTarget s)) = bc_scopes s"
    using kept_walk_path [of s E "[x]" PAssignTarget] by (simp add: keeps_def)
qed

lemma sim_store:
  assumes g: "sim_of L c g"
  shows "sim_of L (CStore x c) (g \<circ> (\<lambda>s. fst (walk_path E [x] PAssignTarget s)))"
    "sim_of L (CStore x (CSeq c (CUse x))) (g \<circ> (\<lambda>s. fst (walk_path E [x] PAssignTarget s)))"
proof -
  let ?f = "\<lambda>s. fst (walk_path E [x] PAssignTarget s)"
  have fd: "\<exists>ds. bc_diag (?f s) = bc_diag s @ ds" for s by (rule kept_diag [OF kept_walk_path])
  have gd: "\<exists>ds. bc_diag ((g \<circ> ?f) s) = bc_diag s @ ds" for s
    unfolding comp_apply by (rule extends_between [OF fd sim_ofD(2) [OF g]])
  have main: "chk c (fill x (abs_cx s)) = Some (abs_cx (g (?f s))) \<and> bc_scopes (g (?f s)) = extend_top (binds c) (bc_scopes s)"
    if r: "ready L (CStore x c) s" and d: "bc_diag (g (?f s)) = bc_diag s" for s
  proof -
    have "bc_diag (g (?f s)) = bc_diag (?f s)" using unchanged_between [OF fd sim_ofD(2) [OF g] d] by simp
    moreover have dm: "dom (bc_locals (?f s)) = dom (bc_locals s)" using assign_abs(1) [of E x s] by (metis dom_abs fill_simps(1))
    have "ready L c (?f s)"
      using r stable_fill unfolding ready_def dm assign_abs by auto
    ultimately show ?thesis using sim_ofD(3,4) [OF g, of "?f s"] by (simp add: assign_abs)
  qed
  show "sim_of L (CStore x c) (g \<circ> ?f)"
    by (rule sim_ofI) (use sim_ofD(1) [OF g] gd main in auto)
  show "sim_of L (CStore x (CSeq c (CUse x))) (g \<circ> ?f)"
  proof (rule sim_ofI)
    show "set (binds (CStore x (CSeq c (CUse x)))) \<subseteq> L" using sim_ofD(1) [OF g] by simp
    show "\<exists>ds. bc_diag ((g \<circ> ?f) s) = bc_diag s @ ds" for s by (rule gd)
    fix s assume r: "ready L (CStore x (CSeq c (CUse x))) s" and d: "bc_diag ((g \<circ> ?f) s) = bc_diag s"
    then obtain K where K: "x \<in> K" "settled K c" "stable K (abs_cx s)" by (auto simp: ready_def)
    have ns: "noshadow (dom (fill x (abs_cx s))) c" using r by (simp add: ready_def)
    have "ready L (CStore x c) s" using r K by (auto simp: ready_def)
    note m = main [OF this d [unfolded comp_apply]]
    have "stable K (abs_cx (g (?f s)))"
      using chk_stable [OF m [THEN conjunct1] ns stable_fill [OF K(3)]] by (simp add: stable_def)
    then have "abs_cx (g (?f s)) x = Some (True, True)" using K(1) by (simp add: stable_def)
    then show "chk (CStore x (CSeq c (CUse x))) (abs_cx s) = Some (abs_cx ((g \<circ> ?f) s)) \<and>
        bc_scopes ((g \<circ> ?f) s) = extend_top (binds (CStore x (CSeq c (CUse x)))) (bc_scopes s)"
      using m by simp
  qed
qed

lemma sim_skip_seq: "sim_of L (CSeq CSkip c) f \<Longrightarrow> sim_of L c f"
  by (auto simp: sim_of_def ready_def)

text \<open>Two parts that neither move nor store may be checked in either order.\<close>

fun quiet :: "cmd \<Rightarrow> bool" where
  "quiet (CMove x) = False"
| "quiet (CStore x c) = False"
| "quiet (CSeq c1 c2) \<longleftrightarrow> quiet c1 \<and> quiet c2"
| "quiet (CChoice c1 c2) \<longleftrightarrow> quiet c1 \<and> quiet c2"
| "quiet (CWhile c b) \<longleftrightarrow> quiet c \<and> quiet b"
| "quiet (CScope c) = quiet c"
| "quiet _ = True"

lemma quiet_chk: "quiet c \<Longrightarrow> noshadow (dom A) c \<Longrightarrow> chk c A = Some A' \<Longrightarrow> x \<in> dom A \<Longrightarrow> A' x = A x"
proof (induction c arbitrary: A A')
  case (CBind y c a)
  then have "x \<noteq> y" "A' = A(y \<mapsto> (c, a))" by auto
  then show ?case by simp
next
  case (CSeq c1 c2)
  then obtain A1 where c1: "chk c1 A = Some A1" and c2: "chk c2 A1 = Some A'" by (auto simp: bind_eq_Some_conv)
  have ns: "noshadow (dom A) c1" using CSeq.prems by simp
  have d: "dom A1 = dom A \<union> set (binds c1)" using chk_shape [OF c1 ns] by simp
  show ?case using CSeq.IH(1) [OF _ ns c1] CSeq.IH(2) [OF _ _ c2] CSeq.prems d by simp
next
  case (CChoice c1 c2)
  then obtain A1 A2 where c: "chk c1 A = Some A1" "chk c2 A = Some A2" and j: "A' = join_store A1 A2"
    by (auto simp: bind_eq_Some_conv)
  have "A1 x = A x" "A2 x = A x" using CChoice.IH(1) [OF _ _ c(1)] CChoice.IH(2) [OF _ _ c(2)] CChoice.prems by auto
  then show ?case by (auto simp: j join_store_def join_cell_def split: option.split)
next
  case (CWhile c b)
  then show ?case by (auto simp: bind_eq_Some_conv)
next
  case (CScope c)
  then obtain A1 where c: "chk c A = Some A1" "A' = A1 |` dom A" by auto
  have "A1 x = A x" by (rule CScope.IH [OF _ _ c(1) CScope.prems(4)]) (use CScope.prems in auto)
  then show ?case using CScope.prems(4) by (simp add: c(2) restrict_in)
qed (auto split: option.splits bool.splits)

lemma quiet_chk_same:
  assumes "quiet c" "noshadow (dom A) c" "chk c A = Some A'" "binds c = []"
  shows "A' = A"
proof
  fix x
  have "dom A' = dom A" using chk_shape [OF assms(3,2)] assms(4) by simp
  then show "A' x = A x" using quiet_chk [OF assms(1-3)] by (cases "x \<in> dom A") (auto, metis domIff)
qed

lemma sim_swap:
  assumes f: "sim_of L c1 f" and g: "sim_of L c2 g" and q: "quiet c1" "quiet c2" and b: "binds c1 = []" "binds c2 = []"
  shows "sim_of L (CSeq c2 c1) (g \<circ> f)"
proof (rule sim_ofI)
  show "set (binds (CSeq c2 c1)) \<subseteq> L" using b by simp
  show "\<exists>ds. bc_diag ((g \<circ> f) s) = bc_diag s @ ds" for s
    unfolding comp_apply by (rule extends_between [OF sim_ofD(2) [OF f] sim_ofD(2) [OF g]])
  fix s assume r: "ready L (CSeq c2 c1) s" and d: "bc_diag ((g \<circ> f) s) = bc_diag s"
  note u = unchanged_between [OF sim_ofD(2) [OF f] sim_ofD(2) [OF g] d [unfolded comp_apply]]
  have so: "solid c2 = {}" using b(2) by (induction c2) auto
  have r1: "ready L c1 s" using r b so by (auto simp: ready_def)
  note c1 = sim_ofD(3,4) [OF f r1 u [THEN conjunct1]]
  have ns: "noshadow (dom (abs_cx s)) c1" "noshadow (dom (abs_cx s)) c2" using r b by (simp_all add: ready_def)
  have e1: "abs_cx (f s) = abs_cx s" by (rule quiet_chk_same [OF q(1) ns(1) c1(1) b(1)])
  have "dom (bc_locals (f s)) = dom (bc_locals s)" using e1 by (metis dom_abs)
  then have r2: "ready L c2 (f s)" using r c1(2) e1 b by (auto simp: ready_def)
  note c2 = sim_ofD(3,4) [OF g r2 u [THEN conjunct2], unfolded e1]
  have "abs_cx (g (f s)) = abs_cx s" by (rule quiet_chk_same [OF q(2) ns(2) c2(1) b(2)])
  then show "chk (CSeq c2 c1) (abs_cx s) = Some (abs_cx ((g \<circ> f) s)) \<and>
      bc_scopes ((g \<circ> f) s) = extend_top (binds (CSeq c2 c1)) (bc_scopes s)"
    using c1 c2 e1 b by simp
qed

text \<open>Borrowed places whose indices are literals.\<close>

fun plain_place :: "expr \<Rightarrow> bool" where
  "plain_place (EField r n) = plain_place r"
| "plain_place (EUnary p r) = plain_place r"
| "plain_place (EIndex r i) \<longleftrightarrow> plain_place r \<and> (case i of ELiteral _ \<Rightarrow> True | _ \<Rightarrow> False)"
| "plain_place e = True"

lemma place_avail:
  "expr_as_place s e = Some p \<Longrightarrow> plain_place e \<Longrightarrow> pos \<notin> {PMove, PAssignTarget} \<Longrightarrow>
   chk (avail_expr e E \<pi> pos) A = chk (CUse (root p)) A"
proof (induction s e arbitrary: p \<pi> pos rule: expr_as_place.induct)
  case (1 s segs)
  then show ?case
    by (cases pos) (auto simp: segs_to_place_def avail_path_def truncate_for_v0_3_simps Place_root_def split: list.splits if_splits)
next
  case (2 s segs gs)
  then show ?case
    by (cases pos) (auto simp: segs_to_place_def avail_path_def truncate_for_v0_3_simps Place_root_def split: list.splits if_splits)
next
  case (3 s r n)
  then obtain q where q: "expr_as_place s r = Some q" "p = truncate_for_v0_3 (with_field q n)" by auto
  moreover have "move_pos pos = PUse" using 3(4) by (cases pos) (auto simp: move_pos_def)
  ultimately show ?case using 3(1) [OF q(1)] 3(3) by (simp add: truncate_for_v0_3_simps with_field_def del: chk.simps)
next
  case (4 s r)
  then obtain q where q: "expr_as_place s r = Some q" "p = truncate_for_v0_3 (with_deref q)" by auto
  then show ?case using 4(1) [OF q(1)] 4(3) by (simp add: truncate_for_v0_3_simps with_deref_def del: chk.simps)
next
  case (5 s r i)
  then obtain q where q: "expr_as_place s r = Some q" "p = truncate_for_v0_3 (with_index q)" by auto
  have "move_pos pos = PUse" using 5(4) by (cases pos) (auto simp: move_pos_def)
  moreover obtain l where "i = ELiteral l" using 5(3) by (cases i) auto
  moreover have "chk (avail_expr r E (0 # \<pi>) PUse) A = chk (CUse (root q)) A" using 5(1) [OF q(1), of PUse] 5(3) by simp
  moreover have "root p = root q" by (simp add: q(2) truncate_for_v0_3_simps with_index_def)
  ultimately show ?case by (cases "chk (CUse (root q)) A") (simp_all del: chk.simps(1))
qed auto

lemma sim_borrow_expr:
  assumes i: "sim_of L c f" and c: "\<And>s p A. expr_as_place s inner = Some p \<Longrightarrow> chk c A = chk (CUse (root p)) A"
    and b: "binds c = []"
  shows "sim_of L c (\<lambda>s. case expr_as_place s inner of
      Some p \<Rightarrow> walk_for_points_only inner (try_place_borrow p k zero_span s) | None \<Rightarrow> f s)"
proof (rule sim_ofI)
  let ?w = "\<lambda>s. case expr_as_place s inner of
      Some p \<Rightarrow> walk_for_points_only inner (try_place_borrow p k zero_span s) | None \<Rightarrow> f s"
  have pd: "\<exists>ds. bc_diag (walk_for_points_only inner (try_place_borrow p k zero_span s)) = bc_diag s @ ds" for p s
    by (rule kept_diag [OF kept_trans [OF kept_try_place_borrow kept_for_points_only]])
  show "set (binds c) \<subseteq> L" using b by simp
  show "\<exists>ds. bc_diag (?w s) = bc_diag s @ ds" for s
    using pd sim_ofD(2) [OF i] by (auto split: option.split)
  fix s assume r: "ready L c s" and d: "bc_diag (?w s) = bc_diag s"
  show "chk c (abs_cx s) = Some (abs_cx (?w s)) \<and> bc_scopes (?w s) = extend_top (binds c) (bc_scopes s)"
  proof (cases "expr_as_place s inner")
    case None
    then show ?thesis using sim_ofD(3,4) [OF i r] d by simp
  next
    case (Some p)
    let ?t = "try_place_borrow p k zero_span s"
    have "bc_diag ?t = bc_diag s"
      using unchanged_between [OF kept_diag [OF kept_try_place_borrow] kept_diag [OF kept_for_points_only]] d Some by simp
    from try_place_borrow_abs [OF this refl] show ?thesis
      using inert_for_points_only [of inner] c [OF Some] b Some by (simp add: inert_def del: chk.simps)
  qed
qed

section \<open>The fragment\<close>

text \<open>Expressions that only read: their parts may be evaluated in any order.\<close>

lemma arg_value_size: "size (arg_value a) < size a"
  by (cases a) simp

lemma arg_size [termination_simp]: "a \<in> set as \<Longrightarrow> size (arg_value a) < Suc (size_list size as + n)"
proof (induction as)
  case (Cons b bs)
  then show ?case using arg_value_size [of b] by auto
qed simp

fun reads_only :: "expr \<Rightarrow> bool" where
  "reads_only (ELiteral l) = True"
| "reads_only (EPath segs) = True"
| "reads_only (EField r n) = reads_only r"
| "reads_only (EIndex r i) \<longleftrightarrow> reads_only r \<and> reads_only i"
| "reads_only (EUnary op r) = reads_only r"
| "reads_only (ECast l t) = reads_only l"
| "reads_only (EBinary op l r) \<longleftrightarrow> \<not> is_assign op \<and> reads_only l \<and> reads_only r"
| "reads_only (ECall c args) \<longleftrightarrow> reads_only c \<and> list_all (\<lambda>a. reads_only (arg_value a)) args"
| "reads_only (EMethodCall r m args) \<longleftrightarrow> reads_only r \<and> list_all (\<lambda>a. reads_only (arg_value a)) args"
| "reads_only (ETuple xs) = list_all reads_only xs"
| "reads_only (EArray xs) = list_all reads_only xs"
| "reads_only _ = False"

text \<open>
  The expressions on which the walker is compared with the semantics, for a set \<open>L\<close> of names that
  contains all locals. Left out: closures, guards, the duration of a task scope, moves out of a
  field or an element, computed indices in a borrowed place, a compound assignment through a dotted
  path, an assignment to another place than a path where one side does more than read, and generic
  paths to locals other than a plain read.
\<close>

type_synonym frag_fn = "string set \<Rightarrow> flow_env \<Rightarrow> position \<Rightarrow> bool"

definition pat_in :: "string set \<Rightarrow> flow_env \<Rightarrow> pat_id \<Rightarrow> bool" where
  "pat_in L E p \<longleftrightarrow> fst ` set (pat_binds (fe_pats E p) E unit_id) \<subseteq> L"

primrec in_frag :: "expr \<Rightarrow> frag_fn"
  and body_in_frag :: "block \<Rightarrow> string set \<Rightarrow> flow_env \<Rightarrow> bool"
  and stmt_in_frag :: "stmt \<Rightarrow> string set \<Rightarrow> flow_env \<Rightarrow> bool"
  and arg_in_frag :: "arg \<Rightarrow> frag_fn"
  and arm_in_frag :: "match_arm \<Rightarrow> string set \<Rightarrow> flow_env \<Rightarrow> bool" where
  "in_frag (EPath segs) = (\<lambda>L E pos. True)"
| "in_frag (EPathGeneric segs gs) = (\<lambda>L E pos. generic_ok L segs pos)"
| "in_frag (ELiteral l) = (\<lambda>L E pos. True)"
| "in_frag (EBlock b) = (\<lambda>L E pos. body_in_frag b L E)"
| "in_frag (ETuple xs) = (\<lambda>L E pos. list_all (\<lambda>w. w L E PUse) (map in_frag xs))"
| "in_frag (EArray xs) = (\<lambda>L E pos. list_all (\<lambda>w. w L E PUse) (map in_frag xs))"
| "in_frag (EBinary op l r) = (\<lambda>L E pos. in_frag r L E PUse \<and>
     (if \<not> is_assign op then in_frag l L E PUse
      else case path_segs l of
        Some segs \<Rightarrow> length segs = 1 \<or> op = BAssign \<and> segs \<noteq> []
      | None \<Rightarrow> in_frag l L E PAssignTarget \<and> reads_only l \<and> reads_only r))"
| "in_frag (EUnary op r) = (\<lambda>L E pos. in_frag r L E PUse)"
| "in_frag (EBorrow m i) = (\<lambda>L E pos. in_frag i L E (if m then PBorrowMut else PBorrowShared) \<and> plain_place i)"
| "in_frag (EMove i) = (\<lambda>L E pos. in_frag i L E PMove)"
| "in_frag (ECall c args) = (\<lambda>L E pos. in_frag c L E PUse \<and>
     list_all (\<lambda>w. w L E PUse \<and> w L E PBorrowShared \<and> w L E PBorrowMut) (map arg_in_frag args))"
| "in_frag (EMethodCall r m args) = (\<lambda>L E pos. in_frag r L E PBorrowShared \<and> list_all (\<lambda>w. w L E PUse) (map arg_in_frag args))"
| "in_frag (EField r n) = (\<lambda>L E pos. in_frag r L E PUse \<and> plain pos \<noteq> PMove)"
| "in_frag (EIndex r i) = (\<lambda>L E pos. in_frag r L E PUse \<and> in_frag i L E PUse \<and> plain pos \<noteq> PMove)"
| "in_frag (EIf c t e) = (\<lambda>L E pos. in_frag c L E PUse \<and> body_in_frag t L E \<and>
     pred_option (\<lambda>w. w L E PUse) (map_option in_frag e))"
| "in_frag (EIfLet p c t e) = (\<lambda>L E pos. in_frag c L E PUse \<and> body_in_frag t L E \<and> pat_in L E p \<and>
     pred_option (\<lambda>w. w L E PUse) (map_option in_frag e))"
| "in_frag (EMatch c arms) = (\<lambda>L E pos. in_frag c L E PUse \<and> list_all (\<lambda>w. w L E) (map arm_in_frag arms))"
| "in_frag (EFor p i b) = (\<lambda>L E pos. in_frag i L E PUse \<and> body_in_frag b L E \<and> pat_in L E p)"
| "in_frag (EWhile c b) = (\<lambda>L E pos. in_frag c L E PUse \<and> body_in_frag b L E)"
| "in_frag (EWhileLet p c b) = (\<lambda>L E pos. in_frag c L E PUse \<and> body_in_frag b L E \<and> pat_in L E p)"
| "in_frag (ELoop b) = (\<lambda>L E pos. body_in_frag b L E)"
| "in_frag (EReturn e) = (\<lambda>L E pos. pred_option (\<lambda>w. w L E PMove) (map_option in_frag e))"
| "in_frag (EBreak e) = (\<lambda>L E pos. pred_option (\<lambda>w. w L E PMove) (map_option in_frag e))"
| "in_frag EContinue = (\<lambda>L E pos. True)"
| "in_frag (EStruct p fs) = (\<lambda>L E pos. list_all (\<lambda>w. snd w L E PUse) (map (map_prod id in_frag) fs))"
| "in_frag (EMap es) = (\<lambda>L E pos. list_all (\<lambda>w. fst w L E PUse \<and> snd w L E PUse) (map (map_prod in_frag in_frag) es))"
| "in_frag (ESend t m args) = (\<lambda>L E pos. in_frag t L E PUse \<and> list_all (\<lambda>w. w L E PMove) (map arg_in_frag args))"
| "in_frag (EAsk t m args) = (\<lambda>L E pos. in_frag t L E PUse \<and> list_all (\<lambda>w. w L E PMove) (map arg_in_frag args))"
| "in_frag (EDeadline i d) = (\<lambda>L E pos. in_frag d L E PUse \<and> in_frag i L E (plain pos) \<and> pos \<noteq> PAssignTarget)"
| "in_frag (EQuestion i) = (\<lambda>L E pos. in_frag i L E (plain pos) \<and> pos \<noteq> PAssignTarget)"
| "in_frag (ESpawn k i) = (\<lambda>L E pos. in_frag i L E PUse)"
| "in_frag (EDetach i) = (\<lambda>L E pos. in_frag i L E PUse)"
| "in_frag (EJoin i) = (\<lambda>L E pos. in_frag i L E PUse)"
| "in_frag (EHtmlTemplate h) = (\<lambda>L E pos. True)"
| "in_frag (EUnsafe b) = (\<lambda>L E pos. body_in_frag b L E)"
| "in_frag (EArena n b) = (\<lambda>L E pos. in_frag b L E ArenaBody)"
| "in_frag (ETaskScope d b) = (\<lambda>L E pos. body_in_frag b L E \<and> d = None)"
| "in_frag (EBudget es b) = (\<lambda>L E pos. list_all (\<lambda>w. snd w L E PUse) (map (map_prod id in_frag) es) \<and> in_frag b L E PUse)"
| "in_frag (ESandbox n es b) = (\<lambda>L E pos.
     list_all (\<lambda>w. snd w L E PUse) (map (map_prod id in_frag) es) \<and> body_in_frag b L E)"
| "in_frag (ECast l t) = (\<lambda>L E pos. in_frag l L E PUse)"
| "in_frag (ELambda ps r b) = (\<lambda>L E pos. False)"
| "in_frag (ERun i) = (\<lambda>L E pos. in_frag i L E (plain pos) \<and> pos \<noteq> PAssignTarget)"
| "in_frag EError = (\<lambda>L E pos. True)"
| "body_in_frag (Block ss t) = (\<lambda>L E. list_all (\<lambda>w. w L E) (map stmt_in_frag ss) \<and>
     pred_option (\<lambda>w. w L E PUse) (map_option in_frag t))"
| "stmt_in_frag (SLet p ty i m) = (\<lambda>L E. pred_option (\<lambda>w. w L E PUse) (map_option in_frag i) \<and> pat_in L E p)"
| "stmt_in_frag (SExpr e) = (\<lambda>L E. in_frag e L E PUse)"
| "arg_in_frag (Arg n e) = in_frag e"
| "arm_in_frag (Arm p g b) = (\<lambda>L E. g = None \<and> in_frag b L E PUse \<and> pat_in L E p)"

lemma pat_binds_names: "map fst (pat_binds p E t) = map fst (pat_binds p E u)"
proof (induction p arbitrary: t u)
  case (PBinding n sub)
  then show ?case by (cases sub) auto
next
  case (PTuple xs)
  have "map (map fst) (map (\<lambda>(i, f). f E (g i)) (enumerate 0 (map pat_binds xs))) =
      map (map fst) (map (\<lambda>(i, f). f E (h i)) (enumerate 0 (map pat_binds xs)))" for g h
    by (rule nth_equalityI) (auto simp: nth_enumerate_eq intro: PTuple)
  then show ?case unfolding pat_binds.simps Let_def map_concat by (rule arg_cong [where f = concat])
next
  case (PRef b p)
  then show ?case by simp
qed (simp_all add: map_concat)

lemma pat_inD: "pat_in L E p \<Longrightarrow> fst ` set (pat_binds (fe_pats E p) E t) \<subseteq> L"
  unfolding pat_in_def by (metis pat_binds_names set_map)

lemma binds_cseq: "(\<And>c. c \<in> set cs \<Longrightarrow> binds c = []) \<Longrightarrow> binds (cseq cs) = []"
  by (induction cs) (auto simp: cseq_def)

lemma binds_avail_arms: "binds (avail_arms ms) = []"
  by (induction ms rule: avail_arms.induct) auto

lemma enumerate_in: "(i, w) \<in> set (enumerate k ws) \<Longrightarrow> w \<in> set ws"
  by (metis enumerate_eq_zip set_zip_rightD)

lemma binds_enumerate:
  "(\<And>i w. w \<in> set ws \<Longrightarrow> binds (f (i, w)) = []) \<Longrightarrow> binds (cseq (map f (enumerate k ws))) = []"
  by (rule binds_cseq) (auto dest: enumerate_in)

lemma binds_avail_all:
  "\<forall>\<pi> pos. pos \<noteq> ArenaBody \<longrightarrow> binds (avail_expr e E \<pi> pos) = []"
  "(b :: block) = b" "(st :: stmt) = st"
  "\<forall>\<pi> pos. pos \<noteq> ArenaBody \<longrightarrow> binds (avail_arg a E \<pi> pos) = []"
  "(m :: match_arm) = m"
proof (induction e and b and st and a and m)
  case (EBinary op l r)
  then show ?case by (auto split: option.split list.split)
qed (auto simp: avail_path_def avail_list_def avail_opt_def binds_avail_arms move_pos_def
      intro!: binds_enumerate split: list.split position.split option.split)

lemma binds_avail: "pos \<noteq> ArenaBody \<Longrightarrow> binds (avail_expr e E \<pi> pos) = []"
  using binds_avail_all(1) by blast

lemma binds_avail_arg: "pos \<noteq> ArenaBody \<Longrightarrow> binds (avail_arg a E \<pi> pos) = []"
  using binds_avail_all(4) by blast

lemma quiet_cseq: "(\<And>c. c \<in> set cs \<Longrightarrow> quiet c) \<Longrightarrow> quiet (cseq cs)"
  by (induction cs) (auto simp: cseq_def)

lemma quiet_enumerate: "(\<And>i w. w \<in> set ws \<Longrightarrow> quiet (f (i, w))) \<Longrightarrow> quiet (cseq (map f (enumerate k ws)))"
  by (rule quiet_cseq) (auto dest: enumerate_in)

lemma avail_arg_value [simp]: "avail_arg a = avail_expr (arg_value a)"
  by (cases a) simp

lemma frag_arg_value [simp]: "arg_in_frag a = in_frag (arg_value a)"
  by (cases a) simp

lemma reads_only_quiet: "reads_only e \<Longrightarrow> plain pos \<noteq> PMove \<Longrightarrow> quiet (avail_expr e E \<pi> pos)"
proof (induction e arbitrary: \<pi> pos rule: reads_only.induct)
  case (8 c args)
  have "plain (arg_position E ps i) \<noteq> PMove" for ps i
    by (auto simp: arg_position_def split: option.split ty_data.split bool.split)
  then show ?case using 8 by (auto simp: list_all_iff intro!: quiet_enumerate)
qed (auto simp: avail_path_def avail_list_def move_pos_def list_all_iff intro!: quiet_enumerate split: list.split position.split)

section \<open>The walker simulates\<close>

lemma avail_arms_choice:
  "\<forall>m \<in> set ms. fst (snd m) = None \<Longrightarrow> avail_arms ms = choice_all (map (\<lambda>m. CScope (CSeq (fst m) (snd (snd m)))) ms)"
  by (induction ms rule: avail_arms.induct) auto

lemma go_fst: "(\<lambda>s. fst (w E \<pi> pos s)) = go w E \<pi> pos"
  by (simp add: go_def fun_eq_iff)

lemma sim_go_opt:
  "(\<And>x. xo = Some x \<Longrightarrow> sim_of L (av x E \<pi> pos) (go (wk x) E \<pi> pos)) \<Longrightarrow>
   sim_of L (avail_opt (map_option av xo) E \<pi> pos) (go_opt (map_option wk xo) E \<pi> pos)"
proof (cases xo)
  case None
  then show ?thesis by (simp add: avail_opt_def go_opt_def seq_opt_def sim_cong [OF sim_skip(2)])
next
  case (Some x)
  assume "\<And>x. xo = Some x \<Longrightarrow> sim_of L (av x E \<pi> pos) (go (wk x) E \<pi> pos)"
  from sim_cong [OF this [OF Some], of "go_opt (map_option wk xo) E \<pi> pos"] Some show ?thesis
    by (simp add: avail_opt_def go_opt_def seq_opt_def)
qed

lemma grows_body: "keeps grown s (go (walk_body b) E \<pi> pos s)"
  using walk_keeps_all(2) by (simp add: go_def)

lemma sim_body_frame:
  "sim_of L (avail_body b E \<pi> PUse) (go (walk_body b) E \<pi> PUse) \<Longrightarrow>
   sim_of L (CScope (avail_body b E \<pi> PUse)) (in_frame r (go (walk_body b) E \<pi> PUse))"
  by (rule sim_frame [OF _ grows_body])

lemma sim_bound_frame:
  assumes "sim_of L (avail_body b E \<pi> PUse) (go (walk_body b) E \<pi> PUse)" "pat_in L E p"
  shows "sim_of L (CScope (CSeq (avail_pat E p t True) (CScope (avail_body b E \<pi> PUse))))
    (in_frame r (in_frame None (go (walk_body b) E \<pi> PUse) \<circ> bind_pattern E p t))"
  by (rule sim_frame [OF sim_seq [OF sim_bind_pattern(1) [OF pat_inD [OF assms(2)]] sim_body_frame [OF assms(1)]]])
     (simp add: grows_frame_bind grows_body)

definition expr_sim :: "string set \<Rightarrow> flow_env \<Rightarrow> expr \<Rightarrow> bool" where
  "expr_sim L E e \<longleftrightarrow> (\<forall>\<pi> pos. in_frag e L E pos \<longrightarrow> (pos = PAssignTarget \<longrightarrow> path_segs e = None) \<longrightarrow>
     sim_of L (avail_expr e E \<pi> pos) (go (walk_expr e) E \<pi> pos))"

lemma expr_simD: "expr_sim L E e \<Longrightarrow> in_frag e L E pos \<Longrightarrow> pos \<noteq> PAssignTarget \<or> path_segs e = None \<Longrightarrow>
    sim_of L (avail_expr e E \<pi> pos) (go (walk_expr e) E \<pi> pos)"
  by (auto simp: expr_sim_def)

lemma sim_expr_EBinary:
  assumes l: "expr_sim L E l" and r: "expr_sim L E r" and fr: "in_frag (EBinary op l r) L E pos"
  shows "sim_of L (avail_expr (EBinary op l r) E \<pi> pos) (go (walk_expr (EBinary op l r)) E \<pi> pos)"
proof -
  let ?R = "avail_expr r E (1 # \<pi>) PUse" and ?g = "go (walk_expr r) E (1 # \<pi>) PUse"
  have R: "sim_of L ?R ?g" using expr_simD [OF r] fr by simp
  show ?thesis
  proof (cases "is_assign op")
    case False
    then have "sim_of L (avail_expr l E (0 # \<pi>) PUse) (go (walk_expr l) E (0 # \<pi>) PUse)"
      using expr_simD [OF l] fr by simp
    from sim_seq [OF this R] False show ?thesis
      by (auto simp: go_def is_assign_def intro: sim_cong)
  next
    case True
    show ?thesis
    proof (cases "path_segs l")
      case None
      then have ro: "reads_only l" "reads_only r" "in_frag l L E PAssignTarget" using fr True by auto
      have l': "sim_of L (avail_expr l E (0 # \<pi>) PAssignTarget) (go (walk_expr l) E (0 # \<pi>) PAssignTarget)"
        using expr_simD [OF l ro(3)] None by simp
      have "sim_of L (CSeq ?R (avail_expr l E (0 # \<pi>) PAssignTarget)) (?g \<circ> go (walk_expr l) E (0 # \<pi>) PAssignTarget)"
        by (rule sim_swap [OF l' R]) (simp_all add: reads_only_quiet ro binds_avail)
      moreover have "lhs_root_name l = None" using None by (auto simp: lhs_root_name_def path_segs_def split: expr.splits)
      ultimately show ?thesis using True None by (auto simp: go_def intro: sim_cong)
    next
      case (Some segs)
      then have l: "l = EPath segs" by (auto simp: path_segs_def split: expr.splits)
      consider x where "segs = [x]" | x y zs where "segs = x # y # zs" "op = BAssign"
        using fr True Some by (cases segs rule: list.exhaust; auto) (metis length_0_conv length_Suc_conv list.exhaust)
      then show ?thesis
      proof cases
        case 1
        note st = sim_store [OF R, of x E] sim_store [OF sim_with_pending [OF R, of "Some x"], of x E]
        show ?thesis
        proof (cases "op = BAssign")
          case True
          then show ?thesis using st(3) \<open>is_assign op\<close> Some 1
            by (auto simp: l go_def lhs_root_name_def Let_def comp_def intro: sim_cong)
        next
          case False
          then show ?thesis using st(2) \<open>is_assign op\<close> Some 1
            by (auto simp: l go_def lhs_root_name_def Let_def comp_def intro: sim_cong)
        qed
      next
        case 2
        have "sim_of L CSkip (\<lambda>s. fst (walk_path E segs PAssignTarget s))"
          using sim_path [of PAssignTarget segs L E] 2 by (simp add: avail_path_def)
        from sim_skip_seq [OF sim_seq [OF this R]] show ?thesis using \<open>is_assign op\<close> Some 2
          by (auto simp: l go_def lhs_root_name_def Let_def comp_def intro: sim_cong)
      qed
    qed
  qed
qed

lemma expr_simI:
  "(\<And>\<pi> pos. in_frag e L E pos \<Longrightarrow> pos = PAssignTarget \<longrightarrow> path_segs e = None \<Longrightarrow>
     sim_of L (avail_expr e E \<pi> pos) (\<lambda>s. fst (walk_expr e E \<pi> pos s))) \<Longrightarrow> expr_sim L E e"
  by (simp add: expr_sim_def go_fst)

lemma sim_list_args:
  assumes "\<And>a. a \<in> set as \<Longrightarrow> expr_sim L E (arg_value a)"
    "\<And>a. a \<in> set as \<Longrightarrow> in_frag (arg_value a) L E pos" "pos \<noteq> PAssignTarget"
  shows "sim_of L (avail_list (map avail_arg as) E \<pi> k pos) (go_list (map walk_arg as) E \<pi> k pos)"
  by (rule sim_go_list) (simp add: assms expr_simD)

lemma sim_list_exprs:
  assumes "\<And>x. x \<in> set xs \<Longrightarrow> expr_sim L E x" "\<And>x. x \<in> set xs \<Longrightarrow> in_frag x L E PUse"
  shows "sim_of L (avail_list (map avail_expr xs) E \<pi> k PUse) (go_list (map walk_expr xs) E \<pi> k PUse)"
  by (rule sim_go_list) (simp add: assms expr_simD)

lemma sim_message:
  assumes t: "expr_sim L E t" "in_frag t L E PUse"
    and as: "\<And>a. a \<in> set as \<Longrightarrow> expr_sim L E (arg_value a)" "\<And>a. a \<in> set as \<Longrightarrow> in_frag (arg_value a) L E PMove"
  shows "sim_of L (CSeq (avail_expr t E (0 # \<pi>) PUse) (avail_list (map avail_arg as) E \<pi> 1 PMove))
    (\<lambda>s. fst (walk_message (walk_expr t) (map walk_arg as) E \<pi> pos s))"
proof -
  have "sim_of L (avail_list (map avail_arg as) E \<pi> 1 PMove)
      (seq_all (map (\<lambda>(i, w). message_arg w E (i # \<pi>)) (enumerate 1 (map walk_arg as))))"
    unfolding avail_list_def
    by (rule sim_cseq) (use as in \<open>auto simp: list_all2_conv_all_nth nth_enumerate_eq intro!: sim_message_arg expr_simD\<close>)
  from sim_seq [OF expr_simD [OF t, of "0 # \<pi>"] this] show ?thesis by (simp add: walk_message_def comp_def)
qed

lemma sim_exits: "sim_of L CReturn (\<lambda>s. s)" "sim_of L CBreak (\<lambda>s. s)" "sim_of L CContinue (\<lambda>s. s)"
  by (rule sim_ofI; simp)+

lemma sim_seq_exit: "sim_of L c f \<Longrightarrow> sim_of L d (\<lambda>s. s) \<Longrightarrow> sim_of L (CSeq c d) f"
  using sim_seq [of L c f d "\<lambda>s. s"] by (simp add: comp_def)

lemma join_store_self: "join_store A A = A"
  by (auto simp: join_store_def join_cell_def fun_eq_iff split: option.split)

lemma sim_may_return: "sim_of L (CChoice CSkip CReturn) (\<lambda>s. s)"
  by (rule sim_ofI) (simp_all add: join_store_self)

lemma sim_loop:
  assumes "sim_of L c f" "binds c = []"
  shows "sim_of L (CWhile CSkip c) (loop_fixed_point f)"
  using sim_while [OF sim_skip(1) assms(1) _ assms(2)] by simp

lemma sim_fields:
  assumes "\<And>n x. (n, x) \<in> set fs \<Longrightarrow> expr_sim L E x" "\<And>n x. (n, x) \<in> set fs \<Longrightarrow> in_frag x L E PUse"
  shows "sim_of L (avail_list (map snd (map (map_prod id avail_expr) fs)) E \<pi> k PUse)
    (go_list (map snd (map (map_prod id walk_expr) fs)) E \<pi> k PUse)"
  using sim_list_exprs [of "map snd fs" L E \<pi> k] assms by (fastforce simp: comp_def)

lemma sim_arena:
  assumes "sim_of L c (go w E (0 # \<pi>) ArenaBody)" "\<And>s. keeps grown s (go w E (0 # \<pi>) ArenaBody s)"
  shows "sim_of L (CScope c) (\<lambda>s. fst (walk_arena w E \<pi> pos s))"
proof -
  define f where "f = (\<lambda>r s. check_arena_escape r (w E (0 # \<pi>) ArenaBody s))"
  have esc: "check_arena_escape r st = fst st \<or> (\<exists>n. check_arena_escape r st = push_diag (arena_escape n zero_span) (fst st))" for r st
    by (auto simp: check_arena_escape_def split: option.split)
  have "sim_of L c (f r)" for r
  proof (rule sim_ofI)
    show "set (binds c) \<subseteq> L" by (rule sim_ofD(1) [OF assms(1)])
    have e: "\<exists>ds. bc_diag (f r s) = bc_diag (go w E (0 # \<pi>) ArenaBody s) @ ds" for s
      using esc [of r "w E (0 # \<pi>) ArenaBody s"] by (auto simp: f_def go_def push_diag_def)
    show "\<exists>ds. bc_diag (f r s) = bc_diag s @ ds" for s
      by (rule extends_between [OF sim_ofD(2) [OF assms(1)] e])
    fix s assume r: "ready L c s" and d: "bc_diag (f r s) = bc_diag s"
    have "bc_diag (go w E (0 # \<pi>) ArenaBody s) = bc_diag s"
      using unchanged_between [OF sim_ofD(2) [OF assms(1)] e d] by simp
    from sim_ofD(3,4) [OF assms(1) r this]
    show "chk c (abs_cx s) = Some (abs_cx (f r s)) \<and> bc_scopes (f r s) = extend_top (binds c) (bc_scopes s)"
      using esc [of r "w E (0 # \<pi>) ArenaBody s"] by (auto simp: f_def go_def push_diag_def)
  qed
  moreover have "keeps grown s (f r s)" for r s
    using esc [of r "w E (0 # \<pi>) ArenaBody s"] assms(2) [of s]
    by (auto simp: f_def go_def intro!: grows_trans [OF _ keeps_grown [OF kept_push_diag]])
  ultimately have fr: "sim_of L (CScope c) (in_frame (Some r) (f r))" for r by (rule sim_frame)
  have wa: "fst (walk_arena w E \<pi> pos s) = in_frame (Some (snd (fresh_arena s))) (f (snd (fresh_arena s))) (fst (fresh_arena s))" for s
    by (simp add: walk_arena_def f_def split_beta Let_def)
  show ?thesis
  proof (rule sim_ofI)
    show "\<exists>ds. bc_diag (fst (walk_arena w E \<pi> pos s)) = bc_diag s @ ds" for s
      using sim_ofD(2) [OF fr, of "snd (fresh_arena s)" "fst (fresh_arena s)"] unfolding wa by (simp add: fresh_arena_def)
    fix s assume "ready L (CScope c) s" and d: "bc_diag (fst (walk_arena w E \<pi> pos s)) = bc_diag s"
    then have "ready L (CScope c) (fst (fresh_arena s))" by (simp add: ready_def fresh_arena_def)
    moreover have "bc_diag (in_frame (Some (snd (fresh_arena s))) (f (snd (fresh_arena s))) (fst (fresh_arena s)))
        = bc_diag (fst (fresh_arena s))" using d by (simp add: wa) (simp add: fresh_arena_def)
    ultimately have "chk (CScope c) (abs_cx (fst (fresh_arena s))) = Some (abs_cx (fst (walk_arena w E \<pi> pos s))) \<and>
        bc_scopes (fst (walk_arena w E \<pi> pos s)) = extend_top (binds (CScope c)) (bc_scopes (fst (fresh_arena s)))"
      using sim_ofD(3,4) [OF fr, of "fst (fresh_arena s)" "snd (fresh_arena s)"] unfolding wa by blast
    then show "chk (CScope c) (abs_cx s) = Some (abs_cx (fst (walk_arena w E \<pi> pos s))) \<and>
        bc_scopes (fst (walk_arena w E \<pi> pos s)) = extend_top (binds (CScope c)) (bc_scopes s)"
      by (simp add: fresh_arena_def)
  qed simp
qed

lemma walker_simulates:
  "expr_sim L E e"
  "\<forall>\<pi>. body_in_frag b L E \<longrightarrow> sim_of L (avail_body b E \<pi> PUse) (go (walk_body b) E \<pi> PUse)"
  "\<forall>\<pi>. stmt_in_frag st L E \<longrightarrow> sim_of L (avail_stmt st E \<pi>) (walk_stmt st E \<pi>)"
  "expr_sim L E (arg_value a)"
  "\<forall>\<pi> t. arm_in_frag m L E \<longrightarrow> fst (snd (avail_arm m E \<pi> t)) = None \<and>
     sim_of L (CScope (CSeq (fst (avail_arm m E \<pi> t)) (snd (snd (avail_arm m E \<pi> t))))) (walk_arm m E \<pi> t)"
proof (induction e and b and st and a and m)
  case (EPath segs)
  show ?case by (rule expr_simI) (use sim_path in \<open>auto simp: path_segs_def\<close>)
next
  case (EPathGeneric segs gs)
  show ?case by (rule expr_simI) (use sim_path_generic in auto)
next
  case (EBinary op l r)
  show ?case unfolding expr_sim_def using sim_expr_EBinary [OF EBinary] by blast
next
  case (EBlock b)
  show ?case
  proof (rule expr_simI)
    fix \<pi> pos assume "in_frag (EBlock b) L E pos"
    then have "sim_of L (avail_body b E \<pi> PUse) (go (walk_body b) E \<pi> PUse)" using EBlock by simp
    then show "sim_of L (avail_expr (EBlock b) E \<pi> pos) (\<lambda>s. fst (walk_expr (EBlock b) E \<pi> pos s))"
      using sim_body_frame [of L b E \<pi> None] by (auto simp: go_fst)
  qed
next
  case (EUnsafe b)
  then show ?case by (intro expr_simI) (simp add: sim_body_frame)
next
  case (ETaskScope d b)
  then show ?case by (intro expr_simI) (auto simp: avail_opt_def intro!: sim_cong [OF sim_seq [OF sim_skip(1) sim_body_frame]])
next
  case (ETuple xs)
  then show ?case by (intro expr_simI) (auto simp: list_all_iff intro!: sim_list_exprs)
next
  case (EArray xs)
  then show ?case by (intro expr_simI) (auto simp: list_all_iff intro!: sim_list_exprs)
next
  case (EUnary op r)
  show ?case
  proof (rule expr_simI)
    fix \<pi> pos assume "in_frag (EUnary op r) L E pos"
    then have "sim_of L (avail_expr r E (0 # \<pi>) PUse) (go (walk_expr r) E (0 # \<pi>) PUse)" using EUnary expr_simD by simp
    note r = this sim_inert_before [OF inert_check_deref this, of E "0 # \<pi>" r]
    show "sim_of L (avail_expr (EUnary op r) E \<pi> pos) (\<lambda>s. fst (walk_expr (EUnary op r) E \<pi> pos s))"
      by (cases "op = UDeref \<and> plain pos = PUse") (use sim_cong [OF r(1)] sim_cong [OF r(2)] in auto)
  qed
next
  case (EBorrow m i)
  show ?case
  proof (rule expr_simI)
    fix \<pi> pos assume fr: "in_frag (EBorrow m i) L E pos"
    let ?pos = "if m then PBorrowMut else PBorrowShared"
    have i: "sim_of L (avail_expr i E (0 # \<pi>) ?pos) (go (walk_expr i) E (0 # \<pi>) ?pos)"
      using fr by (intro expr_simD [OF EBorrow]) auto
    have "sim_of L (avail_expr i E (0 # \<pi>) ?pos) (\<lambda>s. case expr_as_place s i of
        Some p \<Rightarrow> walk_for_points_only i (try_place_borrow p (if m then Mut else Shared) zero_span s)
      | None \<Rightarrow> go (walk_expr i) E (0 # \<pi>) ?pos s)"
      by (rule sim_borrow_expr [OF i]) (use fr in \<open>auto intro!: place_avail binds_avail simp del: chk.simps\<close>)
    then show "sim_of L (avail_expr (EBorrow m i) E \<pi> pos) (\<lambda>s. fst (walk_expr (EBorrow m i) E \<pi> pos s))" by simp
  qed
next
  case (EMove i)
  show ?case
  proof (rule expr_simI)
    fix \<pi> pos assume "in_frag (EMove i) L E pos"
    then have "sim_of L (avail_expr i E (0 # \<pi>) PMove) (go (walk_expr i) E (0 # \<pi>) PMove)" using EMove expr_simD by simp
    moreover have "inert (\<lambda>s. case i of EUnary UDeref r \<Rightarrow> check_deref_move E (0 # 0 # \<pi>) r s | _ \<Rightarrow> s)"
      using inert_check_deref inert_id by (cases i) (auto simp: inert_def split: un_op.split)
    ultimately show "sim_of L (avail_expr (EMove i) E \<pi> pos) (\<lambda>s. fst (walk_expr (EMove i) E \<pi> pos s))"
      using sim_inert_before by (auto simp: comp_def)
  qed
next
  case (ECall c as)
  show ?case
  proof (rule expr_simI)
    fix \<pi> pos assume fr: "in_frag (ECall c as) L E pos"
    have c: "sim_of L (avail_expr c E (0 # \<pi>) PUse) (go (walk_expr c) E (0 # \<pi>) PUse)" using fr ECall expr_simD by simp
    have "sim_of L (avail_arg x E \<pi>' pos') (go (walk_arg x) E \<pi>' pos')"
      if "x \<in> set as" "pos' \<in> {PUse, PBorrowShared, PBorrowMut}" for x \<pi>' pos'
      using fr that ECall(2) [of x] expr_simD by (auto simp: list_all_iff)
    from sim_seq [OF c sim_call_args [of as L avail_arg E walk_arg \<pi>, OF this]]
    show "sim_of L (avail_expr (ECall c as) E \<pi> pos) (\<lambda>s. fst (walk_expr (ECall c as) E \<pi> pos s))"
      by (simp add: comp_def)
  qed
next
  case (EMethodCall r n as)
  show ?case
  proof (rule expr_simI)
    fix \<pi> pos assume fr: "in_frag (EMethodCall r n as) L E pos"
    have r: "sim_of L (avail_expr r E (0 # \<pi>) PBorrowShared) (go (walk_expr r) E (0 # \<pi>) PBorrowShared)"
      using fr EMethodCall expr_simD by simp
    have "sim_of L (avail_list (map avail_arg as) E \<pi> 1 PUse) (go_list (map walk_arg as) E \<pi> 1 PUse)"
      by (rule sim_list_args) (use fr EMethodCall(2) in \<open>auto simp: list_all_iff\<close>)
    from sim_seq [OF r this]
    show "sim_of L (avail_expr (EMethodCall r n as) E \<pi> pos) (\<lambda>s. fst (walk_expr (EMethodCall r n as) E \<pi> pos s))"
      by (simp add: comp_def)
  qed
next
  case (EField r n)
  then show ?case by (intro expr_simI) (auto simp: move_pos_def expr_simD)
next
  case (EIndex r i)
  then show ?case
    by (intro expr_simI) (auto simp: move_pos_def intro!: sim_cong [OF sim_seq [OF expr_simD expr_simD]])
next
  case (EIf c t e)
  show ?case
  proof (rule expr_simI)
    fix \<pi> pos assume fr: "in_frag (EIf c t e) L E pos"
    have c: "sim_of L (avail_expr c E (0 # \<pi>) PUse) (go (walk_expr c) E (0 # \<pi>) PUse)" using fr EIf expr_simD by simp
    have t: "sim_of L (avail_body t E (1 # \<pi>) PUse) (go (walk_body t) E (1 # \<pi>) PUse)" using fr EIf by simp
    have e: "sim_of L (avail_opt (map_option avail_expr e) E (2 # \<pi>) PUse) (go_opt (map_option walk_expr e) E (2 # \<pi>) PUse)"
      by (rule sim_go_opt) (use fr EIf(3) in \<open>auto intro!: expr_simD\<close>)
    from sim_seq [OF c sim_branches [OF sim_body_frame [OF t, of None] e]]
    show "sim_of L (avail_expr (EIf c t e) E \<pi> pos) (\<lambda>s. fst (walk_expr (EIf c t e) E \<pi> pos s))"
      by (simp add: comp_def)
  qed
next
  case (EIfLet p c t e)
  show ?case
  proof (rule expr_simI)
    fix \<pi> pos assume fr: "in_frag (EIfLet p c t e) L E pos"
    have c: "sim_of L (avail_expr c E (0 # \<pi>) PUse) (go (walk_expr c) E (0 # \<pi>) PUse)" using fr EIfLet expr_simD by simp
    have t: "sim_of L (avail_body t E (1 # \<pi>) PUse) (go (walk_body t) E (1 # \<pi>) PUse)" and p: "pat_in L E p" using fr EIfLet by simp_all
    have e: "sim_of L (avail_opt (map_option avail_expr e) E (2 # \<pi>) PUse) (go_opt (map_option walk_expr e) E (2 # \<pi>) PUse)"
      by (rule sim_go_opt) (use fr EIfLet(3) in \<open>auto intro!: expr_simD\<close>)
    from sim_seq [OF c sim_branches [OF sim_bound_frame [OF t p, where r = None and t = "ty_or_unit E (0 # \<pi>)"] e]]
    show "sim_of L (avail_expr (EIfLet p c t e) E \<pi> pos) (\<lambda>s. fst (walk_expr (EIfLet p c t e) E \<pi> pos s))"
      by (simp add: comp_def)
  qed
next
  case (EMatch c arms)
  show ?case
  proof (rule expr_simI)
    fix \<pi> pos assume fr: "in_frag (EMatch c arms) L E pos"
    let ?t = "ty_or_unit E (0 # \<pi>)"
    let ?ms = "map (\<lambda>(i, w). w E (i # \<pi>) ?t) (enumerate 1 (map avail_arm arms))"
    let ?cs = "map (\<lambda>m. CScope (CSeq (fst m) (snd (snd m)))) ?ms"
    have c: "sim_of L (avail_expr c E (0 # \<pi>) PUse) (go (walk_expr c) E (0 # \<pi>) PUse)" using fr EMatch expr_simD by simp
    have m: "fst (snd (avail_arm m E \<pi>' t)) = None"
        "sim_of L (CScope (CSeq (fst (avail_arm m E \<pi>' t)) (snd (snd (avail_arm m E \<pi>' t))))) (walk_arm m E \<pi>' t)"
      if "m \<in> set arms" for m \<pi>' t
      using EMatch(2) [OF that] fr that by (auto simp: list_all_iff)
    have "list_all2 (sim_of L) ?cs (map (\<lambda>(i, w). w E (i # \<pi>) ?t) (enumerate 1 (map walk_arm arms)))"
      using m(2) by (auto simp: list_all2_conv_all_nth nth_enumerate_eq)
    moreover have "binds d = []" if "d \<in> set ?cs" for d using that by auto
    ultimately have "sim_of L (choice_all ?cs) (walk_arms (map (\<lambda>(i, w). w E (i # \<pi>) ?t) (enumerate 1 (map walk_arm arms))))"
      by (rule sim_arms)
    from sim_seq [OF c this]
    have "sim_of L (CSeq (avail_expr c E (0 # \<pi>) PUse) (choice_all ?cs)) (\<lambda>s. fst (walk_expr (EMatch c arms) E \<pi> pos s))"
      by (simp add: comp_def)
    moreover have "avail_arms ?ms = choice_all ?cs"
      using m(1) by (intro avail_arms_choice) (auto simp: in_set_enumerate_eq)
    ultimately show "sim_of L (avail_expr (EMatch c arms) E \<pi> pos) (\<lambda>s. fst (walk_expr (EMatch c arms) E \<pi> pos s))" by simp
  qed
next
  case (EFor p i b)
  show ?case
  proof (rule expr_simI)
    fix \<pi> pos assume fr: "in_frag (EFor p i b) L E pos"
    have i: "sim_of L (avail_expr i E (0 # \<pi>) PUse) (go (walk_expr i) E (0 # \<pi>) PUse)" using fr EFor expr_simD by simp
    have b: "sim_of L (avail_body b E (1 # \<pi>) PUse) (go (walk_body b) E (1 # \<pi>) PUse)" and p: "pat_in L E p" using fr EFor by simp_all
    from sim_seq [OF i sim_loop [OF sim_bound_frame [OF b p, where r = None and t = "elem_ty E (ty_or_unit E (0 # \<pi>))"]]]
    show "sim_of L (avail_expr (EFor p i b) E \<pi> pos) (\<lambda>s. fst (walk_expr (EFor p i b) E \<pi> pos s))" by (simp add: comp_def)
  qed
next
  case (EWhile c b)
  show ?case
  proof (rule expr_simI)
    fix \<pi> pos assume fr: "in_frag (EWhile c b) L E pos"
    have c: "sim_of L (avail_expr c E (0 # \<pi>) PUse) (go (walk_expr c) E (0 # \<pi>) PUse)" using fr EWhile expr_simD by simp
    have b: "sim_of L (avail_body b E (1 # \<pi>) PUse) (go (walk_body b) E (1 # \<pi>) PUse)" using fr EWhile by simp
    from sim_while [OF c sim_body_frame [OF b, of None]]
    show "sim_of L (avail_expr (EWhile c b) E \<pi> pos) (\<lambda>s. fst (walk_expr (EWhile c b) E \<pi> pos s))"
      by (simp add: comp_def binds_avail)
  qed
next
  case (EWhileLet p c b)
  show ?case
  proof (rule expr_simI)
    fix \<pi> pos assume fr: "in_frag (EWhileLet p c b) L E pos"
    have c: "sim_of L (avail_expr c E (0 # \<pi>) PUse) (go (walk_expr c) E (0 # \<pi>) PUse)" using fr EWhileLet expr_simD by simp
    have b: "sim_of L (avail_body b E (1 # \<pi>) PUse) (go (walk_body b) E (1 # \<pi>) PUse)" and p: "pat_in L E p"
      using fr EWhileLet by simp_all
    from sim_while [OF c sim_bound_frame [OF b p, where r = None and t = "ty_or_unit E (0 # \<pi>)"]]
    show "sim_of L (avail_expr (EWhileLet p c b) E \<pi> pos) (\<lambda>s. fst (walk_expr (EWhileLet p c b) E \<pi> pos s))"
      by (simp add: comp_def binds_avail)
  qed
next
  case (ELoop b)
  then show ?case by (intro expr_simI) (simp add: sim_loop sim_body_frame)
next
  case (EReturn e)
  then show ?case by (intro expr_simI) (auto intro!: sim_seq_exit sim_exits sim_go_opt expr_simD)
next
  case (EBreak e)
  then show ?case by (intro expr_simI) (auto intro!: sim_seq_exit sim_exits sim_go_opt expr_simD)
next
  case EContinue
  then show ?case by (intro expr_simI) (simp add: sim_exits)
next
  case (EStruct p fs)
  then show ?case by (intro expr_simI) (auto simp: list_all_iff simp del: map_map intro!: sim_fields)
next
  case (EMap es)
  show ?case
  proof (rule expr_simI)
    fix \<pi> pos assume "in_frag (EMap es) L E pos"
    then have kv: "sim_of L (avail_expr k E \<pi>' PUse) (go (walk_expr k) E \<pi>' PUse)"
        "sim_of L (avail_expr v E \<pi>' PUse) (go (walk_expr v) E \<pi>' PUse)" if "(k, v) \<in> set es" for k v \<pi>'
      using EMap that by (auto simp: list_all_iff intro!: expr_simD)
    have "sim_of L (CSeq (avail_expr (fst (es ! i)) E (0 # i # \<pi>) PUse) (avail_expr (snd (es ! i)) E (1 # i # \<pi>) PUse))
        (go (walk_expr (snd (es ! i))) E (1 # i # \<pi>) PUse \<circ> go (walk_expr (fst (es ! i))) E (0 # i # \<pi>) PUse)"
      if "i < length es" for i
      by (rule sim_seq) (use kv [of "fst (es ! i)" "snd (es ! i)"] nth_mem [OF that] in auto)
    then show "sim_of L (avail_expr (EMap es) E \<pi> pos) (\<lambda>s. fst (walk_expr (EMap es) E \<pi> pos s))"
      by (auto simp: list_all2_conv_all_nth nth_enumerate_eq split_beta simp del: One_nat_def intro!: sim_cseq)
  qed
next
  case (ESend t m args)
  then show ?case by (intro expr_simI) (auto simp: list_all_iff simp del: avail_arg_value intro!: sim_message [unfolded One_nat_def])
next
  case (EAsk t m args)
  then show ?case by (intro expr_simI) (auto simp: list_all_iff simp del: avail_arg_value intro!: sim_message [unfolded One_nat_def])
next
  case (EDeadline i d)
  show ?case
  proof (rule expr_simI)
    fix \<pi> pos assume fr: "in_frag (EDeadline i d) L E pos"
    have "plain pos \<noteq> PAssignTarget" using fr by (cases pos) auto
    then have i: "sim_of L (avail_expr i E (0 # \<pi>) (plain pos)) (go (walk_expr i) E (0 # \<pi>) (plain pos))"
      using fr EDeadline expr_simD by simp
    have d: "sim_of L (avail_expr d E (1 # \<pi>) PUse) (go (walk_expr d) E (1 # \<pi>) PUse)" using fr EDeadline expr_simD by simp
    from sim_seq [OF d i] show "sim_of L (avail_expr (EDeadline i d) E \<pi> pos) (\<lambda>s. fst (walk_expr (EDeadline i d) E \<pi> pos s))"
      by (simp add: comp_def go_def)
  qed
next
  case (EQuestion i)
  show ?case
  proof (rule expr_simI)
    fix \<pi> pos assume fr: "in_frag (EQuestion i) L E pos"
    have "plain pos \<noteq> PAssignTarget" using fr by (cases pos) auto
    then have i: "sim_of L (avail_expr i E (0 # \<pi>) (plain pos)) (go (walk_expr i) E (0 # \<pi>) (plain pos))"
      using fr EQuestion expr_simD by simp
    from sim_seq_exit [OF i sim_may_return]
    show "sim_of L (avail_expr (EQuestion i) E \<pi> pos) (\<lambda>s. fst (walk_expr (EQuestion i) E \<pi> pos s))" by (simp add: go_fst)
  qed
next
  case (ERun i)
  show ?case
  proof (rule expr_simI)
    fix \<pi> pos assume fr: "in_frag (ERun i) L E pos"
    have "plain pos \<noteq> PAssignTarget" using fr by (cases pos) auto
    then show "sim_of L (avail_expr (ERun i) E \<pi> pos) (\<lambda>s. fst (walk_expr (ERun i) E \<pi> pos s))"
      using fr ERun expr_simD by (simp add: go_fst)
  qed
next
  case (EArena n b)
  show ?case
  proof (rule expr_simI)
    fix \<pi> pos assume "in_frag (EArena n b) L E pos"
    then have "sim_of L (avail_expr b E (0 # \<pi>) ArenaBody) (go (walk_expr b) E (0 # \<pi>) ArenaBody)" using EArena expr_simD by simp
    from sim_arena [OF this] show "sim_of L (avail_expr (EArena n b) E \<pi> pos) (\<lambda>s. fst (walk_expr (EArena n b) E \<pi> pos s))"
      using walk_fineD(2) [OF walk_keeps_all(1)] by (simp add: go_def)
  qed
next
  case (EBudget es b)
  then show ?case
    by (intro expr_simI) (auto simp: list_all_iff simp del: map_map intro!: sim_cong [OF sim_seq [OF sim_fields expr_simD]])
next
  case (ESandbox n es b)
  then show ?case
    by (intro expr_simI)
       (auto simp: list_all_iff simp del: map_map intro!: sim_cong [OF sim_seq [OF sim_fields sim_body_frame]])
next
  case (Block ss t)
  show ?case
  proof (intro allI impI)
    fix \<pi> assume fr: "body_in_frag (Block ss t) L E"
    let ?cs = "map (\<lambda>(i, w). w E (i # \<pi>)) (enumerate 0 (map avail_stmt ss))"
    let ?fs = "map (\<lambda>(i, w). w E (i # \<pi>)) (enumerate 0 (map walk_stmt ss))"
    have "list_all2 (sim_of L) ?cs ?fs"
      using fr Block(1) by (auto simp: list_all2_conv_all_nth nth_enumerate_eq list_all_iff)
    moreover have "sim_of L (avail_opt (map_option avail_expr t) E (length ss # \<pi>) PUse)
        (go_opt (map_option walk_expr t) E (length ss # \<pi>) PUse)"
      by (rule sim_go_opt) (use fr Block(2) in \<open>auto intro!: expr_simD\<close>)
    ultimately have "sim_of L (avail_body (Block ss t) E \<pi> PUse)
        (go_opt (map_option walk_expr t) E (length ss # \<pi>) PUse \<circ> seq_all ?fs)"
      using sim_seq [OF sim_cseq] by simp
    then show "sim_of L (avail_body (Block ss t) E \<pi> PUse) (go (walk_body (Block ss t)) E \<pi> PUse)"
      by (rule sim_cong) (auto simp: go_def go_opt_def seq_opt_def Let_def split: option.split)
  qed
next
  case (SLet p ty i m)
  show ?case
  proof (intro allI impI)
    fix \<pi> assume fr: "stmt_in_frag (SLet p ty i m) L E"
    have p: "pat_in L E p" using fr by simp
    show "sim_of L (avail_stmt (SLet p ty i m) E \<pi>) (walk_stmt (SLet p ty i m) E \<pi>)"
    proof (cases i)
      case None
      have "sim_of L (avail_pat E p unit_id False) (bind_pattern_mut_with_state E p unit_id m Uninit)"
        by (rule sim_bind_pattern(2) [OF pat_inD [OF p]]) simp
      from sim_seq [OF sim_skip(1) this] show ?thesis using None by (auto simp: avail_opt_def intro: sim_cong)
    next
      case (Some e)
      have "sim_of L (avail_expr e E \<pi> PUse) (go (walk_expr e) E \<pi> PUse)" using fr SLet Some expr_simD by simp
      moreover have "sim_of L (avail_pat E p (ty_or_unit E \<pi>) True) (bind_pattern_mut_with_state E p (ty_or_unit E \<pi>) m Owned)"
        by (rule sim_bind_pattern(2) [OF pat_inD [OF p]]) simp
      ultimately have "sim_of L (CSeq (avail_expr e E \<pi> PUse) (avail_pat E p (ty_or_unit E \<pi>) True))
          (bind_pattern_mut_with_state E p (ty_or_unit E \<pi>) m Owned \<circ> with_pending (pattern_single_name E p) (go (walk_expr e) E \<pi> PUse))"
        by (rule sim_seq [OF sim_with_pending])
      then show ?thesis using Some by (simp add: avail_opt_def Let_def comp_def)
    qed
  qed
next
  case (SExpr e)
  then show ?case by (simp add: expr_simD)
next
  case (Arg n e)
  then show ?case by simp
next
  case (Arm p g b)
  show ?case
  proof (intro allI impI)
    fix \<pi> t assume fr: "arm_in_frag (Arm p g b) L E"
    have b: "sim_of L (avail_expr b E (1 # \<pi>) PUse) (go (walk_expr b) E (1 # \<pi>) PUse)" using fr Arm expr_simD by simp
    have p: "sim_of L (avail_pat E p t True) (bind_pattern E p t)" using fr by (auto intro!: sim_bind_pattern(1) pat_inD)
    have "keeps grown s ((go (walk_expr b) E (1 # \<pi>) PUse \<circ> bind_pattern E p t) s)" for s
      unfolding comp_apply go_def
      by (rule grows_trans [OF grows_bind(1) keeps_grown [OF walk_keeps(1)]]) simp
    from sim_frame [OF sim_seq [OF p b] this]
    have "sim_of L (CScope (CSeq (avail_pat E p t True) (avail_expr b E (1 # \<pi>) PUse)))
        (in_frame None (go (walk_expr b) E (1 # \<pi>) PUse \<circ> bind_pattern E p t))" .
    moreover have "g = None" using fr by simp
    ultimately show "fst (snd (avail_arm (Arm p g b) E \<pi> t)) = None \<and>
        sim_of L (CScope (CSeq (fst (avail_arm (Arm p g b) E \<pi> t)) (snd (snd (avail_arm (Arm p g b) E \<pi> t)))))
          (walk_arm (Arm p g b) E \<pi> t)" by (simp add: go_opt_def seq_opt_def comp_def)
  qed
qed (intro expr_simI; simp add: expr_simD sim_skip)+

section \<open>Accepted bodies\<close>

text \<open>The body of a function: its parameters are bound and its block runs in a scope of its own.\<close>

definition avail_fn_body :: "flow_env \<Rightarrow> (string \<times> ty_id) list \<Rightarrow> block \<Rightarrow> nat list \<Rightarrow> cmd" where
  "avail_fn_body E ps body \<pi> = CScope (CSeq (avail_binds E ps True) (CScope (avail_body body E \<pi> PUse)))"

lemma sim_bind_params:
  assumes "fst ` set ps \<subseteq> L"
  shows "sim_of L (avail_binds E ps True) (bind_params E ps sp)"
  unfolding avail_binds_def bind_params_def
proof (rule sim_cseq)
  have "sim_of L (CBind n (is_copy t (fe_arena E) (fe_defs E)) True) (bind_local E n t sp False)" if "(n, t) \<in> set ps" for n t
    using sim_bind_local [of n L t E Owned sp False] assms that by (force simp: bind_local_def)
  then show "list_all2 (sim_of L) (map (\<lambda>(n, t). CBind n (is_copy t (fe_arena E) (fe_defs E)) True) ps)
      (map (\<lambda>(n, t). bind_local E n t sp False) ps)"
    by (auto simp: list_all2_conv_all_nth split_beta)
qed

lemma sim_fn_body:
  assumes "fst ` set ps \<subseteq> L" "body_in_frag body L E"
  shows "sim_of L (CSeq (avail_binds E ps True) (CScope (avail_body body E \<pi> PUse))) (walk_block body E \<pi> \<circ> bind_params E ps sp)"
    "keeps grown s ((walk_block body E \<pi> \<circ> bind_params E ps sp) s)"
proof -
  have "sim_of L (CScope (avail_body body E \<pi> PUse)) (walk_block body E \<pi>)"
    unfolding walk_block_def using walker_simulates(2) assms(2) by (blast intro: sim_body_frame)
  from sim_seq [OF sim_bind_params [OF assms(1)] this]
  show "sim_of L (CSeq (avail_binds E ps True) (CScope (avail_body body E \<pi> PUse))) (walk_block body E \<pi> \<circ> bind_params E ps sp)" .
  show "keeps grown s ((walk_block body E \<pi> \<circ> bind_params E ps sp) s)"
    unfolding comp_apply by (rule grows_trans [OF grows_bind_params keeps_grown [OF walk_keeps(2)]])
qed

text \<open>A frame around the whole walk: it starts without scopes.\<close>

lemma frame_on_empty:
  assumes "sim_of L c f" "bc_scopes s = []" "bc_locals s = Map.empty" "noshadow {} (CScope c)" "settled {} (CScope c)"
    "\<And>s. keeps grown s (f s)" "bc_diag (in_frame None f s) = bc_diag s"
  shows "\<exists>A. chk c Map.empty = Some A"
proof -
  let ?s0 = "push_frame None s"
  have "ready L c ?s0" using assms by (auto simp: ready_def push_frame_def stable_def)
  moreover have "\<exists>ds. bc_diag (pop_frame (f ?s0)) = bc_diag (f ?s0) @ ds"
  proof -
    obtain fr where "bc_scopes (f ?s0) = fr # []"
      using assms(6) [of ?s0] assms(2) by (cases "bc_scopes (f ?s0)") (auto simp: keeps_def push_frame_def)
    from kept_diag [OF kept_pop_frame [OF this]] show ?thesis by simp
  qed
  moreover have "bc_diag (pop_frame (f ?s0)) = bc_diag ?s0" using assms(7) by (simp add: in_frame_def push_frame_def)
  ultimately have "chk c (abs_cx ?s0) = Some (abs_cx (f ?s0))"
    using unchanged_between [OF sim_ofD(2) [OF assms(1)]] sim_ofD(3) [OF assms(1)] by blast
  moreover have "abs_cx ?s0 = Map.empty" using assms(3) by (simp add: push_frame_def abs_locals_def fun_eq_iff)
  ultimately show ?thesis by simp
qed


end
