(* ===== verification/Borrow_Run.thy ===== *)
theory Borrow_Run
  imports Borrow_Sound
begin

text \<open>
  The borrow checker run on concrete functions. The first part holds the equations by which the
  simplifier evaluates the walk of a closed body, each walk unfolded only once its state is known.
  Then an accepted body to which the soundness theorem applies, and bodies outside its fragment
  that the checker accepts although they fault: a move inside a loop, a store whose right-hand side
  reads the moved target, a shadowed local, a guard that moves.
\<close>

section \<open>Evaluating a walk\<close>

lemma loop_16:
  "loop_rounds 16 a b c f s =
     (let s1 = join_into a b (f s)
      in if length (bc_ledger s1) = c then s1 else loop_rounds 15 a b (length (bc_ledger s1)) f s1)"
  using loop_rounds.simps(2) [of 15 a b c f s] by (simp only: Suc_numeral add_num_simps)

lemma join_states_apply:
  "join_states a b n =
     (case (a n, b n) of
        (Some x, Some y) \<Rightarrow> Some (x\<lparr>ls_state := join_ownership (ls_state x) (ls_state y)\<rparr>)
      | (None, v) \<Rightarrow> v
      | (v, None) \<Rightarrow> v)"
  by (auto simp: join_states_def split: option.split)

lemma seq_all_steps: "seq_all [] s = s" "seq_all (f # fs) s = seq_all fs (f s)"
  by (simp_all add: seq_all_def)

lemma seq_opt_steps: "seq_opt None s = s" "seq_opt (Some f) s = f s"
  by (simp_all add: seq_opt_def)

declare walk_expr.simps [simp del] walk_body.simps [simp del] walk_stmt.simps [simp del] walk_arm.simps [simp del]
  visit_expr.simps [simp del] bind_pattern_inner_mut.simps [simp del]

lemmas walk_applied =
  walk_expr.simps [THEN fun_cong, THEN fun_cong, THEN fun_cong, THEN fun_cong]
  walk_body.simps [THEN fun_cong, THEN fun_cong, THEN fun_cong, THEN fun_cong]
  walk_stmt.simps [THEN fun_cong, THEN fun_cong, THEN fun_cong]
  walk_arm.simps [THEN fun_cong, THEN fun_cong, THEN fun_cong, THEN fun_cong]
  visit_expr.simps [THEN fun_cong]

lemmas flow_eval =
  walk_applied loop_16 join_states_apply seq_all_steps seq_opt_steps Let_def
  check_fn_body_def walk_block_def in_frame_def pop_frame_def push_frame_def bind_params_def bind_local_def
  bind_local_with_state_def go_def go_opt_def go_list_def call_args_def param_tys_def arg_position_def
  walk_path_def walk_branches_def walk_arms_def arm_step_def loop_fixed_point_def join_into_def join_ledgers_def do_move_def
  do_use_def do_assign_def maybe_decay_after_use_def advance_point_and_record_use_def set_state_def
  drop_local_def outlives_diags_def decay_borrowers_def decay_borrower_def recompute_all_def
  recompute_root_state_def current_arena_def with_pending_def ty_or_unit_def bind_pattern_mut_with_state_def
  bind_pattern_def bind_pattern_inner_mut.simps pattern_single_name_def try_place_borrow_def
  record_borrow_def conflict_diags_def conflicts_with_def ledger_push_def Place_root_def
  segs_to_place_def truncate_for_v0_3_def is_assign_def lhs_root_name_def do_borrow_shared_def
  zero_span_def BorrowCx_new_def compute_last_use_def visit_path_def advance_def LastUseMap_record_def
  LastUseMap_get_def vec_get_def

lemmas avail_eval =
  avail_fn_body_def avail_binds_def avail_pat_def avail_opt_def avail_list_def avail_path_def cseq_def
  path_segs_def is_assign_def ty_or_unit_def param_tys_def arg_position_def move_pos_def pat_in_def vec_get_def

section \<open>The sample functions\<close>

text \<open>A function with one string parameter \<open>s\<close>; every expression is a string but the first
  statement, an integer. The patterns bind \<open>n\<close>, \<open>x\<close> and \<open>y\<close>.\<close>

definition sample_env :: flow_env where
  "sample_env = \<lparr>fe_arena = TyArena_new, fe_defs = DefMap_default,
     fe_expr_ty = (\<lambda>\<pi>. Some (if \<pi> = [0, 0, 0] then arena_int I32 else 5)),
     fe_pats = (\<lambda>p. PBinding (if p = 0 then ''n'' else if p = 1 then ''x'' else ''y'') None)\<rparr>"

abbreviation "sample_params \<equiv> [(''s'', 5)] :: (string \<times> ty_id) list"

abbreviation accepts :: "block \<Rightarrow> bool" where
  "accepts b \<equiv> fst (check_fn_body sample_env (Some sample_params) zero_span b [0, 0] ([], [])) = []"

abbreviation runs_to :: "block \<Rightarrow> outcome \<Rightarrow> bool" where
  "runs_to b r \<equiv> exec (avail_fn_body sample_env sample_params b [0, 0]) Map.empty r"

lemma sample_env_sel:
  "fe_expr_ty sample_env \<pi> = Some (if \<pi> = [0, 0, 0] then 14 else 5)"
  "fe_pats sample_env p = PBinding (if p = 0 then ''n'' else if p = 1 then ''x'' else ''y'') None"
  "arena_get (fe_arena sample_env) 5 = TString" "arena_get (fe_arena sample_env) 14 = TInt I32"
  by (simp_all add: sample_env_def arena_get_def storage_TyArena_new primitives_def)

lemma sample_env_copy:
  "\<not> is_copy 5 (fe_arena sample_env) (fe_defs sample_env)"
  "is_copy 14 (fe_arena sample_env) (fe_defs sample_env)"
proof -
  have "arena_ok TyArena_new" by (rule TyArena_new_ok)
  then show "\<not> is_copy 5 (fe_arena sample_env) (fe_defs sample_env)"
    "is_copy 14 (fe_arena sample_env) (fe_defs sample_env)"
    using sample_env_sel(3,4) by (simp_all add: is_copy_unfold sample_env_def storage_TyArena_new primitives_def)
qed

lemmas sample_eval = flow_eval sample_env_sel sample_env_copy

text \<open>\<open>let mut n = 0; let x = move s; while n { n = n + 1 }; if n { move x } else { let y = &x; }\<close>\<close>

definition good_body :: block where
  "good_body = Block
     [SLet 0 None (Some (ELiteral (LInt 0 None))) True,
      SLet 1 None (Some (EMove (EPath [''s'']))) False,
      SExpr (EWhile (EPath [''n'']) (Block
        [SExpr (EBinary BAssign (EPath [''n'']) (EBinary BAdd (EPath [''n'']) (ELiteral (LInt 1 None))))] None))]
     (Some (EIf (EPath [''n'']) (Block [] (Some (EMove (EPath [''x'']))))
       (Some (EBlock (Block [SLet 2 None (Some (EBorrow False (EPath [''x'']))) False] None)))))"

text \<open>\<open>loop { move s; }\<close>\<close>

definition loop_body :: block where
  "loop_body = Block [SExpr (ELoop (Block [SExpr (EMove (EPath [''s'']))] None))] None"

text \<open>\<open>let mut n = 0; let mut x = ""; move x; x = f(x);\<close>\<close>

definition store_body :: block where
  "store_body = Block
     [SLet 0 None (Some (ELiteral (LInt 0 None))) True,
      SLet 1 None (Some (ELiteral (LStr ''''))) True,
      SExpr (EMove (EPath [''x''])),
      SExpr (EBinary BAssign (EPath [''x'']) (ECall (EPath [''f'']) [Arg None (EPath [''x''])]))] None"

text \<open>\<open>let mut n = 0; let x = ""; { let x = ""; } move x; move x;\<close>\<close>

definition shadow_body :: block where
  "shadow_body = Block
     [SLet 0 None (Some (ELiteral (LInt 0 None))) True,
      SLet 1 None (Some (ELiteral (LStr ''''))) False,
      SExpr (EBlock (Block [SLet 1 None (Some (ELiteral (LStr ''''))) False] None)),
      SExpr (EMove (EPath [''x''])), SExpr (EMove (EPath [''x'']))] None"

text \<open>\<open>let mut n = 0; match n { y if move s => 0, y => move s }\<close>\<close>

definition guard_body :: block where
  "guard_body = Block
     [SLet 0 None (Some (ELiteral (LInt 0 None))) True]
     (Some (EMatch (EPath [''n''])
       [Arm 2 (Some (EMove (EPath [''s'']))) (ELiteral (LInt 0 None)), Arm 2 None (EMove (EPath [''s'']))]))"

lemmas sample_bodies = good_body_def loop_body_def store_body_def shadow_body_def guard_body_def

lemma accepts_samples:
  "accepts good_body" "accepts loop_body" "accepts store_body" "accepts shadow_body" "accepts guard_body"
  by (simp_all add: sample_eval sample_bodies cong: let_weak_cong)

section \<open>Running the samples\<close>

inductive_simps exec_simps:
  "exec CSkip s r" "exec (CBind x c a) s r" "exec (CChoice c1 c2) s r"

lemma exec_cell:
  "exec (CUse x) s (RDone t) \<longleftrightarrow> (case s x of Some (c, b) \<Rightarrow> b \<and> t = s | None \<Rightarrow> t = s)"
  "exec (CUse x) s (RFault y) \<longleftrightarrow> (case s x of Some (c, b) \<Rightarrow> \<not> b \<and> x = y | None \<Rightarrow> False)"
  "exec (CMove x) s (RDone t) \<longleftrightarrow> (case s x of Some (c, b) \<Rightarrow> b \<and> t = s(x \<mapsto> (c, c)) | None \<Rightarrow> t = s)"
  "exec (CMove x) s (RFault y) \<longleftrightarrow> (case s x of Some (c, b) \<Rightarrow> \<not> b \<and> x = y | None \<Rightarrow> False)"
  by (auto intro: exec.intros split: option.split bool.splits)

lemma exec_scope:
  "exec (CScope c) s (RFault x) \<longleftrightarrow> exec c s (RFault x)"
  "exec (CScope c) s (RDone t) \<longleftrightarrow> (\<exists>u. exec c s (RDone u) \<and> t = u |` dom s)"
proof -
  have o: "out_map f r = RFault x \<longleftrightarrow> r = RFault x" "out_map f r = RDone t \<longleftrightarrow> (\<exists>u. r = RDone u \<and> t = f u)" 
    "RFault x = out_map f r \<longleftrightarrow> r = RFault x" "RDone t = out_map f r \<longleftrightarrow> (\<exists>u. r = RDone u \<and> t = f u)" for f r
    by (cases r; auto)+
  show "exec (CScope c) s (RFault x) \<longleftrightarrow> exec c s (RFault x)"
    using exec.Scope [of c s "RFault x"] by (auto elim!: exec_ScopeE simp: o)
  show "exec (CScope c) s (RDone t) \<longleftrightarrow> (\<exists>u. exec c s (RDone u) \<and> t = u |` dom s)"
    using exec.Scope [of c s "RDone _"] by (auto elim!: exec_ScopeE simp: o)
qed

lemma exec_seq:
  "exec (CSeq c d) s (RFault x) \<longleftrightarrow> exec c s (RFault x) \<or> (\<exists>u. exec c s (RDone u) \<and> exec d u (RFault x))"
  "exec (CSeq c d) s (RDone t) \<longleftrightarrow> (\<exists>u. exec c s (RDone u) \<and> exec d u (RDone t))"
  by (auto elim!: exec_SeqE intro: exec.Seq exec.SeqExit)

lemma exec_store: "exec (CStore y c) s (RFault x) \<longleftrightarrow> exec c s (RFault x)"
  by (auto elim!: exec_StoreE intro: exec.StoreExit)

lemma exec_while_again:
  assumes "\<exists>t. exec b s (RDone t) \<and> exec b (t |` dom s) (RFault x)"
  shows "exec (CWhile CSkip b) s (RFault x)"
  using assms by (blast intro: exec.WhileDone [OF exec.Skip] exec.WhileFault [OF exec.Skip])

lemmas run_eval = avail_eval sample_env_sel sample_env_copy sample_bodies exec_simps exec_cell exec_scope exec_seq exec_store


text \<open>Bodies outside the fragment: accepted, and they fault.\<close>

lemma loop_move_missed: "accepts loop_body \<and> runs_to loop_body (RFault ''s'')"
  by (rule conjI [OF accepts_samples(2)]) (simp add: run_eval, rule exec_while_again, simp add: run_eval)

lemma store_order_missed: "accepts store_body \<and> runs_to store_body (RFault ''x'')"
  by (rule conjI [OF accepts_samples(3)]) (simp add: run_eval)

lemma shadowing_missed: "accepts shadow_body \<and> runs_to shadow_body (RFault ''x'')"
  by (rule conjI [OF accepts_samples(4)]) (simp add: run_eval)

lemma guard_move_missed: "accepts guard_body \<and> runs_to guard_body (RFault ''s'')"
  by (rule conjI [OF accepts_samples(5)]) (simp add: run_eval)


end
