(* ===== verification/Ty_Infer.thy ===== *)
theory Ty_Infer
  imports Ty_Arena
begin

text \<open>
  Inference variables and unification, \<^verbatim>\<open>crates/mty-types/src/infer.rs\<close>. Indices are read as the trees
  they stand for (equal indices are equal trees, by the arena invariant of \<open>Ty_Arena\<close>); the slots
  of the substitution are a list, as in the code. \<open>resolve\<close>, \<open>occurs_check\<close> and \<open>unify\<close> follow chains of
  bindings and would not return on a cyclic substitution, so they carry fuel, where \<open>None\<close> means
  that the fuel ran out; on error \<open>unify\<close> returns the substitution with the bindings it had already
  made, as the mutable reference of the code does.

  A substitution is solved by the map that sends every variable to its fully expanded type. The
  lemmas show that on solvable substitutions each loop returns, that the solution is unique, that a
  bind after a passed occurs check keeps the substitution solvable, and that a successful unification
  makes the two types compatible, i.e. equal up to what the unifier deliberately ignores.
\<close>

section \<open>Substitution\<close>

type_synonym substitution = "ty option list"

definition Substitution_new :: substitution where
  "Substitution_new = []"

definition fresh_var :: "substitution \<Rightarrow> substitution \<times> ty_var_id" where
  "fresh_var s = (s @ [None], length s)"

definition bind_var :: "ty_var_id \<Rightarrow> ty \<Rightarrow> substitution \<Rightarrow> substitution" where
  "bind_var v t s =
     (let s1 = (if length s \<le> v then s @ replicate (v + 1 - length s) None else s) in s1[v := Some t])"

definition get_var :: "substitution \<Rightarrow> ty_var_id \<Rightarrow> ty option" where
  "get_var s v = (if v < length s then s ! v else None)"

fun resolve_ty :: "nat \<Rightarrow> substitution \<Rightarrow> ty \<Rightarrow> ty option" where
  "resolve_ty 0 s cur = None"
| "resolve_ty (Suc n) s cur =
     (case node cur of
        TVar v \<Rightarrow>
          (case get_var s v of
             Some nxt \<Rightarrow> if nxt \<noteq> cur then resolve_ty n s nxt else Some cur
           | None \<Rightarrow> Some cur)
      | _ \<Rightarrow> Some cur)"

section \<open>Unification\<close>

datatype unify_error = Mismatch | Occurs | ArityMismatch

type_synonym unify_result = "substitution \<times> (unify_error, unit) result"

fun any_opt :: "('a \<Rightarrow> bool option) \<Rightarrow> 'a list \<Rightarrow> bool option" where
  "any_opt f [] = Some False"
| "any_opt f (x # xs) =
     (case f x of None \<Rightarrow> None | Some True \<Rightarrow> Some True | Some False \<Rightarrow> any_opt f xs)"

primrec occurs_check :: "nat \<Rightarrow> ty_var_id \<Rightarrow> ty \<Rightarrow> substitution \<Rightarrow> bool option" where
  "occurs_check 0 v t s = None"
| "occurs_check (Suc n) v t s =
     (case resolve_ty n s t of
        None \<Rightarrow> None
      | Some t' \<Rightarrow>
          (case node t' of
             TVar w \<Rightarrow> Some (w = v)
           | TTuple xs \<Rightarrow> any_opt (\<lambda>x. occurs_check n v x s) xs
           | TArray e _ \<Rightarrow> occurs_check n v e s
           | TRef _ i \<Rightarrow> occurs_check n v i s
           | TFn ps r _ \<Rightarrow>
               (case any_opt (\<lambda>x. occurs_check n v x s) ps of
                  None \<Rightarrow> None | Some True \<Rightarrow> Some True | Some False \<Rightarrow> occurs_check n v r s)
           | TAdt _ args \<Rightarrow> any_opt (\<lambda>x. occurs_check n v x s) args
           | TRawPtr i \<Rightarrow> occurs_check n v i s
           | _ \<Rightarrow> Some False))"

definition unify_int :: "int_kind \<Rightarrow> int_kind \<Rightarrow> (unify_error, unit) result" where
  "unify_int k1 k2 =
     (if k1 = k2 then Inr () else if k1 = IntInfer \<or> k2 = IntInfer then Inr () else Inl Mismatch)"

definition unify_float :: "float_kind \<Rightarrow> float_kind \<Rightarrow> (unify_error, unit) result" where
  "unify_float k1 k2 =
     (if k1 = k2 then Inr () else if k1 = FloatInfer \<or> k2 = FloatInfer then Inr () else Inl Mismatch)"

fun unify_all ::
  "(ty \<Rightarrow> ty \<Rightarrow> substitution \<Rightarrow> unify_result option) \<Rightarrow> (ty \<times> ty) list \<Rightarrow> substitution \<Rightarrow> unify_result option" where
  "unify_all f [] s = Some (s, Inr ())"
| "unify_all f ((x, y) # ps) s =
     (case f x y s of
        None \<Rightarrow> None
      | Some (s1, Inl e) \<Rightarrow> Some (s1, Inl e)
      | Some (s1, Inr _) \<Rightarrow> unify_all f ps s1)"

definition unify_bind :: "nat \<Rightarrow> ty_var_id \<Rightarrow> ty \<Rightarrow> substitution \<Rightarrow> unify_result option" where
  "unify_bind n v t s =
     (case occurs_check n v t s of
        None \<Rightarrow> None
      | Some True \<Rightarrow> Some (s, Inl Occurs)
      | Some False \<Rightarrow> Some (bind_var v t s, Inr ()))"

definition unify_heads ::
  "(ty \<Rightarrow> ty \<Rightarrow> substitution \<Rightarrow> unify_result option) \<Rightarrow> ty ty_data \<Rightarrow> ty ty_data \<Rightarrow> substitution \<Rightarrow>
   unify_result option" where
  "unify_heads f av bv s =
     (case av of
        TInt k1 \<Rightarrow> (case bv of TInt k2 \<Rightarrow> Some (s, unify_int k1 k2) | _ \<Rightarrow> Some (s, Inl Mismatch))
      | TFloat k1 \<Rightarrow> (case bv of TFloat k2 \<Rightarrow> Some (s, unify_float k1 k2) | _ \<Rightarrow> Some (s, Inl Mismatch))
      | TTuple xs \<Rightarrow>
          (case bv of
             TTuple ys \<Rightarrow>
               if length xs \<noteq> length ys then Some (s, Inl ArityMismatch) else unify_all f (zip xs ys) s
           | _ \<Rightarrow> Some (s, Inl Mismatch))
      | TArray e1 l1 \<Rightarrow>
          (case bv of
             TArray e2 l2 \<Rightarrow>
               (case f e1 e2 s of
                  None \<Rightarrow> None
                | Some (s1, Inl e) \<Rightarrow> Some (s1, Inl e)
                | Some (s1, Inr _) \<Rightarrow>
                    Some (s1, case (l1, l2) of
                                (Some a, Some b) \<Rightarrow> if a \<noteq> b then Inl Mismatch else Inr ()
                              | _ \<Rightarrow> Inr ()))
           | _ \<Rightarrow> Some (s, Inl Mismatch))
      | TRef m1 i1 \<Rightarrow>
          (case bv of
             TRef m2 i2 \<Rightarrow> if m1 \<noteq> m2 then Some (s, Inl Mismatch) else f i1 i2 s
           | _ \<Rightarrow> Some (s, Inl Mismatch))
      | TFn p1 r1 _ \<Rightarrow>
          (case bv of
             TFn p2 r2 _ \<Rightarrow>
               if length p1 \<noteq> length p2 then Some (s, Inl ArityMismatch)
               else (case unify_all f (zip p1 p2) s of
                       None \<Rightarrow> None
                     | Some (s1, Inl e) \<Rightarrow> Some (s1, Inl e)
                     | Some (s1, Inr _) \<Rightarrow> f r1 r2 s1)
           | _ \<Rightarrow> Some (s, Inl Mismatch))
      | TAdt d1 args1 \<Rightarrow>
          (case bv of
             TAdt d2 args2 \<Rightarrow>
               if d1 \<noteq> d2 \<or> length args1 \<noteq> length args2 then Some (s, Inl Mismatch)
               else unify_all f (zip args1 args2) s
           | _ \<Rightarrow> Some (s, Inl Mismatch))
      | TRawPtr i1 \<Rightarrow> (case bv of TRawPtr i2 \<Rightarrow> f i1 i2 s | _ \<Rightarrow> Some (s, Inl Mismatch))
      | TParam p1 \<Rightarrow> Some (s, case bv of TParam p2 \<Rightarrow> if p1 = p2 then Inr () else Inl Mismatch | _ \<Rightarrow> Inl Mismatch)
      | TCap f1 _ \<Rightarrow> Some (s, case bv of TCap f2 _ \<Rightarrow> if f1 = f2 then Inr () else Inl Mismatch | _ \<Rightarrow> Inl Mismatch)
      | TDyn a \<Rightarrow> Some (s, case bv of TDyn b \<Rightarrow> if a = b then Inr () else Inl Mismatch | _ \<Rightarrow> Inl Mismatch)
      | TModule a \<Rightarrow> Some (s, case bv of TModule b \<Rightarrow> if a = b then Inr () else Inl Mismatch | _ \<Rightarrow> Inl Mismatch)
      | TBool \<Rightarrow> Some (s, case bv of TBool \<Rightarrow> Inr () | _ \<Rightarrow> Inl Mismatch)
      | TChar \<Rightarrow> Some (s, case bv of TChar \<Rightarrow> Inr () | _ \<Rightarrow> Inl Mismatch)
      | TStr \<Rightarrow> Some (s, case bv of TStr \<Rightarrow> Inr () | _ \<Rightarrow> Inl Mismatch)
      | TString \<Rightarrow> Some (s, case bv of TString \<Rightarrow> Inr () | _ \<Rightarrow> Inl Mismatch)
      | TBytes \<Rightarrow> Some (s, case bv of TBytes \<Rightarrow> Inr () | _ \<Rightarrow> Inl Mismatch)
      | TUnit \<Rightarrow> Some (s, case bv of TUnit \<Rightarrow> Inr () | _ \<Rightarrow> Inl Mismatch)
      | TDuration \<Rightarrow> Some (s, case bv of TDuration \<Rightarrow> Inr () | _ \<Rightarrow> Inl Mismatch)
      | TSize \<Rightarrow> Some (s, case bv of TSize \<Rightarrow> Inr () | _ \<Rightarrow> Inl Mismatch)
      | _ \<Rightarrow> Some (s, Inl Mismatch))"

primrec unify :: "nat \<Rightarrow> ty \<Rightarrow> ty \<Rightarrow> substitution \<Rightarrow> unify_result option" where
  "unify 0 a b s = None"
| "unify (Suc n) a b s =
     (case resolve_ty n s a of
        None \<Rightarrow> None
      | Some a' \<Rightarrow>
          (case resolve_ty n s b of
             None \<Rightarrow> None
           | Some b' \<Rightarrow>
               if a' = b' then Some (s, Inr ())
               else if node a' = TError \<or> node b' = TError then Some (s, Inr ())
               else if node a' = TNever \<or> node b' = TNever then Some (s, Inr ())
               else (case node a' of
                       TVar v \<Rightarrow> unify_bind n v b' s
                     | _ \<Rightarrow>
                         (case node b' of
                            TVar v \<Rightarrow> unify_bind n v a' s
                          | _ \<Rightarrow> unify_heads (unify n) (node a') (node b') s))))"

section \<open>Meaning of types and substitutions\<close>

fun is_var :: "'c ty_data \<Rightarrow> bool" where
  "is_var (TVar _) = True"
| "is_var _ = False"

fun kids :: "'c ty_data \<Rightarrow> 'c list" where
  "kids (TTuple xs) = xs"
| "kids (TArray e _) = [e]"
| "kids (TRef _ i) = [i]"
| "kids (TFn ps r _) = ps @ [r]"
| "kids (TAdt _ args) = args"
| "kids (TRawPtr i) = [i]"
| "kids _ = []"

primrec tsub :: "(ty_var_id \<Rightarrow> ty) \<Rightarrow> ty \<Rightarrow> ty" where
  "tsub \<sigma> (Ty d) = (case map_ty_data (tsub \<sigma>) d of TVar v \<Rightarrow> \<sigma> v | e \<Rightarrow> Ty e)"

primrec tvars :: "ty \<Rightarrow> ty_var_id set" where
  "tvars (Ty d) = (case map_ty_data tvars d of TVar v \<Rightarrow> {v} | e \<Rightarrow> \<Union> (set (kids e)))"

primrec tsize :: "ty \<Rightarrow> nat" where
  "tsize (Ty d) = Suc (sum_list (kids (map_ty_data tsize d)))"

definition same_head :: "'c ty_data \<Rightarrow> 'c ty_data \<Rightarrow> bool" where
  "same_head d e \<longleftrightarrow>
     (case d of
        TInt k \<Rightarrow> (case e of TInt l \<Rightarrow> k = l \<or> k = IntInfer \<or> l = IntInfer | _ \<Rightarrow> False)
      | TFloat k \<Rightarrow> (case e of TFloat l \<Rightarrow> k = l \<or> k = FloatInfer \<or> l = FloatInfer | _ \<Rightarrow> False)
      | TTuple xs \<Rightarrow> (case e of TTuple ys \<Rightarrow> length xs = length ys | _ \<Rightarrow> False)
      | TArray _ l \<Rightarrow> (case e of TArray _ m \<Rightarrow> l = None \<or> m = None \<or> l = m | _ \<Rightarrow> False)
      | TRef m _ \<Rightarrow> (case e of TRef m' _ \<Rightarrow> m = m' | _ \<Rightarrow> False)
      | TFn ps _ _ \<Rightarrow> (case e of TFn qs _ _ \<Rightarrow> length ps = length qs | _ \<Rightarrow> False)
      | TAdt i xs \<Rightarrow> (case e of TAdt j ys \<Rightarrow> i = j \<and> length xs = length ys | _ \<Rightarrow> False)
      | TRawPtr _ \<Rightarrow> (case e of TRawPtr _ \<Rightarrow> True | _ \<Rightarrow> False)
      | TCap f _ \<Rightarrow> (case e of TCap g _ \<Rightarrow> f = g | _ \<Rightarrow> False)
      | _ \<Rightarrow> d = e)"

text \<open>
  Two types are compatible when they are equal up to error and never types, undetermined numeric
  literals, unknown array lengths, effect rows of function types and constraints of capabilities.
\<close>

inductive compat :: "ty \<Rightarrow> ty \<Rightarrow> bool" where
  bottom: "d = TError \<or> e = TError \<or> d = TNever \<or> e = TNever \<Longrightarrow> compat (Ty d) (Ty e)"
| heads: "same_head d e \<Longrightarrow> list_all2 compat (kids d) (kids e) \<Longrightarrow> compat (Ty d) (Ty e)"

definition solved :: "substitution \<Rightarrow> (ty_var_id \<Rightarrow> ty) \<Rightarrow> (ty_var_id \<Rightarrow> nat) \<Rightarrow> bool" where
  "solved s \<sigma> r \<longleftrightarrow>
     (\<forall>v. \<sigma> v = (case get_var s v of None \<Rightarrow> Ty (TVar v) | Some t \<Rightarrow> tsub \<sigma> t)) \<and>
     (\<forall>v w. get_var s v = Some (Ty (TVar w)) \<longrightarrow> r w < r v)"

definition subst_ok :: "substitution \<Rightarrow> bool" where
  "subst_ok s \<longleftrightarrow> (\<exists>\<sigma> r. solved s \<sigma> r)"

definition solution :: "substitution \<Rightarrow> (ty_var_id \<Rightarrow> ty) \<Rightarrow> bool" where
  "solution s \<sigma> \<longleftrightarrow> (\<forall>v. \<sigma> v = (case get_var s v of None \<Rightarrow> Ty (TVar v) | Some t \<Rightarrow> tsub \<sigma> t))"

section \<open>Basic facts\<close>

lemma get_bind_var [simp]: "get_var (bind_var v t s) w = (if w = v then Some t else get_var s w)"
  by (auto simp: get_var_def bind_var_def Let_def nth_append nth_list_update)

lemma set_kids [simp]: "set (kids d) = set_ty_data d"
  by (cases d) auto

lemma kids_map [simp]: "kids (map_ty_data f d) = map f (kids d)"
  by (cases d) auto

lemma is_var_map [simp]: "is_var (map_ty_data f d) = is_var d"
  by (cases d) auto

lemma tsub_var [simp]: "tsub \<sigma> (Ty (TVar v)) = \<sigma> v"
  by simp

lemma tsub_node [simp]: "\<not> is_var d \<Longrightarrow> tsub \<sigma> (Ty d) = Ty (map_ty_data (tsub \<sigma>) d)"
  by (cases d) auto

lemma tvars_var [simp]: "tvars (Ty (TVar v)) = {v}"
  by simp

lemma tvars_node [simp]: "\<not> is_var d \<Longrightarrow> tvars (Ty d) = (\<Union>x \<in> set (kids d). tvars x)"
  by (cases d) auto

declare tsub.simps [simp del] tvars.simps [simp del]

lemma is_varE: "is_var d \<Longrightarrow> (\<And>v. d = TVar v \<Longrightarrow> P) \<Longrightarrow> P"
  by (cases d) auto

lemma tsub_tsub: "tsub \<tau> (tsub \<sigma> t) = tsub (\<lambda>v. tsub \<tau> (\<sigma> v)) t"
proof (induction t)
  case (Ty d)
  then show ?case
    by (cases "is_var d") (auto elim!: is_varE simp: ty_data.map_comp intro!: ty_data.map_cong)
qed

lemma tsub_cong: "(\<And>v. v \<in> tvars t \<Longrightarrow> \<sigma> v = \<tau> v) \<Longrightarrow> tsub \<sigma> t = tsub \<tau> t"
proof (induction t)
  case (Ty d)
  then show ?case
    by (cases "is_var d") (auto elim!: is_varE intro!: ty_data.map_cong)
qed

lemma tsub_TVar [simp]: "tsub (\<lambda>v. Ty (TVar v)) t = t"
proof (induction t)
  case (Ty d)
  then have "map_ty_data (tsub (\<lambda>v. Ty (TVar v))) d = map_ty_data id d" by (intro ty_data.map_cong) auto
  then show ?case by (cases "is_var d") (auto elim!: is_varE simp: ty_data.map_id)
qed

lemma tvars_tsub: "tvars (tsub \<sigma> t) = (\<Union>v \<in> tvars t. tvars (\<sigma> v))"
proof (induction t)
  case (Ty d)
  then show ?case by (cases "is_var d") (auto elim!: is_varE)
qed

lemma finite_tvars [simp]: "finite (tvars t)"
proof (induction t)
  case (Ty d)
  then show ?case
    by (cases "is_var d") (auto elim!: is_varE simp: finite_set simp flip: set_kids)
qed

lemma tsize_pos [simp]: "0 < tsize t"
  by (cases t) simp

lemma tsize_kid: "x \<in> set_ty_data d \<Longrightarrow> tsize x < tsize (Ty d)"
  using member_le_sum_list [of "tsize x" "map tsize (kids d)"] by (auto simp: less_Suc_eq_le)

lemma tsize_tsub_kid: "\<not> is_var d \<Longrightarrow> x \<in> set_ty_data d \<Longrightarrow> tsize (tsub \<sigma> x) < tsize (tsub \<sigma> (Ty d))"
  using tsize_kid [of "tsub \<sigma> x" "map_ty_data (tsub \<sigma>) d"] by (simp add: ty_data.set_map)

lemma tsize_var_in: "v \<in> tvars t \<Longrightarrow> tsize (\<sigma> v) \<le> tsize (tsub \<sigma> t)"
proof (induction t)
  case (Ty d)
  show ?case
  proof (cases "is_var d")
    case False
    then obtain x where "x \<in> set_ty_data d" "v \<in> tvars x" using Ty.prems by auto
    then show ?thesis using Ty.IH tsize_tsub_kid [OF False] by (meson le_less_trans less_imp_le)
  qed (use Ty.prems in \<open>auto elim: is_varE\<close>)
qed

section \<open>Resolution and the occurs check\<close>

lemma solved_sub: "solved s \<sigma> r \<Longrightarrow> get_var s v = Some t \<Longrightarrow> \<sigma> v = tsub \<sigma> t"
  by (auto simp: solved_def split: option.splits)

lemma solved_free: "solved s \<sigma> r \<Longrightarrow> get_var s v = None \<Longrightarrow> \<sigma> v = Ty (TVar v)"
  by (auto simp: solved_def split: option.splits)

lemma solved_not_self: "solved s \<sigma> r \<Longrightarrow> get_var s v \<noteq> Some (Ty (TVar v))"
  by (auto simp: solved_def)

lemma resolve_nonvar: "\<not> is_var (node t) \<Longrightarrow> resolve_ty (Suc n) s t = Some t"
  by (cases "node t") auto

lemma resolve_var:
  "solved s \<sigma> r \<Longrightarrow> resolve_ty (Suc n) s (Ty (TVar v)) =
     (case get_var s v of Some t \<Rightarrow> resolve_ty n s t | None \<Rightarrow> Some (Ty (TVar v)))"
  using solved_not_self by (auto split: option.splits)

declare resolve_ty.simps(2) [simp del]

lemma resolve_returns:
  assumes "solved s \<sigma> r"
  shows "\<exists>n t'. resolve_ty n s t = Some t'"
proof (cases "is_var (node t)")
  case True
  then obtain v where "t = Ty (TVar v)" by (cases t) (auto elim: is_varE)
  moreover have "\<exists>n t'. resolve_ty n s (Ty (TVar v)) = Some t'"
  proof (induction "r v" arbitrary: v rule: less_induct)
    case less
    show ?case
    proof (cases "get_var s v")
      case None
      then show ?thesis using resolve_var [OF assms, of 0 v] by (intro exI [of _ "Suc 0"]) auto
    next
      case (Some t)
      have "\<exists>n t'. resolve_ty n s t = Some t'"
      proof (cases "is_var (node t)")
        case True
        then obtain w where "t = Ty (TVar w)" by (cases t) (auto elim: is_varE)
        then show ?thesis using less Some assms by (auto simp: solved_def)
      qed (use resolve_nonvar in blast)
      then obtain n t' where "resolve_ty n s t = Some t'" by blast
      then have "resolve_ty (Suc n) s (Ty (TVar v)) = Some t'" using resolve_var [OF assms] Some by simp
      then show ?thesis by blast
    qed
  qed
  ultimately show ?thesis by simp
qed (use resolve_nonvar in blast)

lemma resolve_result:
  assumes "solved s \<sigma> r"
  shows "resolve_ty n s t = Some t' \<Longrightarrow>
    tsub \<sigma> t' = tsub \<sigma> t \<and> (\<forall>v. t' = Ty (TVar v) \<longrightarrow> get_var s v = None)"
proof (induction n arbitrary: t)
  case (Suc n)
  show ?case
  proof (cases "is_var (node t)")
    case True
    then obtain v where t: "t = Ty (TVar v)" by (cases t) (auto elim: is_varE)
    show ?thesis
    proof (cases "get_var s v")
      case None
      then have "t' = t" using Suc.prems resolve_var [OF assms] by (simp add: t)
      with None show ?thesis by (simp add: t)
    next
      case (Some u)
      then have "resolve_ty n s u = Some t'" using Suc.prems resolve_var [OF assms, of n v] t by simp
      from Suc.IH [OF this] show ?thesis using solved_sub [OF assms Some] by (simp add: t)
    qed
  next
    case False
    then have "t' = t" using Suc.prems resolve_nonvar by simp
    with False show ?thesis by auto
  qed
qed simp

lemma resolve_mono: "resolve_ty n s t = Some t' \<Longrightarrow> n \<le> m \<Longrightarrow> resolve_ty m s t = Some t'"
proof (induction n arbitrary: m t)
  case (Suc n)
  obtain k where "m = Suc k" "n \<le> k" using Suc.prems(2) by (cases m) auto
  with Suc show ?case
    by (cases "node t") (auto simp: resolve_ty.simps(2) split: option.splits if_splits)
qed simp

lemma any_opt_append:
  "any_opt f (xs @ ys) = (case any_opt f xs of Some False \<Rightarrow> any_opt f ys | r \<Rightarrow> r)"
  by (induction xs) (auto split: option.splits bool.splits)

lemma any_opt_single [simp]: "any_opt f [x] = f x"
  by (auto split: option.splits bool.splits)

declare any_opt.simps(2) [simp del]

lemma occurs_node:
  "occurs_check (Suc n) v t s =
     (case resolve_ty n s t of
        None \<Rightarrow> None
      | Some t' \<Rightarrow> if is_var (node t') then Some (node t' = TVar v)
          else any_opt (\<lambda>x. occurs_check n v x s) (kids (node t')))"
  by (cases "resolve_ty n s t"; simp; cases "node (the (resolve_ty n s t))")
     (auto simp: any_opt_append split: option.splits bool.splits)

declare occurs_check.simps(2) [simp del]

lemma any_opt_mono:
  "any_opt f xs = Some b \<Longrightarrow> (\<And>x b. x \<in> set xs \<Longrightarrow> f x = Some b \<Longrightarrow> g x = Some b) \<Longrightarrow> any_opt g xs = Some b"
  by (induction xs) (auto simp: any_opt.simps(2) split: option.splits bool.splits)

lemma occurs_mono: "occurs_check n v t s = Some b \<Longrightarrow> n \<le> m \<Longrightarrow> occurs_check m v t s = Some b"
proof (induction n arbitrary: m t b)
  case (Suc n)
  obtain k where m: "m = Suc k" "n \<le> k" using Suc.prems(2) by (cases m) auto
  obtain t' where r: "resolve_ty n s t = Some t'" using Suc.prems(1) by (auto simp: occurs_node split: option.splits)
  have "any_opt (\<lambda>x. occurs_check k v x s) (kids (node t')) = Some b"
    if "any_opt (\<lambda>x. occurs_check n v x s) (kids (node t')) = Some b"
    by (rule any_opt_mono [OF that]) (rule Suc.IH [OF _ m(2)])
  with Suc.prems(1) show ?case
    unfolding m occurs_node r resolve_mono [OF r m(2)] option.case by (simp split: if_splits)
qed simp

lemma any_opt_returns:
  fixes f :: "nat \<Rightarrow> 'a \<Rightarrow> bool option"
  assumes "\<And>x. x \<in> set xs \<Longrightarrow> \<exists>n. f n x = Some (P x)"
    and mono: "\<And>n m x b. f n x = Some b \<Longrightarrow> n \<le> m \<Longrightarrow> f m x = Some b"
  shows "\<exists>n. any_opt (f n) xs = Some (\<exists>x \<in> set xs. P x)"
  using assms(1)
proof (induction xs)
  case (Cons x xs)
  obtain n where n: "any_opt (f n) xs = Some (\<exists>x \<in> set xs. P x)" using Cons by auto
  obtain m where m: "f m x = Some (P x)" using Cons.prems by auto
  have "f (max n m) y = Some b" if "f n y = Some b" for y b using mono [OF that] by simp
  then have "any_opt (f (max n m)) xs = Some (\<exists>x \<in> set xs. P x)" using any_opt_mono [OF n] by blast
  moreover have "f (max n m) x = Some (P x)" using m mono by (metis max.cobounded2)
  ultimately show ?case
    by (intro exI [of _ "max n m"]) (auto simp: any_opt.simps(2) split: bool.splits)
qed simp

lemma node_cases: "(\<And>v. t = Ty (TVar v) \<Longrightarrow> P) \<Longrightarrow> (\<And>d. t = Ty d \<Longrightarrow> \<not> is_var d \<Longrightarrow> P) \<Longrightarrow> P"
  by (cases t) (metis is_varE)

text \<open>On a solvable substitution the occurs check returns and decides occurrence in the expanded type.\<close>

lemma occurs_returns:
  assumes ok: "solved s \<sigma> r"
  shows "\<exists>n. occurs_check n v t s = Some (v \<in> tvars (tsub \<sigma> t))"
proof (induction "tsize (tsub \<sigma> t)" arbitrary: t rule: less_induct)
  case less
  obtain n t' where r: "resolve_ty n s t = Some t'" using resolve_returns [OF ok] by blast
  note res = resolve_result [OF ok r]
  show ?case
  proof (cases t' rule: node_cases)
    case (1 w)
    then have "tsub \<sigma> t = Ty (TVar w)" using res solved_free [OF ok] by (metis tsub_var)
    then have "occurs_check (Suc n) v t s = Some (v \<in> tvars (tsub \<sigma> t))"
      by (auto simp: occurs_node r 1)
    then show ?thesis by blast
  next
    case (2 d)
    have eq: "tsub \<sigma> t = tsub \<sigma> (Ty d)" using res 2 by simp
    have "\<exists>n. occurs_check n v x s = Some (v \<in> tvars (tsub \<sigma> x))" if "x \<in> set (kids d)" for x
      using that by (intro less.hyps, unfold eq, intro tsize_tsub_kid [OF 2(2)]) simp
    then obtain m where m: "any_opt (\<lambda>x. occurs_check m v x s) (kids d) = Some (\<exists>x \<in> set (kids d). v \<in> tvars (tsub \<sigma> x))"
      using any_opt_returns [of "kids d" "\<lambda>n x. occurs_check n v x s" "\<lambda>x. v \<in> tvars (tsub \<sigma> x)"]
        occurs_mono by blast
    have "tvars (tsub \<sigma> t) = (\<Union>x \<in> set (kids d). tvars (tsub \<sigma> x))"
      using 2 by (simp add: eq)
    then have "(\<exists>x \<in> set (kids d). v \<in> tvars (tsub \<sigma> x)) = (v \<in> tvars (tsub \<sigma> t))" by simp
    moreover have "any_opt (\<lambda>x. occurs_check (max n m) v x s) (kids d) = Some (\<exists>x \<in> set (kids d). v \<in> tvars (tsub \<sigma> x))"
      using m by (rule any_opt_mono) (rule occurs_mono, assumption, simp)
    moreover have "resolve_ty (max n m) s t = Some t'" using r by (rule resolve_mono) simp
    ultimately have "occurs_check (Suc (max n m)) v t s = Some (v \<in> tvars (tsub \<sigma> t))"
      by (simp add: occurs_node 2)
    then show ?thesis by blast
  qed
qed

lemma occurs_result:
  "solved s \<sigma> r \<Longrightarrow> occurs_check n v t s = Some b \<Longrightarrow> b = (v \<in> tvars (tsub \<sigma> t))"
  using occurs_returns [of s \<sigma> r v t] occurs_mono by (metis le_cases option.inject)

section \<open>Compatibility\<close>

lemma same_head_refl: "same_head d d"
  by (cases d) (auto simp: same_head_def)

lemma same_head_map: "\<not> is_var d \<Longrightarrow> same_head d e \<Longrightarrow> same_head (map_ty_data f d) (map_ty_data f e)"
  by (cases d; cases e) (auto simp: same_head_def)

lemma same_head_var: "same_head (TVar v) e \<longleftrightarrow> e = TVar v"
  by (auto simp: same_head_def)

lemma same_head_not_var: "same_head d e \<Longrightarrow> \<not> is_var d \<Longrightarrow> \<not> is_var e"
  by (cases d) (auto simp: same_head_def split: ty_data.splits)

lemma compat_refl: "compat t t"
proof (induction t)
  case (Ty d)
  then show ?case by (intro heads same_head_refl) (auto intro: list.rel_refl_strong)
qed

lemma compat_tsub: "compat x y \<Longrightarrow> compat (tsub \<tau> x) (tsub \<tau> y)"
proof (induction rule: compat.induct)
  case (bottom d e)
  have "compat (Ty TError) t" "compat t (Ty TError)" "compat (Ty TNever) t" "compat t (Ty TNever)" for t
    by (cases t; simp add: compat.bottom)+
  with bottom show ?case by auto
next
  case (heads d e)
  show ?case
  proof (cases "is_var d")
    case True
    then show ?thesis using heads(1) by (auto elim!: is_varE simp: same_head_var compat_refl)
  next
    case False
    then have "\<not> is_var e" using heads(1) same_head_not_var by blast
    moreover have "list_all2 compat (map (tsub \<tau>) (kids d)) (map (tsub \<tau>) (kids e))"
      using heads(2) by (auto simp: list.rel_map elim: list.rel_mono_strong)
    ultimately show ?thesis using False heads(1) by (simp add: compat.heads same_head_map)
  qed
qed

section \<open>Binding\<close>

text \<open>
  The effect of unification on the solution: nothing, or a further substitution that eliminates at
  least one of the variables of the unified types and introduces no others.
\<close>

definition refines ::
  "ty_var_id set \<Rightarrow> substitution \<Rightarrow> (ty_var_id \<Rightarrow> ty) \<Rightarrow> substitution \<Rightarrow> (ty_var_id \<Rightarrow> ty) \<Rightarrow> bool" where
  "refines W s \<sigma> s' \<sigma>' \<longleftrightarrow> (s' = s \<and> \<sigma>' = \<sigma>) \<or>
     (\<exists>\<tau>. \<sigma>' = (\<lambda>v. tsub \<tau> (\<sigma> v)) \<and> (\<exists>v \<in> W. \<forall>t. tvars (tsub \<tau> t) \<subseteq> (tvars t \<union> W) - {v}))"

lemma refines_refl [simp]: "refines W s \<sigma> s \<sigma>"
  by (simp add: refines_def)

lemma refines_tsub: "refines W s \<sigma> s' \<sigma>' \<Longrightarrow> \<exists>\<tau>. \<forall>t. tsub \<sigma>' t = tsub \<tau> (tsub \<sigma> t)"
  unfolding refines_def using tsub_tsub tsub_TVar by metis

lemma refines_cases:
  assumes "refines W s \<sigma> s' \<sigma>'"
  obtains "s' = s" "\<sigma>' = \<sigma>"
  | \<tau> v where "\<sigma>' = (\<lambda>v. tsub \<tau> (\<sigma> v))" "v \<in> W" "\<And>t. tvars (tsub \<tau> t) \<subseteq> (tvars t \<union> W) - {v}"
  using assms unfolding refines_def by blast

lemma refines_vars:
  assumes "refines W s \<sigma> s' \<sigma>'"
  shows "(s' = s \<and> \<sigma>' = \<sigma>) \<or>
    (\<exists>v \<in> W. \<forall>u. tvars (tsub \<sigma> u) \<subseteq> W \<longrightarrow> tvars (tsub \<sigma>' u) \<subseteq> W - {v})"
  using assms
proof (cases rule: refines_cases)
  case (2 \<tau> v)
  have "tvars (tsub \<sigma>' u) \<subseteq> W - {v}" if "tvars (tsub \<sigma> u) \<subseteq> W" for u
    using 2(3) [of "tsub \<sigma> u"] that by (auto simp: 2(1) tsub_tsub)
  then show ?thesis using 2(2) by blast
qed simp

lemma refines_trans:
  assumes "refines W s \<sigma> s1 \<sigma>1" "refines W s1 \<sigma>1 s2 \<sigma>2"
  shows "refines W s \<sigma> s2 \<sigma>2"
  using assms(1)
proof (cases rule: refines_cases)
  case (2 \<tau>1 v1)
  note t1 = this
  show ?thesis
    using assms(2)
  proof (cases rule: refines_cases)
    case 1
    then show ?thesis using t1 unfolding refines_def by blast
  next
    case (2 \<tau>2 v2)
    have "tvars (tsub (\<lambda>w. tsub \<tau>2 (\<tau>1 w)) t) \<subseteq> (tvars t \<union> W) - {v2}" for t
      using 2(3) [of "tsub \<tau>1 t"] t1(3) [of t] unfolding tsub_tsub by blast
    moreover have "\<sigma>2 = (\<lambda>v. tsub (\<lambda>w. tsub \<tau>2 (\<tau>1 w)) (\<sigma> v))" by (simp add: t1 2 tsub_tsub)
    ultimately show ?thesis using 2(2) unfolding refines_def by blast
  qed
qed (use assms(2) in simp)

lemma refines_mono: "refines W s \<sigma> s' \<sigma>' \<Longrightarrow> W \<subseteq> W' \<Longrightarrow> refines W' s \<sigma> s' \<sigma>'"
  unfolding refines_def by blast

lemma tvars_single: "tvars (tsub (\<lambda>w. if w = v then u else Ty (TVar w)) t) \<subseteq> (tvars t - {v}) \<union> tvars u"
  by (auto simp: tvars_tsub split: if_splits)

lemma bind_solved:
  assumes ok: "solved s \<sigma> r" and free: "get_var s v = None"
    and occ: "v \<notin> tvars (tsub \<sigma> t)" and tvar: "\<And>u. t = Ty (TVar u) \<Longrightarrow> get_var s u = None"
  shows "\<exists>\<sigma>' r'. solved (bind_var v t s) \<sigma>' r' \<and>
    refines (insert v (tvars (tsub \<sigma> t))) s \<sigma> (bind_var v t s) \<sigma>' \<and>
    \<sigma>' v = tsub \<sigma> t \<and> tsub \<sigma>' t = tsub \<sigma> t"
proof -
  define \<tau> where "\<tau> = (\<lambda>w. if w = v then tsub \<sigma> t else Ty (TVar w))"
  define \<sigma>' where "\<sigma>' = (\<lambda>w. tsub \<tau> (\<sigma> w))"
  define m where "m = (case node t of TVar u \<Rightarrow> Suc (r u) | _ \<Rightarrow> 0)"
  define r' where "r' = (\<lambda>w. r w + (if \<sigma> w = Ty (TVar v) then m else 0))"
  have sub: "tsub \<sigma>' u = tsub \<tau> (tsub \<sigma> u)" for u by (simp add: \<sigma>'_def tsub_tsub)
  have keep: "tsub \<tau> u = u" if "v \<notin> tvars u" for u
    by (rule trans [OF tsub_cong tsub_TVar]) (use that in \<open>auto simp: \<tau>_def\<close>)
  have v: "\<sigma>' v = tsub \<sigma> t" using solved_free [OF ok free] by (simp add: \<sigma>'_def \<tau>_def)
  have t: "tsub \<sigma>' t = tsub \<sigma> t" unfolding sub by (rule keep [OF occ])
  have "\<sigma>' w = (case get_var (bind_var v t s) w of None \<Rightarrow> Ty (TVar w) | Some u \<Rightarrow> tsub \<sigma>' u)" for w
  proof (cases "w = v")
    case False
    then show ?thesis
      using solved_free [OF ok, of w] solved_sub [OF ok, of w]
      by (cases "get_var s w") (simp_all add: \<sigma>'_def \<tau>_def sub [unfolded \<sigma>'_def \<tau>_def])
  qed (simp add: v t)
  moreover have "r' u < r' w" if g: "get_var (bind_var v t s) w = Some (Ty (TVar u))" for u w
  proof (cases "w = v")
    case True
    then have tu: "t = Ty (TVar u)" using g by simp
    then have "\<sigma> u = Ty (TVar u)" using tvar solved_free [OF ok] by blast
    moreover have "u \<noteq> v" using occ tu \<open>\<sigma> u = Ty (TVar u)\<close> by auto
    ultimately show ?thesis
      using solved_free [OF ok free] by (simp add: r'_def True m_def tu)
  next
    case False
    then have "get_var s w = Some (Ty (TVar u))" using g by simp
    then have "r u < r w" "\<sigma> w = \<sigma> u" using ok solved_sub [OF ok] by (auto simp: solved_def)
    then show ?thesis by (simp add: r'_def)
  qed
  ultimately have "solved (bind_var v t s) \<sigma>' r'" unfolding solved_def by blast
  moreover have "tvars (tsub \<tau> u) \<subseteq> (tvars u \<union> insert v (tvars (tsub \<sigma> t))) - {v}" for u
    using tvars_single [of v "tsub \<sigma> t" u] occ unfolding \<tau>_def by blast
  then have "refines (insert v (tvars (tsub \<sigma> t))) s \<sigma> (bind_var v t s) \<sigma>'"
    unfolding refines_def \<sigma>'_def by blast
  ultimately show ?thesis using v t by blast
qed

section \<open>Unification\<close>

definition then_post :: "unify_result option \<Rightarrow> (unify_error, unit) result \<Rightarrow> unify_result option" where
  "then_post r post =
     (case r of
        None \<Rightarrow> None
      | Some (s1, Inl e) \<Rightarrow> Some (s1, Inl e)
      | Some (s1, Inr _) \<Rightarrow> Some (s1, post))"

lemma then_post_ok [simp]: "then_post r (Inr ()) = r"
  by (auto simp: then_post_def split: option.splits sum.splits)

lemma then_post_returns: "\<exists>res'. then_post (Some res) post = Some res'"
  by (cases res; cases "snd res") (auto simp: then_post_def)

lemma unify_all_append:
  "unify_all f (ps @ qs) s =
     (case unify_all f ps s of
        None \<Rightarrow> None
      | Some (s1, Inl e) \<Rightarrow> Some (s1, Inl e)
      | Some (s1, Inr _) \<Rightarrow> unify_all f qs s1)"
  by (induction f ps s rule: unify_all.induct) (auto split: option.splits sum.splits)

lemma unify_all_single: "unify_all f [(x, y)] s = f x y s"
  by (auto split: option.splits sum.splits)

declare unify_all.simps(2) [simp del]

lemma unify_heads_mismatch:
  "d \<noteq> e \<Longrightarrow> \<not> same_head d e \<Longrightarrow> \<not> is_var d \<Longrightarrow>
     (\<exists>err. \<forall>f s. unify_heads f d e s = Some (s, Inl err)) \<or>
     (\<exists>x y l m. d = TArray x l \<and> e = TArray y m)"
  by (cases d) (auto simp: unify_heads_def same_head_def unify_int_def unify_float_def split: ty_data.splits)

lemma unify_heads_match:
  "same_head d e \<Longrightarrow> \<not> is_var d \<Longrightarrow> d \<noteq> TError \<Longrightarrow> d \<noteq> TNever \<Longrightarrow>
     length (kids d) = length (kids e) \<and> unify_heads f d e s = unify_all f (zip (kids d) (kids e)) s"
  by (cases d)
     (auto simp: unify_heads_def same_head_def unify_int_def unify_float_def unify_all_single
        unify_all_append split: ty_data.splits option.splits sum.splits)

lemma unify_heads_array:
  "unify_heads f (TArray x l) (TArray y m) s =
     then_post (f x y s) (if l = None \<or> m = None \<or> l = m then Inr () else Inl Mismatch)"
  by (auto simp: unify_heads_def then_post_def split: option.splits sum.splits)

lemma unify_heads_outcome:
  assumes "\<not> is_var d" "d \<noteq> TError" "d \<noteq> TNever"
  obtains err where "\<And>f s. unify_heads f d e s = Some (s, Inl err)"
  | post where "length (kids d) = length (kids e)" "post = Inr () \<Longrightarrow> same_head d e"
      "\<And>f s. unify_heads f d e s = then_post (unify_all f (zip (kids d) (kids e)) s) post"
proof (cases "same_head d e")
  case True
  then show ?thesis using that(2) [of "Inr ()"] unify_heads_match [OF True assms] by simp
next
  case False
  then have "d \<noteq> e" using same_head_refl by blast
  with unify_heads_mismatch [OF this False assms(1)] show ?thesis
  proof (elim disjE exE conjE)
    fix x y l m
    assume "d = TArray x l" "e = TArray y m"
    then show ?thesis
      using that(2) [of "if l = None \<or> m = None \<or> l = m then Inr () else Inl Mismatch"]
      by (cases "l = None \<or> m = None \<or> l = m") (auto simp: unify_heads_array unify_all_single same_head_def)
  qed (use that(1) in blast)
qed

definition agree :: "ty \<Rightarrow> ty \<Rightarrow> (ty_var_id \<Rightarrow> ty) \<Rightarrow> bool" where
  "agree x y \<sigma> \<longleftrightarrow> compat (tsub \<sigma> x) (tsub \<sigma> y)"

definition uvars :: "(ty_var_id \<Rightarrow> ty) \<Rightarrow> ty \<Rightarrow> ty \<Rightarrow> ty_var_id set" where
  "uvars \<sigma> x y = tvars (tsub \<sigma> x) \<union> tvars (tsub \<sigma> y)"

definition sound_result ::
  "ty_var_id set \<Rightarrow> substitution \<Rightarrow> (ty_var_id \<Rightarrow> ty) \<Rightarrow> ((ty_var_id \<Rightarrow> ty) \<Rightarrow> bool) \<Rightarrow> unify_result \<Rightarrow> bool" where
  "sound_result W s \<sigma> P res \<longleftrightarrow>
     (\<exists>\<sigma>' r'. solved (fst res) \<sigma>' r' \<and> refines W s \<sigma> (fst res) \<sigma>' \<and> (snd res = Inr () \<longrightarrow> P \<sigma>'))"

definition sound_unifier :: "(ty \<Rightarrow> ty \<Rightarrow> substitution \<Rightarrow> unify_result option) \<Rightarrow> bool" where
  "sound_unifier f \<longleftrightarrow>
     (\<forall>x y s \<sigma> r res. solved s \<sigma> r \<longrightarrow> f x y s = Some res \<longrightarrow> sound_result (uvars \<sigma> x y) s \<sigma> (agree x y) res)"

lemma agree_refines: "agree x y \<sigma> \<Longrightarrow> refines W s \<sigma> s' \<sigma>' \<Longrightarrow> agree x y \<sigma>'"
  using refines_tsub compat_tsub unfolding agree_def by metis

lemma uvars_refines: "uvars \<sigma> x y \<subseteq> W \<Longrightarrow> refines W s \<sigma> s' \<sigma>' \<Longrightarrow> uvars \<sigma>' x y \<subseteq> W"
  using refines_vars [of W s \<sigma> s' \<sigma>'] unfolding uvars_def by blast

lemma sound_fail: "solved s \<sigma> r \<Longrightarrow> sound_result W s \<sigma> P (s, Inl e)"
  unfolding sound_result_def by auto

lemma sound_same: "solved s \<sigma> r \<Longrightarrow> P \<sigma> \<Longrightarrow> sound_result W s \<sigma> P (s, res)"
  unfolding sound_result_def by auto

lemma unify_all_sound:
  assumes f: "sound_unifier f"
  shows "solved s \<sigma> r \<Longrightarrow> \<forall>(x, y) \<in> set ps. uvars \<sigma> x y \<subseteq> W \<Longrightarrow> unify_all f ps s = Some res \<Longrightarrow>
    sound_result W s \<sigma> (\<lambda>\<sigma>'. \<forall>(x, y) \<in> set ps. agree x y \<sigma>') res"
proof (induction ps arbitrary: s \<sigma> r)
  case (Cons p ps)
  obtain x y where p: "p = (x, y)" by force
  obtain s1 r1 where fx: "f x y s = Some (s1, r1)"
    using Cons.prems(3) by (auto simp: p unify_all.simps(2) split: option.splits)
  obtain \<sigma>1 r' where s1: "solved s1 \<sigma>1 r'" "refines (uvars \<sigma> x y) s \<sigma> s1 \<sigma>1" "r1 = Inr () \<longrightarrow> agree x y \<sigma>1"
    using f Cons.prems(1) fx unfolding sound_unifier_def sound_result_def by fastforce
  have W: "refines W s \<sigma> s1 \<sigma>1" using refines_mono s1(2) Cons.prems(2) p by auto
  show ?case
  proof (cases r1)
    case (Inl e)
    then have "res = (s1, Inl e)" using Cons.prems(3) by (simp add: p unify_all.simps(2) fx)
    then show ?thesis using s1(1) W unfolding sound_result_def by auto
  next
    case (Inr u)
    then have "unify_all f ps s1 = Some res" using Cons.prems(3) by (simp add: p unify_all.simps(2) fx)
    moreover have "\<forall>(x, y) \<in> set ps. uvars \<sigma>1 x y \<subseteq> W"
      using Cons.prems(2) uvars_refines [OF _ W] by fastforce
    ultimately obtain \<sigma>' r'' where s2: "solved (fst res) \<sigma>' r''" "refines W s1 \<sigma>1 (fst res) \<sigma>'"
      "snd res = Inr () \<longrightarrow> (\<forall>(x, y) \<in> set ps. agree x y \<sigma>')"
      using Cons.IH [OF s1(1)] unfolding sound_result_def by blast
    moreover have "agree x y \<sigma>'" using s1(3) Inr agree_refines [OF _ s2(2)] by simp
    ultimately show ?thesis
      using refines_trans [OF W s2(2)] unfolding sound_result_def p by auto
  qed
qed (auto simp: sound_same)

lemma unify_bind_sound:
  assumes ok: "solved s \<sigma> r" and free: "get_var s v = None" and ne: "t \<noteq> Ty (TVar v)"
    and tv: "\<And>u. t = Ty (TVar u) \<Longrightarrow> get_var s u = None" and u: "unify_bind n v t s = Some res"
    and P: "\<And>\<sigma>'. \<sigma>' v = tsub \<sigma>' t \<Longrightarrow> P \<sigma>'"
  shows "sound_result (insert v (tvars (tsub \<sigma> t))) s \<sigma> P res"
proof -
  obtain b where b: "occurs_check n v t s = Some b" using u by (auto simp: unify_bind_def split: option.splits)
  show ?thesis
  proof (cases b)
    case True
    then show ?thesis using u b sound_fail [OF ok] by (auto simp: unify_bind_def)
  next
    case False
    then have "v \<notin> tvars (tsub \<sigma> t)" using occurs_result [OF ok b] by simp
    from bind_solved [OF ok free this tv] obtain \<sigma>' r' where
      "solved (bind_var v t s) \<sigma>' r'" "refines (insert v (tvars (tsub \<sigma> t))) s \<sigma> (bind_var v t s) \<sigma>'"
      "\<sigma>' v = tsub \<sigma>' t" by metis
    moreover have "res = (bind_var v t s, Inr ())" using u b False by (simp add: unify_bind_def)
    ultimately show ?thesis using P unfolding sound_result_def by auto
  qed
qed

lemma compat_bottom:
  "compat (Ty TError) t" "compat t (Ty TError)" "compat (Ty TNever) t" "compat t (Ty TNever)"
  by (cases t; simp add: compat.bottom)+

lemma unify_heads_sound:
  assumes f: "sound_unifier f" and ok: "solved s \<sigma> r" and d: "\<not> is_var d" "d \<noteq> TError" "d \<noteq> TNever"
    and e: "\<not> is_var e" and u: "unify_heads f d e s = Some res"
  shows "sound_result (uvars \<sigma> (Ty d) (Ty e)) s \<sigma> (agree (Ty d) (Ty e)) res"
  using d
proof (cases rule: unify_heads_outcome [where e = e])
  case (1 err)
  then show ?thesis using u sound_fail [OF ok] by auto
next
  case (2 post)
  let ?ps = "zip (kids d) (kids e)"
  obtain res1 where r1: "unify_all f ?ps s = Some res1"
    using u 2(3) by (auto simp: then_post_def split: option.splits)
  have "\<forall>(x, y) \<in> set ?ps. uvars \<sigma> x y \<subseteq> uvars \<sigma> (Ty d) (Ty e)"
    using d(1) e by (fastforce simp: uvars_def dest: set_zip_leftD set_zip_rightD)
  from unify_all_sound [OF f ok this r1] obtain \<sigma>' r' where s': "solved (fst res1) \<sigma>' r'"
    "refines (uvars \<sigma> (Ty d) (Ty e)) s \<sigma> (fst res1) \<sigma>'"
    "snd res1 = Inr () \<longrightarrow> (\<forall>(x, y) \<in> set ?ps. agree x y \<sigma>')"
    unfolding sound_result_def by blast
  have fst: "fst res = fst res1" and "snd res = Inr () \<Longrightarrow> snd res1 = Inr () \<and> post = Inr ()"
    using u 2(3) r1 by (auto simp: then_post_def split: sum.splits prod.splits)
  moreover have "agree (Ty d) (Ty e) \<sigma>'" if "snd res1 = Inr ()" "post = Inr ()"
  proof -
    have "list_all2 (\<lambda>x y. agree x y \<sigma>') (kids d) (kids e)"
      using s'(3) that 2(1) by (auto simp: list_all2_iff)
    then have "list_all2 compat (map (tsub \<sigma>') (kids d)) (map (tsub \<sigma>') (kids e))"
      by (simp add: list.rel_map agree_def)
    then show ?thesis
      using 2(2) that d(1) e by (simp add: agree_def compat.heads same_head_map)
  qed
  ultimately show ?thesis using s' unfolding sound_result_def fst by blast
qed

lemma unify_cases:
  obtains "a = b \<or> node a = TError \<or> node b = TError \<or> node a = TNever \<or> node b = TNever"
  | v where "a \<noteq> b" "a = Ty (TVar v)" "node b \<noteq> TError" "node b \<noteq> TNever"
  | v where "a \<noteq> b" "b = Ty (TVar v)" "\<not> is_var (node a)" "node a \<noteq> TError" "node a \<noteq> TNever"
  | "a \<noteq> b" "\<not> is_var (node a)" "\<not> is_var (node b)" "node a \<noteq> TError" "node a \<noteq> TNever"
      "node b \<noteq> TError" "node b \<noteq> TNever"
  by (metis is_varE ty.collapse)

lemma case_not_var:
  "\<not> is_var d \<Longrightarrow>
   case_ty_data x (\<lambda>_. x) (\<lambda>_. x) x x x x x x x x (\<lambda>_. x) (\<lambda>_ _. x) (\<lambda>_ _. x) (\<lambda>_ _ _. x) (\<lambda>_ _. x) f (\<lambda>_. x)
     (\<lambda>_. x) (\<lambda>_. x) (\<lambda>_ _. x) (\<lambda>_. x) x d = x"
  by (cases d) auto

lemma unify_unfold:
  assumes "resolve_ty n s a = Some a'" "resolve_ty n s b = Some b'"
  shows "a' = b' \<or> node a' = TError \<or> node b' = TError \<or> node a' = TNever \<or> node b' = TNever \<Longrightarrow>
      unify (Suc n) a b s = Some (s, Inr ())"
    "a' \<noteq> b' \<Longrightarrow> a' = Ty (TVar v) \<Longrightarrow> node b' \<noteq> TError \<Longrightarrow> node b' \<noteq> TNever \<Longrightarrow>
      unify (Suc n) a b s = unify_bind n v b' s"
    "a' \<noteq> b' \<Longrightarrow> b' = Ty (TVar v) \<Longrightarrow> \<not> is_var (node a') \<Longrightarrow> node a' \<noteq> TError \<Longrightarrow> node a' \<noteq> TNever \<Longrightarrow>
      unify (Suc n) a b s = unify_bind n v a' s"
    "a' \<noteq> b' \<Longrightarrow> \<not> is_var (node a') \<Longrightarrow> \<not> is_var (node b') \<Longrightarrow> node a' \<noteq> TError \<Longrightarrow> node a' \<noteq> TNever \<Longrightarrow>
      node b' \<noteq> TError \<Longrightarrow> node b' \<noteq> TNever \<Longrightarrow>
      unify (Suc n) a b s = unify_heads (unify n) (node a') (node b') s"
  using assms by (auto simp: case_not_var)

lemma unify_resolves:
  "unify (Suc n) a b s = Some res \<Longrightarrow> \<exists>a' b'. resolve_ty n s a = Some a' \<and> resolve_ty n s b = Some b'"
  by (auto split: option.splits)

declare unify.simps(2) [simp del]

lemma unify_is_sound: "sound_unifier (unify n)"
proof (induction n)
  case (Suc n)
  have "sound_result (uvars \<sigma> a b) s \<sigma> (agree a b) res"
    if ok: "solved s \<sigma> r" and u: "unify (Suc n) a b s = Some res" for a b s \<sigma> r res
  proof -
    obtain a' b' where ab: "resolve_ty n s a = Some a'" "resolve_ty n s b = Some b'"
      using unify_resolves [OF u] by blast
    note ra = resolve_result [OF ok ab(1)] and rb = resolve_result [OF ok ab(2)]
    have eqs: "uvars \<sigma> a b = uvars \<sigma> a' b'" using ra rb by (simp add: uvars_def)
    have "sound_result (uvars \<sigma> a' b') s \<sigma> (agree a' b') res"
    proof (cases rule: unify_cases [of a' b'])
      case 1
      then have "res = (s, Inr ())" using u unify_unfold(1) [OF ab] by simp
      moreover have "agree a' b' \<sigma>"
        using 1 by (cases a'; cases b') (auto simp: agree_def compat_refl compat_bottom)
      ultimately show ?thesis using sound_same [OF ok] by simp
    next
      case (2 v)
      then have "unify_bind n v b' s = Some res" using u unify_unfold(2) [OF ab] by simp
      then have "sound_result (insert v (tvars (tsub \<sigma> b'))) s \<sigma> (agree a' b') res"
        using ra rb 2 by (intro unify_bind_sound [OF ok]) (auto simp: agree_def compat_refl)
      moreover have "\<sigma> v = Ty (TVar v)" using ra 2 solved_free [OF ok] by blast
      ultimately show ?thesis by (simp add: uvars_def 2(2))
    next
      case (3 v)
      then have "unify_bind n v a' s = Some res" using u unify_unfold(3) [OF ab] by simp
      then have "sound_result (insert v (tvars (tsub \<sigma> a'))) s \<sigma> (agree a' b') res"
        using ra rb 3 by (intro unify_bind_sound [OF ok]) (auto simp: agree_def compat_refl)
      moreover have "\<sigma> v = Ty (TVar v)" using rb 3 solved_free [OF ok] by blast
      ultimately show ?thesis by (simp add: uvars_def 3(2))
    next
      case 4
      then have "unify_heads (unify n) (node a') (node b') s = Some res"
        using u unify_unfold(4) [OF ab] by simp
      from unify_heads_sound [OF Suc ok 4(2,4,5,3) this] show ?thesis by simp
    qed
    moreover have "agree a' b' \<sigma>' \<Longrightarrow> refines W s \<sigma> s' \<sigma>' \<Longrightarrow> agree a b \<sigma>'" for \<sigma>' W s'
      using refines_tsub [of W s \<sigma> s' \<sigma>'] ra rb unfolding agree_def by metis
    ultimately show ?thesis unfolding sound_result_def eqs by blast
  qed
  then show ?case unfolding sound_unifier_def by blast
qed (simp add: sound_unifier_def)

section \<open>Termination of unification\<close>

lemma unify_all_mono:
  assumes "\<And>x y s res. f x y s = Some res \<Longrightarrow> g x y s = Some res"
  shows "unify_all f ps s = Some res \<Longrightarrow> unify_all g ps s = Some res"
proof (induction ps arbitrary: s)
  case (Cons p ps)
  obtain x y where p: "p = (x, y)" by force
  obtain s1 r1 where "f x y s = Some (s1, r1)"
    using Cons.prems by (auto simp: p unify_all.simps(2) split: option.splits)
  with assms [OF this] Cons show ?case by (cases r1) (auto simp: p unify_all.simps(2))
qed simp

lemma unify_heads_mono:
  assumes fg: "\<And>x y s res. f x y s = Some res \<Longrightarrow> g x y s = Some res"
    and d: "\<not> is_var d" "d \<noteq> TError" "d \<noteq> TNever" and u: "unify_heads f d e s = Some res"
  shows "unify_heads g d e s = Some res"
  using d
proof (cases rule: unify_heads_outcome [where e = e])
  case (2 post)
  obtain res1 where "unify_all f (zip (kids d) (kids e)) s = Some res1"
    using u 2(3) by (auto simp: then_post_def split: option.splits)
  with unify_all_mono [OF fg this] u 2(3) show ?thesis by simp
qed (use u in auto)

lemma unify_bind_mono: "unify_bind n v t s = Some res \<Longrightarrow> n \<le> m \<Longrightarrow> unify_bind m v t s = Some res"
  using occurs_mono [of n v t s _ m] by (auto simp: unify_bind_def split: option.splits bool.splits)

lemma unify_mono: "unify n a b s = Some res \<Longrightarrow> n \<le> m \<Longrightarrow> unify m a b s = Some res"
proof (induction n arbitrary: m a b s res)
  case (Suc n)
  obtain k where m: "m = Suc k" "n \<le> k" using Suc.prems(2) by (cases m) auto
  obtain a' b' where ab: "resolve_ty n s a = Some a'" "resolve_ty n s b = Some b'"
    using unify_resolves [OF Suc.prems(1)] by blast
  note ab' = resolve_mono [OF ab(1) m(2)] resolve_mono [OF ab(2) m(2)]
  have fg: "unify n x y s = Some res \<Longrightarrow> unify k x y s = Some res" for x y s res
    using Suc.IH m(2) by blast
  show ?case
  proof (cases rule: unify_cases [of a' b'])
    case 1
    then show ?thesis using Suc.prems(1) unify_unfold(1) [OF ab] unify_unfold(1) [OF ab'] m by simp
  next
    case (2 v)
    then show ?thesis
      using Suc.prems(1) unify_unfold(2) [OF ab] unify_unfold(2) [OF ab'] unify_bind_mono [OF _ m(2)] m by simp
  next
    case (3 v)
    then show ?thesis
      using Suc.prems(1) unify_unfold(3) [OF ab] unify_unfold(3) [OF ab'] unify_bind_mono [OF _ m(2)] m by simp
  next
    case 4
    then have u: "unify_heads (unify n) (node a') (node b') s = Some res"
      using Suc.prems(1) unify_unfold(4) [OF ab] by simp
    have "unify_heads (unify k) (node a') (node b') s = Some res"
      using fg by (rule unify_heads_mono [where f = "unify n", OF _ 4(2,4,5) u])
    then show ?thesis using unify_unfold(4) [OF ab'] 4 m by simp
  qed
qed simp

lemma unify_bind_returns: "solved s \<sigma> r \<Longrightarrow> \<exists>n res. unify_bind n v t s = Some res"
proof -
  assume "solved s \<sigma> r"
  then obtain n where "occurs_check n v t s = Some (v \<in> tvars (tsub \<sigma> t))" using occurs_returns by blast
  then show ?thesis by (intro exI [of _ n]) (auto simp: unify_bind_def split: bool.splits)
qed

lemma unify_all_returns:
  assumes H2: "\<And>s' \<sigma>' r' x y v. solved s' \<sigma>' r' \<Longrightarrow> v \<in> V \<Longrightarrow> uvars \<sigma>' x y \<subseteq> V - {v} \<Longrightarrow>
      \<exists>n res. unify n x y s' = Some res"
  shows "solved s \<sigma> r \<Longrightarrow> \<forall>(x, y) \<in> set ps. uvars \<sigma> x y \<subseteq> V \<and> (\<exists>n res. unify n x y s = Some res) \<Longrightarrow>
    \<exists>n res. unify_all (unify n) ps s = Some res"
proof (induction ps arbitrary: s \<sigma> r)
  case (Cons p ps)
  obtain x y where p: "p = (x, y)" by force
  obtain n s1 r1 where fx: "unify n x y s = Some (s1, r1)" and V: "uvars \<sigma> x y \<subseteq> V"
    using Cons.prems(2) by (force simp: p)
  obtain \<sigma>1 r' where s1: "solved s1 \<sigma>1 r'" "refines (uvars \<sigma> x y) s \<sigma> s1 \<sigma>1"
    using unify_is_sound Cons.prems(1) fx unfolding sound_unifier_def sound_result_def by fastforce
  have W: "refines V s \<sigma> s1 \<sigma>1" using refines_mono [OF s1(2) V] .
  have "uvars \<sigma>1 x' y' \<subseteq> V \<and> (\<exists>n res. unify n x' y' s1 = Some res)" if "(x', y') \<in> set ps" for x' y'
  proof -
    have xy: "uvars \<sigma> x' y' \<subseteq> V" "\<exists>n res. unify n x' y' s = Some res" using Cons.prems(2) that by auto
    show ?thesis
      using refines_vars [OF W] uvars_refines [OF xy(1) W] xy H2 [OF s1(1)] unfolding uvars_def
      by (metis Un_subset_iff)
  qed
  then obtain m res where m: "unify_all (unify m) ps s1 = Some res"
    using Cons.IH [OF s1(1)] by blast
  let ?k = "max n m"
  have "unify ?k x y s = Some (s1, r1)" using unify_mono [OF fx] by simp
  moreover have "unify_all (unify ?k) ps s1 = Some res"
    using unify_all_mono [OF _ m, of "unify ?k"] unify_mono [of m _ _ _ _ ?k] by simp
  ultimately show ?case
    by (intro exI [of _ ?k]) (auto simp: p unify_all.simps(2) split: sum.splits)
qed simp

lemma unify_returns_bounded:
  assumes "finite V"
  shows "solved s \<sigma> r \<Longrightarrow> uvars \<sigma> a b \<subseteq> V \<Longrightarrow> \<exists>n res. unify n a b s = Some res"
  using assms
proof (induction V arbitrary: s \<sigma> r a b rule: finite_psubset_induct)
  case (psubset V)
  have H2: "\<exists>n res. unify n x y s' = Some res"
    if "solved s' \<sigma>' r'" "v \<in> V" "uvars \<sigma>' x y \<subseteq> V - {v}" for s' \<sigma>' r' x y v
    using psubset.IH [of "V - {v}" s' \<sigma>' r' x y] that by blast
  show ?case
    using psubset.prems
  proof (induction "tsize (tsub \<sigma> a)" arbitrary: a b rule: less_induct)
    case less
    note ok = less.prems(1)
    obtain na a' nb b' where r: "resolve_ty na s a = Some a'" "resolve_ty nb s b = Some b'"
      using resolve_returns [OF ok] by metis
    have ab: "resolve_ty n s a = Some a'" "resolve_ty n s b = Some b'" if "max na nb \<le> n" for n
      using that resolve_mono [OF r(1)] resolve_mono [OF r(2)] by simp_all
    note ab0 = ab [OF order.refl]
    have eqs: "tsub \<sigma> a' = tsub \<sigma> a" "uvars \<sigma> a' b' \<subseteq> V"
      using resolve_result [OF ok ab0(1)] resolve_result [OF ok ab0(2)] less.prems(2) by (auto simp: uvars_def)
    show ?case
    proof (cases rule: unify_cases [of a' b'])
      case 1
      then show ?thesis using unify_unfold(1) [OF ab0] by blast
    next
      case (2 v)
      obtain n res where "unify_bind n v b' s = Some res" using unify_bind_returns [OF ok] by blast
      then have "unify_bind (max n (max na nb)) v b' s = Some res" by (rule unify_bind_mono) simp
      then show ?thesis using unify_unfold(2) [OF ab [of "max n (max na nb)"]] 2 by fastforce
    next
      case (3 v)
      obtain n res where "unify_bind n v a' s = Some res" using unify_bind_returns [OF ok] by blast
      then have "unify_bind (max n (max na nb)) v a' s = Some res" by (rule unify_bind_mono) simp
      then show ?thesis using unify_unfold(3) [OF ab [of "max n (max na nb)"]] 3 by fastforce
    next
      case 4
      have "\<exists>n res. unify_heads (unify n) (node a') (node b') s = Some res"
        using 4(2,4,5)
      proof (cases rule: unify_heads_outcome [where e = "node b'"])
        case (2 post)
        have "uvars \<sigma> x y \<subseteq> V \<and> (\<exists>n res. unify n x y s = Some res)"
          if "(x, y) \<in> set (zip (kids (node a')) (kids (node b')))" for x y
        proof -
          have xy: "x \<in> set_ty_data (node a')" "y \<in> set_ty_data (node b')"
            using that by (auto dest: set_zip_leftD set_zip_rightD)
          then have "uvars \<sigma> x y \<subseteq> uvars \<sigma> (Ty (node a')) (Ty (node b'))"
            using 4(2,3) unfolding uvars_def by (auto simp del: ty.collapse)
          then have "uvars \<sigma> x y \<subseteq> V" using eqs(2) by simp
          moreover have "tsize (tsub \<sigma> x) < tsize (tsub \<sigma> a)"
            using tsize_tsub_kid [OF 4(2) xy(1), of \<sigma>] eqs(1) by simp
          ultimately show ?thesis using less.hyps ok by blast
        qed
        then have "\<forall>(x, y) \<in> set (zip (kids (node a')) (kids (node b'))).
            uvars \<sigma> x y \<subseteq> V \<and> (\<exists>n res. unify n x y s = Some res)" by (intro ballI) (simp only: split_paired_all prod.case)
        then have "\<exists>n res. unify_all (unify n) (zip (kids (node a')) (kids (node b'))) s = Some res"
          by (intro unify_all_returns [OF _ ok]) (rule H2; assumption)
        then obtain n res where "unify_all (unify n) (zip (kids (node a')) (kids (node b'))) s = Some res"
          by (elim exE)
        then show ?thesis using then_post_returns [of res post] unfolding 2(3) by metis
      qed blast
      then obtain n res where u: "unify_heads (unify n) (node a') (node b') s = Some res" by blast
      have "unify_heads (unify (max n (max na nb))) (node a') (node b') s = Some res"
        by (rule unify_heads_mono [where f = "unify n", OF _ 4(2,4,5) u]) (rule unify_mono, assumption, simp)
      then show ?thesis using unify_unfold(4) [OF ab [of "max n (max na nb)"]] 4 by fastforce
    qed
  qed
qed

text \<open>
  C3. Unification always returns: on a solvable substitution there is an amount of fuel from which on
  \<open>unify\<close> gives one and the same answer for any two types. The occurs check is what keeps
  substitutions solvable, and the empty substitution is solvable.
\<close>

theorem unify_terminates:
  assumes "subst_ok s"
  shows "(\<exists>n res. \<forall>m \<ge> n. unify m a b s = Some res) \<and> subst_ok Substitution_new"
proof
  obtain \<sigma> r where ok: "solved s \<sigma> r" using assms by (auto simp: subst_ok_def)
  have "finite (uvars \<sigma> a b)" by (simp add: uvars_def)
  from unify_returns_bounded [OF this ok] show "\<exists>n res. \<forall>m \<ge> n. unify m a b s = Some res"
    using unify_mono by (metis order.refl)
  have "solved [] (\<lambda>v. Ty (TVar v)) (\<lambda>_. 0)" by (simp add: solved_def get_var_def)
  then show "subst_ok Substitution_new" unfolding subst_ok_def Substitution_new_def by blast
qed

lemma subst_ok_Nil: "subst_ok []"
  unfolding subst_ok_def by (intro exI [of _ "\<lambda>v. Ty (TVar v)"] exI [of _ "\<lambda>_. 0"]) (simp add: solved_def get_var_def)

theorem unify_terminates_witness:
  "\<exists>n res. \<forall>m \<ge> n. unify m (Ty (TTuple [Ty (TVar 0), Ty TBool])) (Ty (TTuple [Ty TBool, Ty (TVar 0)])) [] = Some res"
  using unify_terminates [OF subst_ok_Nil] by blast

lemma solved_solution: "solved s \<sigma> r \<Longrightarrow> solution s \<sigma>"
  unfolding solved_def solution_def by blast

lemma solution_unique:
  assumes ok: "solved s \<sigma> r" and sol: "solution s \<rho>"
  shows "\<rho> v = \<sigma> v"
proof (induction "(tsize (\<sigma> v), r v)" arbitrary: v rule: wf_induct_rule [OF wf_lex_prod [OF wf_less_than wf_less_than]])
  case (1 v)
  show ?case
  proof (cases "get_var s v")
    case None
    then show ?thesis using sol solved_free [OF ok] by (simp add: solution_def)
  next
    case (Some t)
    have eqs: "\<sigma> v = tsub \<sigma> t" "\<rho> v = tsub \<rho> t"
      using solved_sub [OF ok Some] sol Some by (auto simp: solution_def split: option.splits)
    have "\<rho> w = \<sigma> w" if w: "w \<in> tvars t" for w
    proof (cases t rule: node_cases)
      case (1 u)
      then have "r u < r v" "u = w" using ok Some w by (auto simp: solved_def)
      then show ?thesis using 1 eqs \<open>u = w\<close> "1.hyps" by (intro "1.hyps") (auto simp: 1)
    next
      case (2 d)
      then obtain x where x: "x \<in> set_ty_data d" "w \<in> tvars x" using w by auto
      have "tsize (\<sigma> w) < tsize (\<sigma> v)"
        using tsize_var_in [OF x(2), of \<sigma>] tsize_tsub_kid [OF 2(2) x(1), of \<sigma>] eqs(1) 2(1) by simp
      then show ?thesis by (intro "1.hyps") auto
    qed
    then show ?thesis unfolding eqs by (rule tsub_cong)
  qed
qed

text \<open>
  C2. Soundness of unification: whatever \<open>unify\<close> answers, success or error, the substitution it leaves behind
  is solvable, its solution is unique and an instance of the old one; and when the answer is success, the
  solution makes the two types compatible: equal up to error and never types, undetermined numeric
  literals, unknown array lengths, effect rows and capability constraints.
\<close>

theorem unify_sound:
  assumes "subst_ok s" "unify n a b s = Some (s', res)"
  shows "subst_ok s' \<and> (\<exists>!\<sigma>. solution s' \<sigma>) \<and>
    (\<forall>\<sigma>0 \<sigma>. solution s \<sigma>0 \<and> solution s' \<sigma> \<longrightarrow>
       (\<exists>\<tau>. \<forall>t. tsub \<sigma> t = tsub \<tau> (tsub \<sigma>0 t)) \<and> (res = Inr () \<longrightarrow> compat (tsub \<sigma> a) (tsub \<sigma> b)))"
proof -
  obtain \<sigma> r where ok: "solved s \<sigma> r" using assms by (auto simp: subst_ok_def)
  obtain \<sigma>' r' where s': "solved s' \<sigma>' r'" "refines (uvars \<sigma> a b) s \<sigma> s' \<sigma>'" "res = Inr () \<longrightarrow> agree a b \<sigma>'"
    using unify_is_sound [unfolded sound_unifier_def, rule_format, OF ok assms(2)]
    unfolding sound_result_def by auto
  have uniq: "\<rho> = \<sigma>'" if "solution s' \<rho>" for \<rho> using solution_unique [OF s'(1) that] by blast
  have uniq0: "\<rho> = \<sigma>" if "solution s \<rho>" for \<rho> using solution_unique [OF ok that] by blast
  show ?thesis
    using s' uniq uniq0 solved_solution [OF s'(1)] refines_tsub [OF s'(2)]
    unfolding subst_ok_def agree_def by blast
qed

theorem unify_sound_witness:
  "let a = Ty (TTuple [Ty (TVar 0), Ty TBool]); b = Ty (TTuple [Ty TBool, Ty (TVar 0)])
   in \<exists>s'. unify 9 a b [] = Some (s', Inr ()) \<and> subst_ok s'"
proof -
  let ?a = "Ty (TTuple [Ty (TVar 0), Ty TBool])" and ?b = "Ty (TTuple [Ty TBool, Ty (TVar 0)])"
  have "unify 9 ?a ?b [] = Some ([Some (Ty TBool)], Inr ())" by code_simp
  with unify_sound [OF subst_ok_Nil this] show ?thesis by (auto simp: Let_def)
qed

end
