(* ===== verification/Ty_Params.thy ===== *)
theory Ty_Params
  imports Ty_Infer
begin

text \<open>
  Instantiation of type parameters, \<open>substitute_params\<close> of \<^verbatim>\<open>crates/mty-types/src/infer.rs\<close>. It walks an
  interned type and interns the result, so it is a state transformer on the arena; the reference
  definition \<open>psub\<close> does the same on trees. The recursion follows children, whose indices are smaller, so
  fuel one above the index is enough.
\<close>

fun map_st :: "('a \<Rightarrow> 's \<Rightarrow> ('s \<times> 'b) option) \<Rightarrow> 'a list \<Rightarrow> 's \<Rightarrow> ('s \<times> 'b list) option" where
  "map_st f [] s = Some (s, [])"
| "map_st f (x # xs) s =
     (case f x s of
        None \<Rightarrow> None
      | Some (s1, y) \<Rightarrow>
          (case map_st f xs s1 of None \<Rightarrow> None | Some (s2, ys) \<Rightarrow> Some (s2, y # ys)))"

primrec substitute_params ::
  "nat \<Rightarrow> (param_id \<rightharpoonup> ty_id) \<Rightarrow> ty_id \<Rightarrow> ty_arena \<Rightarrow> (ty_arena \<times> ty_id) option" where
  "substitute_params 0 \<rho> ty A = None"
| "substitute_params (Suc n) \<rho> ty A =
     (case arena_get A ty of
        TParam p \<Rightarrow> Some (A, case \<rho> p of Some t \<Rightarrow> t | None \<Rightarrow> ty)
      | TTuple xs \<Rightarrow>
          (case map_st (substitute_params n \<rho>) xs A of
             None \<Rightarrow> None | Some (A1, new) \<Rightarrow> Some (tuple new A1))
      | TArray elem len \<Rightarrow>
          (case substitute_params n \<rho> elem A of
             None \<Rightarrow> None | Some (A1, new_elem) \<Rightarrow> Some (array new_elem len A1))
      | TRef mutable inner \<Rightarrow>
          (case substitute_params n \<rho> inner A of
             None \<Rightarrow> None | Some (A1, new_inner) \<Rightarrow> Some (ref_to mutable new_inner A1))
      | TFn params ret effects \<Rightarrow>
          (case map_st (substitute_params n \<rho>) params A of
             None \<Rightarrow> None
           | Some (A1, p) \<Rightarrow>
               (case substitute_params n \<rho> ret A1 of
                  None \<Rightarrow> None | Some (A2, r) \<Rightarrow> Some (fn_ty p r effects A2)))
      | TAdt i args \<Rightarrow>
          (case map_st (substitute_params n \<rho>) args A of
             None \<Rightarrow> None | Some (A1, new) \<Rightarrow> Some (adt i new A1))
      | TRawPtr inner \<Rightarrow>
          (case substitute_params n \<rho> inner A of
             None \<Rightarrow> None | Some (A1, new_inner) \<Rightarrow> Some (raw_ptr new_inner A1))
      | _ \<Rightarrow> Some (A, ty))"

definition psub_head :: "(param_id \<rightharpoonup> ty) \<Rightarrow> ty ty_data \<Rightarrow> ty" where
  "psub_head \<rho> d =
     (case d of
        TParam p \<Rightarrow> (case \<rho> p of Some t \<Rightarrow> t | None \<Rightarrow> Ty d)
      | TTuple xs \<Rightarrow> if xs = [] then Ty TUnit else Ty d
      | _ \<Rightarrow> Ty d)"

primrec psub :: "(param_id \<rightharpoonup> ty) \<Rightarrow> ty \<Rightarrow> ty" where
  "psub \<rho> (Ty d) = psub_head \<rho> (map_ty_data (psub \<rho>) d)"

text \<open>An arena that extends a base arena, and the trees of its indices.\<close>

definition grown :: "ty_arena \<Rightarrow> ty_arena \<Rightarrow> bool" where
  "grown A0 A \<longleftrightarrow> arena_ok A \<and> extends A0 A"

definition yields :: "ty_arena \<Rightarrow> (ty_arena \<times> ty_id) option \<Rightarrow> ty \<Rightarrow> bool" where
  "yields A res t \<longleftrightarrow>
     (\<exists>A' j. res = Some (A', j) \<and> grown A A' \<and> j < length (storage A') \<and> tree_of A' j = t)"

lemma yieldsD:
  "yields A res t \<Longrightarrow> \<exists>A' j. res = Some (A', j) \<and> grown A A' \<and> j < length (storage A') \<and> tree_of A' j = t"
  by (simp add: yields_def)

lemma grown_refl: "arena_ok A \<Longrightarrow> grown A A"
  by (simp add: grown_def)

lemma grown_trans: "grown A B \<Longrightarrow> grown B C \<Longrightarrow> grown A C"
  unfolding grown_def using extends_trans by blast

lemma yields_grown: "grown A B \<Longrightarrow> yields B res t \<Longrightarrow> yields A res t"
  unfolding yields_def using grown_trans by blast

lemma grown_tree:
  "arena_ok A \<Longrightarrow> grown A B \<Longrightarrow> i < length (storage A) \<Longrightarrow> i < length (storage B) \<and> tree_of B i = tree_of A i"
  using extends_tree_of [of A B i] extends_length [of A B] unfolding grown_def by simp

lemma yields_intern:
  assumes "arena_ok A" "\<And>c. c \<in> set_ty_data d \<Longrightarrow> c < length (storage A)"
  shows "yields A (Some (intern d A)) (Ty (map_ty_data (tree_of A) d))"
proof -
  let ?A = "fst (intern d A)" and ?j = "snd (intern d A)"
  have ok: "arena_ok ?A" "extends A ?A" "?j < length (storage ?A)" "arena_get ?A ?j = d"
    using intern_ok [OF assms] by auto
  have "tree_of ?A c = tree_of A c" if "c \<in> set_ty_data d" for c
    using extends_tree_of [OF assms(1) ok(1,2)] assms(2) that by blast
  then have "tree_of ?A ?j = Ty (map_ty_data (tree_of A) d)"
    unfolding tree_of_unfold [OF ok(1,3)] ok(4) by (auto intro: ty_data.map_cong)
  then show ?thesis using ok unfolding yields_def grown_def by (metis prod.collapse)
qed

lemma map_st_yields:
  assumes "\<And>x B. x \<in> set xs \<Longrightarrow> grown A B \<Longrightarrow> yields B (f x B) (g x)"
  shows "grown A B \<Longrightarrow> \<exists>B' ys. map_st f xs B = Some (B', ys) \<and> grown B B' \<and>
    (\<forall>y \<in> set ys. y < length (storage B')) \<and> map (tree_of B') ys = map g xs"
  using assms
proof (induction xs arbitrary: B)
  case Nil
  then show ?case by (auto simp: grown_def)
next
  case (Cons x xs)
  obtain B1 y where y: "f x B = Some (B1, y)" "grown B B1" "y < length (storage B1)" "tree_of B1 y = g x"
    using Cons.prems(2) [OF _ Cons.prems(1), of x] yieldsD by fastforce
  have A1: "grown A B1" using grown_trans Cons.prems(1) y(2) by blast
  obtain B2 ys where ys: "map_st f xs B1 = Some (B2, ys)" "grown B1 B2"
    "\<forall>y \<in> set ys. y < length (storage B2)" "map (tree_of B2) ys = map g xs"
    using Cons.IH [OF A1] Cons.prems(2) by auto
  have "y < length (storage B2) \<and> tree_of B2 y = g x"
    using grown_tree [OF _ ys(2) y(3)] y(2,4) by (auto simp: grown_def)
  then show ?case using y ys grown_trans by (intro exI [of _ B2] exI [of _ "y # ys"]) auto
qed

text \<open>Every constructor helper of the arena yields the tree of its node.\<close>

lemmas arena_helpers = array_def ref_to_def fn_ty_def adt_def raw_ptr_def

lemma yields_tuple:
  assumes A: "grown TyArena_new A" and xs: "\<forall>x \<in> set xs. x < length (storage A)"
  shows "yields A (Some (tuple xs A)) (psub_head \<rho> (TTuple (map (tree_of A) xs)))"
proof (cases "xs = []")
  case True
  have ok: "arena_ok A" using A by (simp add: grown_def)
  have u: "unit_id < length (storage A)" "arena_get A unit_id = TUnit"
    using A by (auto simp: grown_def extends_def storage_TyArena_new primitives_def unit_id_def arena_get_def)
  have "tree_of A unit_id = Ty TUnit" using tree_of_unfold [OF ok u(1)] u(2) by simp
  then show ?thesis
    using True ok u(1) by (simp add: yields_def tuple_def psub_head_def grown_refl)
next
  case False
  then show ?thesis
    using yields_intern [of A "TTuple xs"] A xs by (simp add: tuple_def psub_head_def grown_def)
qed

lemma substitute_params_node:
  assumes ok: "arena_ok A" and new: "extends TyArena_new A" and B: "grown A B"
    and i: "i < length (storage A)" and n: "i < n"
    and rng: "\<And>p t. \<rho> p = Some t \<Longrightarrow> t < length (storage A)"
  shows "yields B (substitute_params n \<rho> i B) (psub (\<lambda>p. map_option (tree_of A) (\<rho> p)) (tree_of A i))"
  using B i n
proof (induction i arbitrary: n B rule: less_induct)
  case (less i)
  let ?g = "\<lambda>c. psub (\<lambda>p. map_option (tree_of A) (\<rho> p)) (tree_of A c)"
  obtain n' where n: "n = Suc n'" using less.prems(3) by (cases n) auto
  have okB: "arena_ok B" using less.prems(1) by (simp add: grown_def)
  have get: "arena_get B i = arena_get A i"
    using less.prems(1,2) by (auto simp: grown_def extends_def arena_get_def nth_append)
  have goal: "psub (\<lambda>p. map_option (tree_of A) (\<rho> p)) (tree_of A i) =
      psub_head (\<lambda>p. map_option (tree_of A) (\<rho> p)) (map_ty_data ?g (arena_get A i))"
    by (simp add: tree_of_unfold [OF ok less.prems(2)] ty_data.map_comp comp_def)
  have leaf: "yields B (Some (B, i)) (tree_of A i)"
    using grown_tree [OF ok less.prems(1,2)] okB by (simp add: yields_def grown_refl)
  have kid: "yields C (substitute_params n' \<rho> c C) (?g c)"
    if "c \<in> set_ty_data (arena_get A i)" "grown B C" for c C
    using child_less [OF ok less.prems(2) that(1)] less.prems that grown_trans
    by (intro less.IH) (auto simp: n)
  have newB: "grown TyArena_new C" if "grown B C" for C
    using new less.prems(1) that extends_trans unfolding grown_def by blast
  have int: "yields B (Some (intern d C)) (Ty (map_ty_data (tree_of C) d))"
    if "grown B C" "\<forall>c \<in> set_ty_data d. c < length (storage C)" for C d
    using yields_grown [OF that(1) yields_intern] that by (simp add: grown_def)
  show ?case
  proof (cases "arena_get A i")
    case (TParam p)
    then show ?thesis
      using leaf rng grown_tree [OF ok less.prems(1)] okB
      by (auto simp: n get goal psub_head_def yields_def grown_refl tree_of_unfold [OF ok less.prems(2)]
          split: option.splits)
  next
    case (TTuple xs)
    obtain C ys where C: "map_st (substitute_params n' \<rho>) xs B = Some (C, ys)" "grown B C"
      "\<forall>y \<in> set ys. y < length (storage C)" "map (tree_of C) ys = map ?g xs"
      using map_st_yields [of xs B "substitute_params n' \<rho>" ?g B] kid grown_refl [OF okB] TTuple by auto
    then show ?thesis
      using yields_grown [OF C(2) yields_tuple [OF newB [OF C(2)] C(3)]] unfolding goal TTuple
      by (simp add: n get TTuple)
  next
    case (TArray e l)
    obtain C y where "substitute_params n' \<rho> e B = Some (C, y)" "grown B C" "y < length (storage C)" "tree_of C y = ?g e"
      using yieldsD [OF kid [of e B]] TArray grown_refl [OF okB] by auto
    then show ?thesis
      using int [of C "TArray y l"] unfolding goal by (simp add: n get TArray psub_head_def arena_helpers)
  next
    case (TRef m e)
    obtain C y where "substitute_params n' \<rho> e B = Some (C, y)" "grown B C" "y < length (storage C)" "tree_of C y = ?g e"
      using yieldsD [OF kid [of e B]] TRef grown_refl [OF okB] by auto
    then show ?thesis
      using int [of C "TRef m y"] unfolding goal by (simp add: n get TRef psub_head_def arena_helpers)
  next
    case (TRawPtr e)
    obtain C y where "substitute_params n' \<rho> e B = Some (C, y)" "grown B C" "y < length (storage C)" "tree_of C y = ?g e"
      using yieldsD [OF kid [of e B]] TRawPtr grown_refl [OF okB] by auto
    then show ?thesis
      using int [of C "TRawPtr y"] unfolding goal by (simp add: n get TRawPtr psub_head_def arena_helpers)
  next
    case (TAdt a xs)
    obtain C ys where C: "map_st (substitute_params n' \<rho>) xs B = Some (C, ys)" "grown B C"
      "\<forall>y \<in> set ys. y < length (storage C)" "map (tree_of C) ys = map ?g xs"
      using map_st_yields [of xs B "substitute_params n' \<rho>" ?g B] kid grown_refl [OF okB] TAdt by auto
    then show ?thesis
      using int [of C "TAdt a ys"] unfolding goal by (simp add: n get TAdt psub_head_def arena_helpers)
  next
    case (TFn xs r effs)
    obtain C ys where C: "map_st (substitute_params n' \<rho>) xs B = Some (C, ys)" "grown B C"
      "\<forall>y \<in> set ys. y < length (storage C)" "map (tree_of C) ys = map ?g xs"
      using map_st_yields [of xs B "substitute_params n' \<rho>" ?g B] kid grown_refl [OF okB] TFn by auto
    obtain D y where D: "substitute_params n' \<rho> r C = Some (D, y)" "grown C D" "y < length (storage D)" "tree_of D y = ?g r"
      using yieldsD [OF kid [of r C]] TFn C(2) by auto
    have okC: "arena_ok C" using C(2) by (simp add: grown_def)
    have "\<forall>y \<in> set ys. y < length (storage D) \<and> tree_of D y = tree_of C y"
      using grown_tree [OF okC D(2)] C(3) by blast
    then have "map (tree_of D) ys = map ?g xs" "\<forall>y \<in> set ys. y < length (storage D)"
      using C(4) by (metis (no_types, lifting) map_eq_conv, blast)
    then show ?thesis
      using int [OF grown_trans [OF C(2) D(2)], of "TFn ys y effs"] C(1) D(1,3,4) unfolding goal
      by (simp add: n get TFn psub_head_def arena_helpers)
  qed (use leaf tree_of_unfold [OF ok less.prems(2)] in \<open>simp_all add: n get goal psub_head_def\<close>)
qed

text \<open>
  C34. Parameter instantiation refines substitution on trees: on a well-formed arena that contains the
  primitives, with replacements that are allocated indices, fuel one above the index suffices, the arena
  stays well formed and keeps every old index's tree, and the returned index stands for the tree
  in which every parameter with a replacement has been replaced and nothing else has changed (an empty
  tuple becomes the unit type).
\<close>

theorem substitute_params_refines:
  assumes "arena_ok A" "extends TyArena_new A" "i < length (storage A)"
    "\<forall>p t. \<rho> p = Some t \<longrightarrow> t < length (storage A)"
  shows "\<exists>A' j. substitute_params (Suc i) \<rho> i A = Some (A', j) \<and> arena_ok A' \<and>
    (\<forall>k < length (storage A). tree_of A' k = tree_of A k) \<and>
    tree_of A' j = psub (\<lambda>p. map_option (tree_of A) (\<rho> p)) (tree_of A i)"
proof -
  have "yields A (substitute_params (Suc i) \<rho> i A) (psub (\<lambda>p. map_option (tree_of A) (\<rho> p)) (tree_of A i))"
    using assms by (intro substitute_params_node grown_refl) auto
  then show ?thesis using grown_tree [OF assms(1)] unfolding yields_def grown_def by blast
qed

lemma intern_map_None: "arena_ok A \<Longrightarrow> t \<notin> set (storage A) \<Longrightarrow> intern_map A t = None"
  by (cases "intern_map A t") (auto simp: arena_ok_def in_set_conv_nth)

theorem substitute_params_refines_witness:
  "let A = fst (intern (TRef True 26) (fst (intern (TParam 0) TyArena_new)))
   in \<exists>A' j. substitute_params 28 [0 \<mapsto> 0] 27 A = Some (A', j) \<and> tree_of A' j = Ty (TRef True (Ty TBool))"
proof -
  define A1 where "A1 = fst (intern (TParam 0) TyArena_new)"
  define A where "A = fst (intern (TRef True 26) A1)"
  have len0: "length (storage TyArena_new) = 26" by (simp add: storage_TyArena_new primitives_def)
  have new: "intern_map TyArena_new (TParam 0) = None"
    by (rule intern_map_None [OF TyArena_new_ok]) (simp add: storage_TyArena_new primitives_def)
  have st1: "storage A1 = primitives @ [TParam 0]"
    by (simp add: A1_def intern_def new Let_def storage_TyArena_new)
  have ok1: "arena_ok A1" unfolding A1_def by (rule intern_ok(1) [OF TyArena_new_ok]) simp
  have new1: "intern_map A1 (TRef True 26) = None"
    by (rule intern_map_None [OF ok1]) (simp add: st1 primitives_def)
  have st: "storage A = primitives @ [TParam 0, TRef True 26]"
    by (simp add: A_def intern_def new1 Let_def st1)
  have ok: "arena_ok A" unfolding A_def by (rule intern_ok(1) [OF ok1]) (simp add: st1 primitives_def)
  have get: "arena_get A 27 = TRef True 26" "arena_get A 26 = TParam 0" "arena_get A 0 = TBool"
    by (simp_all add: arena_get_def st primitives_def)
  have len: "length (storage A) = 28" by (simp add: st primitives_def)
  have trees: "tree_of A 27 = Ty (TRef True (Ty (TParam 0)))" "tree_of A 0 = Ty TBool"
    using tree_of_unfold [OF ok, of 27] tree_of_unfold [OF ok, of 26] tree_of_unfold [OF ok, of 0]
    by (simp_all add: len get)
  have ext: "extends TyArena_new A" by (simp add: extends_def st storage_TyArena_new)
  have rng: "\<forall>p t. [0 \<mapsto> 0] p = Some t \<longrightarrow> t < length (storage A)" by (simp add: len)
  have "psub (\<lambda>p. map_option (tree_of A) ([0 \<mapsto> 0] p)) (tree_of A 27) = Ty (TRef True (Ty TBool))"
    by (simp add: psub_head_def trees)
  moreover have "Suc 27 = 28" "27 < length (storage A)" by (simp_all add: len)
  ultimately show ?thesis
    using substitute_params_refines [OF ok ext _ rng, of 27]
    unfolding Let_def A1_def [symmetric] A_def [symmetric] by metis
qed

end
