(* ===== verification/Ty_Effects.thy ===== *)
theory Ty_Effects
  imports Ty_Defs
begin

text \<open>
  Effect inference, \<^verbatim>\<open>crates/mty-types/src/effects.rs\<close>: the walk of a function body that collects the
  effects it performs and the functions it calls, the dispatch of built-in higher-order methods
  through their row signatures, and the bounded fixpoint over the call graph. The walker threads the
  pair of the \<open>out\<close> set and the \<open>callees\<close> vector; a hash set is a set. Compared with the reference
  definitions at the end of the walker's section, the walk collects the own effects of every
  expression it reaches, in evaluation order, and the row machinery adds nothing to them.
\<close>

section \<open>The walker\<close>

datatype profile = Host | Web | Edge | Core

definition parse_profile :: "string \<Rightarrow> profile" where
  "parse_profile s =
     (if s = ''core'' then Core else if s = ''edge'' then Edge else if s = ''web'' then Web else Host)"

record known_effects =
  k_alloc :: effect_id
  k_net :: effect_id
  k_fs :: effect_id
  k_clock :: effect_id
  k_dom :: effect_id
  k_model :: effect_id
  k_spawn :: effect_id
  k_time :: effect_id
  k_unsafe :: effect_id

record walk_env =
  we_defs :: def_map
  we_known :: known_effects

type_synonym walk_st = "effect_id set \<times> fn_def_id list"
type_synonym walker = "walk_env \<Rightarrow> fn_id set \<Rightarrow> walk_st \<Rightarrow> walk_st"

definition out_add :: "effect_id set \<Rightarrow> walk_st \<Rightarrow> walk_st" where
  "out_add es s = (es \<union> fst s, snd s)"

definition cap_effects :: "known_effects \<Rightarrow> string \<Rightarrow> effect_id set" where
  "cap_effects k seg =
     (if seg = ''fs'' then {k_fs k} else if seg = ''net'' then {k_net k} else if seg = ''clock'' then {k_clock k}
      else if seg = ''dom'' then {k_dom k} else if seg = ''model'' then {k_model k} else {})"

definition container_effects :: "known_effects \<Rightarrow> string \<Rightarrow> effect_id set" where
  "container_effects k m =
     (if m \<in> {''push'', ''pop'', ''insert'', ''encode'', ''collect'', ''to_string'', ''clone''}
      then {k_alloc k} else {})"

text \<open>
  The effect row of an argument: the walk of a lambda is the walk of its body, so the argument's own
  walker, run on an empty state and with an empty index, gives the body's effects.
\<close>

definition compute_arg_effect_row :: "walk_env \<Rightarrow> arg \<times> walker \<Rightarrow> effect_row option" where
  "compute_arg_effect_row env aw =
     (case arg_value (fst aw) of
        ELambda _ _ _ \<Rightarrow> Some (Closed (fst (snd aw env {} ({}, []))))
      | _ \<Rightarrow> None)"

text \<open>Errors of the unification are ignored; the substitution it leaves is kept.\<close>

fun align_rows :: "row_subst \<Rightarrow> effect_row option list \<Rightarrow> effect_row option list \<Rightarrow> row_subst" where
  "align_rows s (Some e # es) (Some a # as) =
     align_rows (case unify_rows s e a of Some (s', _) \<Rightarrow> s' | None \<Rightarrow> s) es as"
| "align_rows s (_ # es) (_ # as) = align_rows s es as"
| "align_rows s _ _ = s"

definition row_dispatch :: "effect_id \<Rightarrow> row_poly_sig \<Rightarrow> effect_row option list \<Rightarrow> effect_id set" where
  "row_dispatch real_alloc sig arg_rows =
     (let (s, params, ret, _) = instantiate_row_sig sig RowSubst_new;
          s' = align_rows s (drop 1 params) arg_rows
      in (\<lambda>e. if e = ALLOC_PLACEHOLDER then real_alloc else e) ` row_concrete (resolve_row s' ret))"

definition dispatch_row_poly_call :: "walk_env \<Rightarrow> string \<Rightarrow> (arg \<times> walker) list \<Rightarrow> walk_st \<Rightarrow> walk_st" where
  "dispatch_row_poly_call env m args s =
     (case row_sig_of (we_defs env) m of
        None \<Rightarrow> s
      | Some sig \<Rightarrow>
          out_add (row_dispatch (k_alloc (we_known env)) sig (map (compute_arg_effect_row env) args)) s)"

text \<open>The hook for a call of a user function that was declared with a row variable.\<close>

definition user_row_call :: "walk_env \<Rightarrow> fn_id set \<Rightarrow> fn_def_id \<Rightarrow> (arg \<times> walker) list \<Rightarrow> walk_st \<Rightarrow> walk_st" where
  "user_row_call env idx fid args s =
     (case Option.bind (fn_def_of (we_defs env) fid) fd_hir_fn of
        Some h \<Rightarrow>
          if h \<in> idx
          then seq_all (map (\<lambda>aw. case compute_arg_effect_row env aw of
                               Some r \<Rightarrow> out_add (row_concrete r)
                             | None \<Rightarrow> id) args) s
          else s
      | None \<Rightarrow> s)"

definition call_hook :: "walk_env \<Rightarrow> fn_id set \<Rightarrow> expr \<Rightarrow> (arg \<times> walker) list \<Rightarrow> walk_st \<Rightarrow> walk_st" where
  "call_hook env idx callee args s =
     (case callee of
        EPath [f] \<Rightarrow>
          (case lookup_def (we_defs env) f of
             Some (DFn fid) \<Rightarrow> user_row_call env idx fid args (fst s, snd s @ [fid])
           | _ \<Rightarrow> s)
      | EPath (f # g # hs) \<Rightarrow>
          out_add (container_effects (we_known env) (last (g # hs)))
            (dispatch_row_poly_call env (last (g # hs)) args (out_add (cap_effects (we_known env) f) s))
      | _ \<Rightarrow> s)"

definition walk_args_sink :: "walk_env \<Rightarrow> fn_id set \<Rightarrow> walker list \<Rightarrow> walk_st \<Rightarrow> walk_st" where
  "walk_args_sink env idx ws s =
     seq_all (map (\<lambda>w s. let (sink, cs) = w env idx ({}, snd s) in (sink \<union> fst s, cs)) ws) s"

definition method_args :: "walk_env \<Rightarrow> fn_id set \<Rightarrow> string \<Rightarrow> (arg \<times> walker) list \<Rightarrow> walk_st \<Rightarrow> walk_st" where
  "method_args env idx m args s =
     (case row_sig_of (we_defs env) m of
        Some sig \<Rightarrow>
          walk_args_sink env idx (map snd args)
            (out_add (row_dispatch (k_alloc (we_known env)) sig (map (compute_arg_effect_row env) args)) s)
      | None \<Rightarrow> seq_all (map (\<lambda>aw. snd aw env idx) args) s)"

definition method_hook :: "walk_env \<Rightarrow> expr \<Rightarrow> string \<Rightarrow> walk_st \<Rightarrow> walk_st" where
  "method_hook env receiver m s =
     out_add (container_effects (we_known env) m)
       (case receiver of EPath (f # _) \<Rightarrow> out_add (cap_effects (we_known env) f) s | _ \<Rightarrow> s)"

primrec walk_expr_effects :: "expr \<Rightarrow> walker"
  and walk_block_effects :: "block \<Rightarrow> walker"
  and walk_stmt_effects :: "stmt \<Rightarrow> walker"
  and walk_arg_effects :: "arg \<Rightarrow> walker"
  and walk_arm_effects :: "match_arm \<Rightarrow> walker" where
  "walk_expr_effects (ELiteral l) = (\<lambda>k x. id)"
| "walk_expr_effects (EPath p) = (\<lambda>k x. id)"
| "walk_expr_effects (EPathGeneric p ts) = (\<lambda>k x. id)"
| "walk_expr_effects EError = (\<lambda>k x. id)"
| "walk_expr_effects (EBlock b) = walk_block_effects b"
| "walk_expr_effects (ETuple xs) = (\<lambda>k x. seq_all (map (\<lambda>w. w k x) (map walk_expr_effects xs)))"
| "walk_expr_effects (EArray xs) = (\<lambda>k x. seq_all (map (\<lambda>w. w k x) (map walk_expr_effects xs)))"
| "walk_expr_effects (EBinary p l r) = (\<lambda>k x. walk_expr_effects r k x \<circ> walk_expr_effects l k x)"
| "walk_expr_effects (EUnary p r) = walk_expr_effects r"
| "walk_expr_effects (EBorrow m i) = walk_expr_effects i"
| "walk_expr_effects (EMove i) = walk_expr_effects i"
| "walk_expr_effects (ECall c as) = (\<lambda>k x.
     call_hook k x c (zip as (map walk_arg_effects as)) \<circ>
     seq_all (map (\<lambda>w. w k x) (map walk_arg_effects as)) \<circ> walk_expr_effects c k x)"
| "walk_expr_effects (EMethodCall r m as) = (\<lambda>k x.
     method_hook k r m \<circ> method_args k x m (zip as (map walk_arg_effects as)) \<circ> walk_expr_effects r k x)"
| "walk_expr_effects (EField r n) = walk_expr_effects r"
| "walk_expr_effects (EIndex r i) = (\<lambda>k x. walk_expr_effects i k x \<circ> walk_expr_effects r k x)"
| "walk_expr_effects (EIf c t e) = (\<lambda>k x.
     seq_opt (map_option (\<lambda>w. w k x) (map_option walk_expr_effects e)) \<circ> walk_block_effects t k x \<circ>
     walk_expr_effects c k x)"
| "walk_expr_effects (EIfLet p c t e) = (\<lambda>k x.
     seq_opt (map_option (\<lambda>w. w k x) (map_option walk_expr_effects e)) \<circ> walk_block_effects t k x \<circ>
     walk_expr_effects c k x)"
| "walk_expr_effects (EMatch c as) = (\<lambda>k x.
     seq_all (map (\<lambda>w. w k x) (map walk_arm_effects as)) \<circ> walk_expr_effects c k x)"
| "walk_expr_effects (EFor p i b) = (\<lambda>k x. walk_block_effects b k x \<circ> walk_expr_effects i k x)"
| "walk_expr_effects (EWhile c b) = (\<lambda>k x. walk_block_effects b k x \<circ> walk_expr_effects c k x)"
| "walk_expr_effects (EWhileLet p c b) = (\<lambda>k x. walk_block_effects b k x \<circ> walk_expr_effects c k x)"
| "walk_expr_effects (ELoop b) = walk_block_effects b"
| "walk_expr_effects (EReturn e) = (\<lambda>k x. seq_opt (map_option (\<lambda>w. w k x) (map_option walk_expr_effects e)))"
| "walk_expr_effects (EBreak e) = (\<lambda>k x. seq_opt (map_option (\<lambda>w. w k x) (map_option walk_expr_effects e)))"
| "walk_expr_effects EContinue = (\<lambda>k x. id)"
| "walk_expr_effects (EStruct p fs) = (\<lambda>k x.
     seq_all (map (\<lambda>f. snd f k x) (map (map_prod id walk_expr_effects) fs)))"
| "walk_expr_effects (EMap es) = (\<lambda>k x.
     seq_all (map (\<lambda>f. snd f k x \<circ> fst f k x) (map (map_prod walk_expr_effects walk_expr_effects) es)) \<circ>
     out_add {k_alloc (we_known k)})"
| "walk_expr_effects (ESend t m as) = (\<lambda>k x.
     seq_all (map (\<lambda>w. w k x) (map walk_arg_effects as)) \<circ> walk_expr_effects t k x \<circ> out_add {k_spawn (we_known k)})"
| "walk_expr_effects (EAsk t m as) = (\<lambda>k x.
     seq_all (map (\<lambda>w. w k x) (map walk_arg_effects as)) \<circ> walk_expr_effects t k x \<circ> out_add {k_spawn (we_known k)})"
| "walk_expr_effects (EDeadline i d) = (\<lambda>k x.
     walk_expr_effects d k x \<circ> walk_expr_effects i k x \<circ> out_add {k_time (we_known k)})"
| "walk_expr_effects (EQuestion i) = walk_expr_effects i"
| "walk_expr_effects (ESpawn b i) = (\<lambda>k x. walk_expr_effects i k x \<circ> out_add {k_spawn (we_known k)})"
| "walk_expr_effects (EDetach i) = (\<lambda>k x. walk_expr_effects i k x \<circ> out_add {k_spawn (we_known k)})"
| "walk_expr_effects (EJoin i) = walk_expr_effects i"
| "walk_expr_effects (ERun i) = walk_expr_effects i"
| "walk_expr_effects (EHtmlTemplate h) = (\<lambda>k x. out_add {k_alloc (we_known k)})"
| "walk_expr_effects (EUnsafe b) = (\<lambda>k x. walk_block_effects b k x \<circ> out_add {k_unsafe (we_known k)})"
| "walk_expr_effects (EArena n b) = (\<lambda>k x. walk_expr_effects b k x \<circ> out_add {k_alloc (we_known k)})"
| "walk_expr_effects (ETaskScope d b) = walk_block_effects b"
| "walk_expr_effects (EBudget es b) = (\<lambda>k x.
     walk_expr_effects b k x \<circ> seq_all (map (\<lambda>f. snd f k x) (map (map_prod id walk_expr_effects) es)))"
| "walk_expr_effects (ESandbox n es b) = (\<lambda>k x.
     walk_block_effects b k x \<circ> seq_all (map (\<lambda>f. snd f k x) (map (map_prod id walk_expr_effects) es)))"
| "walk_expr_effects (ECast l t) = walk_expr_effects l"
| "walk_expr_effects (ELambda ps r b) = walk_block_effects b"
| "walk_block_effects (Block ss t) = (\<lambda>k x.
     seq_opt (map_option (\<lambda>w. w k x) (map_option walk_expr_effects t)) \<circ>
     seq_all (map (\<lambda>w. w k x) (map walk_stmt_effects ss)))"
| "walk_stmt_effects (SLet p ty i m) = (\<lambda>k x. seq_opt (map_option (\<lambda>w. w k x) (map_option walk_expr_effects i)))"
| "walk_stmt_effects (SExpr e) = walk_expr_effects e"
| "walk_arg_effects (Arg n e) = walk_expr_effects e"
| "walk_arm_effects (Arm p g b) = (\<lambda>k x.
     seq_opt (map_option (\<lambda>w. w k x) (map_option walk_expr_effects g)) \<circ> walk_expr_effects b k x)"

section \<open>What the walk collects\<close>

definition opt_exprs :: "expr list option \<Rightarrow> expr list" where
  "opt_exprs x = (case x of None \<Rightarrow> [] | Some xs \<Rightarrow> xs)"

text \<open>The expressions of a body that the walk reaches, every one after its parts. The duration of a
  task scope is not reached.\<close>

primrec reached :: "expr \<Rightarrow> expr list"
  and reached_block :: "block \<Rightarrow> expr list"
  and reached_stmt :: "stmt \<Rightarrow> expr list"
  and reached_arg :: "arg \<Rightarrow> expr list"
  and reached_arm :: "match_arm \<Rightarrow> expr list" where
  "reached (ELiteral l) = [ELiteral l]"
| "reached (EPath p) = [EPath p]"
| "reached (EPathGeneric p ts) = [EPathGeneric p ts]"
| "reached EError = [EError]"
| "reached (EBlock b) = reached_block b @ [EBlock b]"
| "reached (ETuple xs) = concat (map reached xs) @ [ETuple xs]"
| "reached (EArray xs) = concat (map reached xs) @ [EArray xs]"
| "reached (EBinary p l r) = reached l @ reached r @ [EBinary p l r]"
| "reached (EUnary p r) = reached r @ [EUnary p r]"
| "reached (EBorrow m i) = reached i @ [EBorrow m i]"
| "reached (EMove i) = reached i @ [EMove i]"
| "reached (ECall c as) = reached c @ concat (map reached_arg as) @ [ECall c as]"
| "reached (EMethodCall r m as) = reached r @ concat (map reached_arg as) @ [EMethodCall r m as]"
| "reached (EField r n) = reached r @ [EField r n]"
| "reached (EIndex r i) = reached r @ reached i @ [EIndex r i]"
| "reached (EIf c t e) = reached c @ reached_block t @ opt_exprs (map_option reached e) @ [EIf c t e]"
| "reached (EIfLet p c t e) = reached c @ reached_block t @ opt_exprs (map_option reached e) @ [EIfLet p c t e]"
| "reached (EMatch c as) = reached c @ concat (map reached_arm as) @ [EMatch c as]"
| "reached (EFor p i b) = reached i @ reached_block b @ [EFor p i b]"
| "reached (EWhile c b) = reached c @ reached_block b @ [EWhile c b]"
| "reached (EWhileLet p c b) = reached c @ reached_block b @ [EWhileLet p c b]"
| "reached (ELoop b) = reached_block b @ [ELoop b]"
| "reached (EReturn e) = opt_exprs (map_option reached e) @ [EReturn e]"
| "reached (EBreak e) = opt_exprs (map_option reached e) @ [EBreak e]"
| "reached EContinue = [EContinue]"
| "reached (EStruct p fs) = concat (map snd (map (map_prod id reached) fs)) @ [EStruct p fs]"
| "reached (EMap es) = concat (map (\<lambda>p. fst p @ snd p) (map (map_prod reached reached) es)) @ [EMap es]"
| "reached (ESend t m as) = reached t @ concat (map reached_arg as) @ [ESend t m as]"
| "reached (EAsk t m as) = reached t @ concat (map reached_arg as) @ [EAsk t m as]"
| "reached (EDeadline i d) = reached i @ reached d @ [EDeadline i d]"
| "reached (EQuestion i) = reached i @ [EQuestion i]"
| "reached (ESpawn b i) = reached i @ [ESpawn b i]"
| "reached (EDetach i) = reached i @ [EDetach i]"
| "reached (EJoin i) = reached i @ [EJoin i]"
| "reached (ERun i) = reached i @ [ERun i]"
| "reached (EHtmlTemplate h) = [EHtmlTemplate h]"
| "reached (EUnsafe b) = reached_block b @ [EUnsafe b]"
| "reached (EArena n b) = reached b @ [EArena n b]"
| "reached (ETaskScope d b) = reached_block b @ [ETaskScope d b]"
| "reached (EBudget es b) = concat (map snd (map (map_prod id reached) es)) @ reached b @ [EBudget es b]"
| "reached (ESandbox n es b) = concat (map snd (map (map_prod id reached) es)) @ reached_block b @ [ESandbox n es b]"
| "reached (ECast l t) = reached l @ [ECast l t]"
| "reached (ELambda ps r b) = reached_block b @ [ELambda ps r b]"
| "reached_block (Block ss t) = concat (map reached_stmt ss) @ opt_exprs (map_option reached t)"
| "reached_stmt (SLet p ty i m) = opt_exprs (map_option reached i)"
| "reached_stmt (SExpr e) = reached e"
| "reached_arg (Arg n e) = reached e"
| "reached_arm (Arm p g b) = reached b @ opt_exprs (map_option reached g)"

definition own_effects :: "known_effects \<Rightarrow> expr \<Rightarrow> effect_id set" where
  "own_effects k e =
     (case e of
        ECall (EPath (f # g # hs)) _ \<Rightarrow> cap_effects k f \<union> container_effects k (last (g # hs))
      | EMethodCall r m _ \<Rightarrow>
          (case r of EPath (f # _) \<Rightarrow> cap_effects k f | _ \<Rightarrow> {}) \<union> container_effects k m
      | EMap _ \<Rightarrow> {k_alloc k}
      | EHtmlTemplate _ \<Rightarrow> {k_alloc k}
      | EArena _ _ \<Rightarrow> {k_alloc k}
      | ESend _ _ _ \<Rightarrow> {k_spawn k}
      | EAsk _ _ _ \<Rightarrow> {k_spawn k}
      | ESpawn _ _ \<Rightarrow> {k_spawn k}
      | EDetach _ \<Rightarrow> {k_spawn k}
      | EDeadline _ _ \<Rightarrow> {k_time k}
      | EUnsafe _ \<Rightarrow> {k_unsafe k}
      | _ \<Rightarrow> {})"

definition own_calls :: "def_map \<Rightarrow> expr \<Rightarrow> fn_def_id list" where
  "own_calls d e =
     (case e of
        ECall (EPath [f]) _ \<Rightarrow> (case lookup_def d f of Some (DFn i) \<Rightarrow> [i] | _ \<Rightarrow> [])
      | _ \<Rightarrow> [])"

definition effs :: "walk_env \<Rightarrow> expr list \<Rightarrow> effect_id set" where
  "effs env es = (\<Union>e\<in>set es. own_effects (we_known env) e)"

definition coll :: "walk_env \<Rightarrow> expr list \<Rightarrow> walk_st \<Rightarrow> walk_st" where
  "coll env es s = (fst s \<union> effs env es, snd s @ concat (map (own_calls (we_defs env)) es))"

lemma coll_simps [simp]:
  "coll env [] = id" "coll env (xs @ ys) = coll env ys \<circ> coll env xs"
  by (auto simp: coll_def effs_def fun_eq_iff)

lemma seq_all_simps [simp]: "seq_all [] = id" "seq_all (f # fs) = seq_all fs \<circ> f"
  by (auto simp: seq_all_def fun_eq_iff)

lemma seq_all_coll:
  "(\<And>x. x \<in> set xs \<Longrightarrow> f x = coll env (u x)) \<Longrightarrow> seq_all (map f xs) = coll env (concat (map u xs))"
  by (induction xs) auto

lemma seq_opt_coll:
  "(\<And>x. x \<in> set_option xo \<Longrightarrow> f x = coll env (u x)) \<Longrightarrow>
   seq_opt (map_option f xo) = coll env (opt_exprs (map_option u xo))"
  by (cases xo) (auto simp: seq_opt_def opt_exprs_def fun_eq_iff)

text \<open>The identifiers of the built-in effects are below the placeholder of the row signatures.\<close>

definition known_ok :: "known_effects \<Rightarrow> bool" where
  "known_ok k \<longleftrightarrow> ALLOC_PLACEHOLDER \<notin>
     {k_alloc k, k_net k, k_fs k, k_clock k, k_dom k, k_model k, k_spawn k, k_time k, k_unsafe k}"

lemma placeholder_not_own: "known_ok k \<Longrightarrow> ALLOC_PLACEHOLDER \<notin> own_effects k e"
  unfolding known_ok_def own_effects_def cap_effects_def container_effects_def
  by (simp split: expr.split list.split)

lemma row_ok_new: "row_ok RowSubst_new"
  by (simp add: row_ok_def ranked_def row_lookup_def bt_get_def bt.inv_emp RowSubst_new_def)

lemma align_closure:
  fixes rows :: "effect_row option list"
  defines "s1 \<equiv> fst (row_fresh RowSubst_new)"
  assumes rows: "\<And>r. Some r \<in> set rows \<Longrightarrow> \<exists>E \<subseteq> U. r = Closed E"
  shows "row_concrete (resolve_row (align_rows s1 [Some (Open {} 0)] rows) (Open {} 0)) \<subseteq> U"
    "row_concrete (resolve_row (align_rows s1 [None, Some (Open {} 0)] rows) (Open {} 0)) \<subseteq> U"
proof -
  have n: "row_next RowSubst_new = 0" by (simp add: RowSubst_new_def)
  note fu = fresh_unbound [OF row_ok_new, of "{}", unfolded n, folded s1_def]
  note cu = closure_unify [OF row_ok_new, unfolded n, folded s1_def]
  have one: "row_concrete (resolve_row (align_rows s1 [Some (Open {} 0)] rs) (Open {} 0)) \<subseteq> U"
    if h: "\<And>r. Some r \<in> set rs \<Longrightarrow> \<exists>E \<subseteq> U. r = Closed E" for rs
  proof (cases rs)
    case (Cons r rs')
    show ?thesis
    proof (cases r)
      case (Some e)
      then obtain E where E: "E \<subseteq> U" "e = Closed E" using h [of e] Cons by auto
      then show ?thesis using Cons Some cu by simp
    qed (use Cons fu in simp)
  qed (use fu in simp)
  then show "row_concrete (resolve_row (align_rows s1 [Some (Open {} 0)] rows) (Open {} 0)) \<subseteq> U"
    using rows by blast
  show "row_concrete (resolve_row (align_rows s1 [None, Some (Open {} 0)] rows) (Open {} 0)) \<subseteq> U"
    using one [of "tl rows"] rows fu by (cases rows) auto
qed

lemma row_dispatch_subset:
  assumes sig: "(m, sig) \<in> set row_poly_methods"
    and rows: "\<And>r. Some r \<in> set rows \<Longrightarrow> \<exists>E \<subseteq> U. r = Closed E" and U: "ALLOC_PLACEHOLDER \<notin> U"
  shows "row_dispatch (k_alloc k) sig rows \<subseteq> U \<union> container_effects k m"
proof -
  have n: "row_next RowSubst_new = 0" by (simp add: RowSubst_new_def)
  have cl: "row_dispatch (k_alloc k) sig rows \<subseteq> U" if "(sig, i) \<in> set closure_sigs" for i
  proof -
    have i: "i = 1 \<or> i = 2" using that by (auto simp: closure_sigs_def)
    have keep: "(\<lambda>e. if e = ALLOC_PLACEHOLDER then k_alloc k else e) ` ids \<subseteq> U" if "ids \<subseteq> U" for ids
      using that U by auto
    have ps: "drop 1 (map (\<lambda>j. if j = i then Some (Open {} 0) else None) [0..<Suc i]) \<in>
        {[Some (Open {} 0)], [None, Some (Open {} 0)]}"
      using i by (auto simp: numeral_2_eq_2)
    have al: "row_concrete (resolve_row (align_rows (fst (row_fresh RowSubst_new)) qs rows) (Open {} 0)) \<subseteq> U"
      if "qs \<in> {[Some (Open {} 0)], [None, Some (Open {} 0)]}" for qs
      using that align_closure [of rows, OF rows] by blast
    show ?thesis
      using keep [OF al [OF ps]]
      by (simp only: row_dispatch_def materialise_closure [OF that row_ok_new] n Let_def split_conv)
  qed
  have co: "row_dispatch (k_alloc k) stdlib_iter_collect_sig rows = {k_alloc k}"
    using fresh_unbound [OF row_ok_new]
    by (simp add: row_dispatch_def stdlib_iter_collect_sig_def instantiate_row_sig_def row_fresh_def n Let_def)
  have "(\<exists>i. (sig, i) \<in> set closure_sigs) \<or> sig = stdlib_iter_collect_sig \<and> m = ''collect''"
    using sig unfolding row_poly_methods_def closure_sigs_def list.set insert_iff empty_iff prod.inject by blast
  then show ?thesis using cl co by (auto simp: container_effects_def)
qed

section \<open>The walk collects exactly the own effects\<close>

lemma coll_own: "own_calls (we_defs env) e = [] \<Longrightarrow> out_add (own_effects (we_known env) e) = coll env [e]"
  by (auto simp: out_add_def coll_def effs_def fun_eq_iff)

lemma coll_out_add: "coll env xs \<circ> out_add A = out_add A \<circ> coll env xs"
  by (auto simp: out_add_def coll_def fun_eq_iff)

lemma coll_out_add_comp: "coll env xs \<circ> (out_add A \<circ> f) = out_add A \<circ> (coll env xs \<circ> f)"
  by (auto simp: out_add_def coll_def fun_eq_iff)

lemma out_add_absorb: "A \<subseteq> B \<union> fst s \<Longrightarrow> out_add B (out_add A s) = out_add B s"
  by (auto simp: out_add_def)

lemma placeholder_not_effs: "known_ok (we_known env) \<Longrightarrow> ALLOC_PLACEHOLDER \<notin> effs env es"
  by (auto simp: effs_def placeholder_not_own)

text \<open>The rows of the arguments are closed and lie within what walking the arguments collects.\<close>

lemma arg_rows_within:
  assumes w: "\<And>a. a \<in> set as \<Longrightarrow> walk_arg_effects a env {} = coll env (reached_arg a)"
    and r: "Some r \<in> set (map (compute_arg_effect_row env) (zip as (map walk_arg_effects as)))"
  shows "\<exists>E \<subseteq> effs env (concat (map reached_arg as)). r = Closed E"
proof -
  have "set (zip as (map walk_arg_effects as)) = (\<lambda>a. (a, walk_arg_effects a)) ` set as"
    by (induction as) auto
  then obtain a where a: "a \<in> set as" "compute_arg_effect_row env (a, walk_arg_effects a) = Some r"
    using r by force
  then have "r = Closed (fst (walk_arg_effects a env {} ({}, [])))"
    by (auto simp: compute_arg_effect_row_def split: expr.splits)
  moreover have "effs env (reached_arg a) \<subseteq> effs env (concat (map reached_arg as))"
    using a(1) by (auto simp: effs_def)
  ultimately show ?thesis using w [OF a(1)] by (auto simp: coll_def)
qed

lemma dispatch_within:
  assumes ok: "row_table_ok (we_defs env)" "known_ok (we_known env)"
    and w: "\<And>a. a \<in> set as \<Longrightarrow> walk_arg_effects a env {} = coll env (reached_arg a)"
    and sig: "row_sig_of (we_defs env) m = Some sig"
  shows "row_dispatch (k_alloc (we_known env)) sig
      (map (compute_arg_effect_row env) (zip as (map walk_arg_effects as))) \<subseteq>
    effs env (concat (map reached_arg as)) \<union> container_effects (we_known env) m"
proof (rule row_dispatch_subset)
  show "(m, sig) \<in> set row_poly_methods" using sig ok(1) by (simp add: row_table_ok_def)
qed (use arg_rows_within [OF w] placeholder_not_effs [OF ok(2)] in auto)

lemma call_hook_coll:
  assumes ok: "row_table_ok (we_defs env)" "known_ok (we_known env)"
    and w: "\<And>a. a \<in> set as \<Longrightarrow> walk_arg_effects a env {} = coll env (reached_arg a)"
    and s: "effs env (concat (map reached_arg as)) \<subseteq> fst s"
  shows "call_hook env idx c (zip as (map walk_arg_effects as)) s = coll env [ECall c as] s"
proof -
  let ?aw = "zip as (map walk_arg_effects as)" and ?U = "effs env (concat (map reached_arg as))"
  have rows: "\<exists>E \<subseteq> ?U. r = Closed E" if "Some r \<in> set (map (compute_arg_effect_row env) ?aw)" for r
    using arg_rows_within [OF w that] by simp
  have user: "user_row_call env idx fid ?aw t = t" if t: "fst s \<subseteq> fst t" for fid t
  proof -
    have "(case compute_arg_effect_row env aw of Some r \<Rightarrow> out_add (row_concrete r) | None \<Rightarrow> id) t = t"
      if "aw \<in> set ?aw" for aw
    proof (cases "compute_arg_effect_row env aw")
      case (Some r)
      have "Some r \<in> set (map (compute_arg_effect_row env) ?aw)"
        unfolding set_map Some [symmetric] by (rule imageI [OF that])
      then obtain E where "E \<subseteq> ?U" "r = Closed E" using rows by blast
      then show ?thesis using Some s t by (auto simp: out_add_def prod_eq_iff)
    qed simp
    then have "seq_all (map (\<lambda>aw. case compute_arg_effect_row env aw of
        Some r \<Rightarrow> out_add (row_concrete r) | None \<Rightarrow> id) zs) t = t" if "set zs \<subseteq> set ?aw" for zs
      using that by (induction zs) auto
    then show ?thesis by (simp add: user_row_call_def split: option.split)
  qed
  have disp: "out_add (container_effects (we_known env) m) (dispatch_row_poly_call env m ?aw t) =
      out_add (container_effects (we_known env) m) t" if t: "fst s \<subseteq> fst t" for m t
  proof (cases "row_sig_of (we_defs env) m")
    case (Some sig)
    then show ?thesis
      using dispatch_within [OF ok w Some] s t by (auto simp: dispatch_row_poly_call_def intro!: out_add_absorb)
  qed (simp add: dispatch_row_poly_call_def)
  have oth: "coll env [e] s = out_add (own_effects (we_known env) e) s" if "own_calls (we_defs env) e = []" for e
    using coll_own [OF that] by simp
  show ?thesis
  proof (cases "\<exists>p. c = EPath p")
    case True
    then obtain p where c: "c = EPath p" by blast
    consider "p = []" | f where "p = [f]" | f g hs where "p = f # g # hs" by (metis neq_Nil_conv)
    then show ?thesis
    proof cases
      case 1
      then show ?thesis by (simp add: c call_hook_def oth own_calls_def own_effects_def out_add_def)
    next
      case 2
      then show ?thesis
        by (simp add: c call_hook_def user coll_def effs_def own_calls_def own_effects_def
            split: option.split def_ref.split)
    next
      case 3
      have "fst s \<subseteq> fst (out_add A s)" for A by (simp add: out_add_def)
      then show ?thesis
        using 3 by (simp add: c call_hook_def disp oth own_calls_def own_effects_def)
          (simp add: out_add_def Un_assoc Un_left_commute)
    qed
  next
    case False
    then show ?thesis by (simp add: call_hook_def oth own_calls_def own_effects_def out_add_def split: expr.splits)
  qed
qed

lemma walk_args_sink_coll:
  assumes "\<And>a. a \<in> set as \<Longrightarrow> walk_arg_effects a env idx = coll env (reached_arg a)"
  shows "walk_args_sink env idx (map walk_arg_effects as) = coll env (concat (map reached_arg as))"
proof -
  have "(\<lambda>w s. let (sink, cs) = w env idx ({}, snd s) in (sink \<union> fst s, cs)) (walk_arg_effects a) =
      coll env (reached_arg a)" if "a \<in> set as" for a
    using assms [OF that] by (auto simp: coll_def fun_eq_iff)
  then show ?thesis unfolding walk_args_sink_def map_map comp_def by (intro seq_all_coll) simp
qed

lemma method_coll:
  assumes ok: "row_table_ok (we_defs env)" "known_ok (we_known env)"
    and w: "\<And>a i. a \<in> set as \<Longrightarrow> walk_arg_effects a env i = coll env (reached_arg a)"
  shows "method_hook env r m (method_args env idx m (zip as (map walk_arg_effects as)) s) =
    coll env [EMethodCall r m as] (coll env (concat (map reached_arg as)) s)"
proof -
  let ?U = "effs env (concat (map reached_arg as))" and ?C = "container_effects (we_known env) m"
  have own: "coll env [EMethodCall r m as] t = method_hook env r m t" for t
    by (auto simp: coll_def effs_def own_calls_def own_effects_def method_hook_def out_add_def
        split: expr.split list.split)
  have absorb: "method_hook env r m (coll env xs (out_add A s)) = method_hook env r m (coll env xs s)"
    if "A \<subseteq> effs env xs \<union> ?C" for A xs
    using that by (auto simp: method_hook_def out_add_def coll_def split: expr.split list.split)
  have ws: "map snd (zip as (map walk_arg_effects as)) = map walk_arg_effects as" by simp
  show ?thesis
  proof (cases "row_sig_of (we_defs env) m")
    case None
    have "seq_all (map (\<lambda>aw. snd aw env idx) (zip as (map walk_arg_effects as))) =
        seq_all (map (\<lambda>w. w env idx) (map snd (zip as (map walk_arg_effects as))))" by (simp only: map_map comp_def)
    also have "\<dots> = coll env (concat (map reached_arg as))"
      unfolding ws map_map comp_def using w by (intro seq_all_coll) simp
    finally show ?thesis using None by (simp add: method_args_def own)
  next
    case (Some sig)
    then show ?thesis
      using absorb [OF dispatch_within [OF ok w Some]]
      by (simp add: method_args_def own ws walk_args_sink_coll [OF w])
  qed
qed

lemma walk_parts_coll:
  "(\<And>x. x \<in> set xs \<Longrightarrow> f x k i = coll k (u x)) \<Longrightarrow>
   seq_all (map (\<lambda>w. w k i) (map f xs)) = coll k (concat (map u xs))"
  "(\<And>x. x \<in> set_option xo \<Longrightarrow> f x k i = coll k (u x)) \<Longrightarrow>
   seq_opt (map_option (\<lambda>w. w k i) (map_option f xo)) = coll k (opt_exprs (map_option u xo))"
  "(\<And>x y. x \<in> set ps \<Longrightarrow> y \<in> Basic_BNFs.snds x \<Longrightarrow> f y k i = coll k (u y)) \<Longrightarrow>
   seq_all (map (\<lambda>w. snd w k i) (map (map_prod id f) ps)) = coll k (concat (map snd (map (map_prod id u) ps)))"
  "(\<And>x y. x \<in> set qs \<Longrightarrow> y \<in> Basic_BNFs.fsts x \<Longrightarrow> f y k i = coll k (u y)) \<Longrightarrow>
   (\<And>x y. x \<in> set qs \<Longrightarrow> y \<in> Basic_BNFs.snds x \<Longrightarrow> f y k i = coll k (u y)) \<Longrightarrow>
   seq_all (map (\<lambda>w. snd w k i \<circ> fst w k i) (map (map_prod f f) qs)) =
     coll k (concat (map (\<lambda>p. fst p @ snd p) (map (map_prod u u) qs)))"
proof -
  show "(\<And>x. x \<in> set xs \<Longrightarrow> f x k i = coll k (u x)) \<Longrightarrow>
     seq_all (map (\<lambda>w. w k i) (map f xs)) = coll k (concat (map u xs))"
    unfolding map_map comp_def by (rule seq_all_coll)
  show "(\<And>x. x \<in> set_option xo \<Longrightarrow> f x k i = coll k (u x)) \<Longrightarrow>
     seq_opt (map_option (\<lambda>w. w k i) (map_option f xo)) = coll k (opt_exprs (map_option u xo))"
    unfolding option.map_comp comp_def by (rule seq_opt_coll)
  show "(\<And>x y. x \<in> set ps \<Longrightarrow> y \<in> Basic_BNFs.snds x \<Longrightarrow> f y k i = coll k (u y)) \<Longrightarrow>
     seq_all (map (\<lambda>w. snd w k i) (map (map_prod id f) ps)) = coll k (concat (map snd (map (map_prod id u) ps)))"
    unfolding map_map comp_def snd_map_prod by (rule seq_all_coll) (simp add: snds.simps)
  show "(\<And>x y. x \<in> set qs \<Longrightarrow> y \<in> Basic_BNFs.fsts x \<Longrightarrow> f y k i = coll k (u y)) \<Longrightarrow>
     (\<And>x y. x \<in> set qs \<Longrightarrow> y \<in> Basic_BNFs.snds x \<Longrightarrow> f y k i = coll k (u y)) \<Longrightarrow>
     seq_all (map (\<lambda>w. snd w k i \<circ> fst w k i) (map (map_prod f f) qs)) =
       coll k (concat (map (\<lambda>p. fst p @ snd p) (map (map_prod u u) qs)))"
    unfolding map_map comp_def [of _ "map_prod _ _"] snd_map_prod fst_map_prod
    by (rule seq_all_coll) (simp add: snds.simps fsts.simps)
qed

lemma coll_nodes:
  "coll k [ELiteral l] = id" "coll k [EPath p] = id" "coll k [EPathGeneric p ts] = id" "coll k [EError] = id"
  "coll k [EBlock b] = id" "coll k [ETuple es] = id" "coll k [EArray es] = id" "coll k [EBinary o' e e'] = id"
  "coll k [EUnary u e] = id" "coll k [EBorrow mt e] = id" "coll k [EMove e] = id" "coll k [EField e n] = id"
  "coll k [EIndex e e'] = id" "coll k [EIf e b eo] = id" "coll k [EIfLet pt e b eo] = id"
  "coll k [EMatch e ms] = id" "coll k [EFor pt e b] = id" "coll k [EWhile e b] = id"
  "coll k [EWhileLet pt e b] = id" "coll k [ELoop b] = id" "coll k [EReturn eo] = id" "coll k [EBreak eo] = id"
  "coll k [EContinue] = id" "coll k [EStruct p fs] = id" "coll k [EQuestion e] = id" "coll k [EJoin e] = id"
  "coll k [ERun e] = id" "coll k [ETaskScope eo b] = id" "coll k [EBudget fs e] = id"
  "coll k [ESandbox n ns b] = id" "coll k [ECast e t] = id" "coll k [ELambda ps r b] = id"
  "coll k [EMap mes] = out_add {k_alloc (we_known k)}" "coll k [EHtmlTemplate n] = out_add {k_alloc (we_known k)}"
  "coll k [EArena n e] = out_add {k_alloc (we_known k)}" "coll k [EUnsafe b] = out_add {k_unsafe (we_known k)}"
  "coll k [ESend e n as] = out_add {k_spawn (we_known k)}" "coll k [EAsk e n as] = out_add {k_spawn (we_known k)}"
  "coll k [ESpawn mt e] = out_add {k_spawn (we_known k)}" "coll k [EDetach e] = out_add {k_spawn (we_known k)}"
  "coll k [EDeadline e e'] = out_add {k_time (we_known k)}"
  by (simp_all add: coll_def effs_def own_effects_def own_calls_def out_add_def fun_eq_iff)

lemma call_coll:
  assumes ok: "row_table_ok (we_defs k)" "known_ok (we_known k)"
    and w: "\<And>a i. a \<in> set as \<Longrightarrow> walk_arg_effects a k i = coll k (reached_arg a)"
  shows "call_hook k i c (zip as (map walk_arg_effects as)) \<circ> (coll k (concat (map reached_arg as)) \<circ> f) =
    coll k [ECall c as] \<circ> (coll k (concat (map reached_arg as)) \<circ> f)"
  using call_hook_coll [OF ok w] by (auto simp: fun_eq_iff coll_def)

lemma walk_is_coll:
  assumes ok: "row_table_ok (we_defs k)" "known_ok (we_known k)"
  shows "walk_expr_effects e k i = coll k (reached e)"
    "walk_block_effects b k i = coll k (reached_block b)"
    "walk_stmt_effects st k i = coll k (reached_stmt st)"
    "walk_arg_effects a k i = coll k (reached_arg a)"
    "walk_arm_effects m k i = coll k (reached_arm m)"
proof (induction e and b and st and a and m arbitrary: i and i and i and i and i)
  case (ECall c as)
  have "seq_all (map (\<lambda>w. w k i) (map walk_arg_effects as)) = coll k (concat (map reached_arg as))"
    by (rule walk_parts_coll(1)) (rule ECall)
  then show ?case
    unfolding walk_expr_effects.simps reached.simps coll_simps comp_assoc ECall(1)
    by (simp only: call_coll [OF ok ECall(2)])
next
  case (EMethodCall r n as)
  then show ?case using method_coll [OF ok, of as r n i] by (simp add: fun_eq_iff)
qed (simp_all only: walk_expr_effects.simps walk_block_effects.simps walk_stmt_effects.simps
    walk_arg_effects.simps walk_arm_effects.simps reached.simps reached_block.simps reached_stmt.simps
    reached_arg.simps reached_arm.simps walk_parts_coll coll_nodes coll_simps coll_out_add comp_assoc comp_id id_comp
    coll_out_add_comp)


definition sample_known :: known_effects where
  "sample_known = \<lparr>k_alloc = 0, k_net = 1, k_fs = 2, k_clock = 3, k_dom = 4, k_model = 5, k_spawn = 6,
     k_time = 3, k_unsafe = 7\<rparr>"

lemma sample_ok:
  "row_table_ok (install_row_poly_methods DefMap_default)" "known_ok sample_known"
proof -
  show "row_table_ok (install_row_poly_methods DefMap_default)"
    by (rule install_row_table_ok) (simp add: DefMap_default_def)
qed (simp add: known_ok_def sample_known_def ALLOC_PLACEHOLDER_def)


section \<open>The fixpoint over the call graph\<close>

text \<open>
  The table of inferred effects maps the functions that have a body to their sets. One round reads
  the callees' sets from the snapshot taken at its start, so the order in which the hash map of
  calls is visited does not matter; here it is the list of its entries.
\<close>

type_synonym effect_table = "fn_id \<rightharpoonup> effect_id set"

definition collect_bodies :: "walk_env \<Rightarrow> fn_id set \<Rightarrow> hir_fn list \<Rightarrow> (fn_id \<times> walk_st) list" where
  "collect_bodies env idx fns =
     concat (map (\<lambda>i. case fn_body (fns ! i) of
                        None \<Rightarrow> []
                      | Some b \<Rightarrow> [(i, walk_block_effects b env idx ({}, []))]) [0..<length fns])"

definition union_into :: "fn_id \<Rightarrow> effect_id set \<Rightarrow> effect_table \<times> bool \<Rightarrow> effect_table \<times> bool" where
  "union_into f es st =
     (let cur = (case fst st f of Some c \<Rightarrow> c | None \<Rightarrow> {})
      in ((fst st)(f \<mapsto> cur \<union> es), snd st \<or> \<not> es \<subseteq> cur))"

definition absorb_callee :: "def_map \<Rightarrow> effect_table \<Rightarrow> fn_id \<Rightarrow> effect_table \<times> bool \<Rightarrow> fn_def_id \<Rightarrow> effect_table \<times> bool" where
  "absorb_callee d snapshot f st c =
     (let st1 = (case Option.bind (fn_def_of d c) fd_hir_fn of
                   Some h \<Rightarrow> (case snapshot h of Some es \<Rightarrow> union_into f es st | None \<Rightarrow> st)
                 | None \<Rightarrow> st)
      in case fn_def_of d c of
           Some def \<Rightarrow> union_into f (set (fd_effects def)) st1
         | None \<Rightarrow> st1)"

definition effect_round :: "def_map \<Rightarrow> (fn_id \<times> fn_def_id list) list \<Rightarrow> effect_table \<Rightarrow> effect_table \<times> bool" where
  "effect_round d calls tab =
     foldl (\<lambda>st (f, cs). foldl (absorb_callee d tab f) st cs) (tab, False) calls"

fun effect_rounds :: "nat \<Rightarrow> def_map \<Rightarrow> (fn_id \<times> fn_def_id list) list \<Rightarrow> effect_table \<Rightarrow> effect_table" where
  "effect_rounds 0 d calls tab = tab"
| "effect_rounds (Suc n) d calls tab =
     (let (tab', changed) = effect_round d calls tab
      in if changed then effect_rounds n d calls tab' else tab')"

definition infer_effects :: "walk_env \<Rightarrow> fn_id set \<Rightarrow> hir_fn list \<Rightarrow> effect_table" where
  "infer_effects env idx fns =
     (let ws = collect_bodies env idx fns
      in effect_rounds 32 (we_defs env) (map (\<lambda>(i, s). (i, snd s)) ws) (map_of (map (\<lambda>(i, s). (i, fst s)) ws)))"

text \<open>The reference: one step of the call graph, and what a call adds directly.\<close>

definition call_step :: "def_map \<Rightarrow> (fn_id \<times> fn_def_id list) list \<Rightarrow> (fn_id \<times> fn_id) set" where
  "call_step d calls = {(f, h). \<exists>cs c. (f, cs) \<in> set calls \<and> c \<in> set cs \<and> Option.bind (fn_def_of d c) fd_hir_fn = Some h}"

definition declared_by_callees :: "def_map \<Rightarrow> (fn_id \<times> fn_def_id list) list \<Rightarrow> fn_id \<Rightarrow> effect_id set" where
  "declared_by_callees d calls f =
     {e. \<exists>cs c def. (f, cs) \<in> set calls \<and> c \<in> set cs \<and> fn_def_of d c = Some def \<and> e \<in> set (fd_effects def)}"

definition effs_at :: "effect_table \<Rightarrow> fn_id \<Rightarrow> effect_id set" where
  "effs_at tab f = (case tab f of Some es \<Rightarrow> es | None \<Rightarrow> {})"

definition callee_effs :: "def_map \<Rightarrow> (fn_id \<Rightarrow> effect_id set) \<Rightarrow> fn_def_id \<Rightarrow> effect_id set" where
  "callee_effs d tab c =
     (case fn_def_of d c of
        Some def \<Rightarrow> set (fd_effects def) \<union> (case fd_hir_fn def of Some h \<Rightarrow> tab h | None \<Rightarrow> {})
      | None \<Rightarrow> {})"

definition direct_effs :: "def_map \<Rightarrow> (fn_id \<Rightarrow> effect_id set) \<Rightarrow> (fn_id \<times> fn_def_id list) list \<Rightarrow> fn_id \<Rightarrow> effect_id set" where
  "direct_effs d tab calls f = {e. \<exists>cs c. (f, cs) \<in> set calls \<and> c \<in> set cs \<and> e \<in> callee_effs d tab c}"

lemma union_into_spec:
  "effs_at (fst (union_into f es st)) g = effs_at (fst st) g \<union> (if g = f then es else {})"
  "snd (union_into f es st) \<longleftrightarrow> snd st \<or> \<not> es \<subseteq> effs_at (fst st) f"
  "dom (fst (union_into f es st)) = insert f (dom (fst st))"
  by (auto simp: union_into_def effs_at_def Let_def split: option.splits if_splits)

lemma absorb_callee_spec:
  "effs_at (fst (absorb_callee d tab f st c)) g =
     effs_at (fst st) g \<union> (if g = f then callee_effs d (effs_at tab) c else {})"
  "snd (absorb_callee d tab f st c) \<longleftrightarrow> snd st \<or> \<not> callee_effs d (effs_at tab) c \<subseteq> effs_at (fst st) f"
  "f \<in> dom (fst st) \<Longrightarrow> dom (fst (absorb_callee d tab f st c)) = dom (fst st)"
  by (auto simp: absorb_callee_def callee_effs_def union_into_spec effs_at_def [of tab] Let_def
      split: option.splits if_splits)

lemma absorb_all_spec:
  "effs_at (fst (foldl (absorb_callee d tab f) st cs)) g =
     effs_at (fst st) g \<union> (if g = f then \<Union> (callee_effs d (effs_at tab) ` set cs) else {})"
  "snd (foldl (absorb_callee d tab f) st cs) \<longleftrightarrow>
     snd st \<or> \<not> \<Union> (callee_effs d (effs_at tab) ` set cs) \<subseteq> effs_at (fst st) f"
  "f \<in> dom (fst st) \<Longrightarrow> dom (fst (foldl (absorb_callee d tab f) st cs)) = dom (fst st)"
  by (induction cs arbitrary: st) (auto simp: absorb_callee_spec split: if_splits)

lemma calls_fold_spec:
  defines "run \<equiv> \<lambda>d tab. foldl (\<lambda>st (f, cs). foldl (absorb_callee d tab f) st cs)"
  shows "effs_at (fst (run d tab st calls)) g = effs_at (fst st) g \<union> direct_effs d (effs_at tab) calls g"
    and "\<not> snd (run d tab st calls) \<Longrightarrow> effs_at (fst (run d tab st calls)) g = effs_at (fst st) g"
    and "fst ` set calls \<subseteq> dom (fst st) \<Longrightarrow> dom (fst (run d tab st calls)) = dom (fst st)"
proof (induction calls arbitrary: st)
  case (Cons fc calls)
  obtain f cs where fc: "fc = (f, cs)" by fastforce
  have run: "run d tab st (fc # calls) = run d tab (foldl (absorb_callee d tab f) st cs) calls" for st
    by (simp add: run_def fc)
  {
    case 1
    let ?st = "foldl (absorb_callee d tab f) st cs"
    have "direct_effs d (effs_at tab) (fc # calls) g =
        (if g = f then \<Union> (callee_effs d (effs_at tab) ` set cs) else {}) \<union> direct_effs d (effs_at tab) calls g"
      by (auto simp: direct_effs_def fc)
    then show ?case using Cons.IH(1) [of ?st] run by (simp add: absorb_all_spec Un_assoc)
  next
    case 2
    let ?st = "foldl (absorb_callee d tab f) st cs"
    have mono: "snd s' \<Longrightarrow> snd (run d tab s' cs')" for s' cs'
      unfolding run_def
    proof (induction cs' arbitrary: s')
      case (Cons p cs')
      then show ?case by (cases p) (simp add: absorb_all_spec)
    qed simp
    have "\<not> snd ?st" using 2 mono [of ?st calls] unfolding run by blast
    then show ?case using Cons.IH(2) 2 unfolding run by (auto simp: absorb_all_spec)
  next
    case 3
    let ?st = "foldl (absorb_callee d tab f) st cs"
    have "f \<in> dom (fst st)" using 3 by (simp add: fc)
    then have "dom (fst ?st) = dom (fst st)" by (rule absorb_all_spec)
    then show ?case using 3 Cons.IH(3) [of ?st] unfolding run by (simp add: fc)
  }
qed (simp_all add: run_def direct_effs_def)

lemmas effect_round_spec = calls_fold_spec [where st = "(tab, False)" and tab = tab for tab,
    folded effect_round_def, simplified]

definition spread :: "def_map \<Rightarrow> (fn_id \<times> fn_def_id list) list \<Rightarrow> (fn_id \<Rightarrow> effect_id set) \<Rightarrow> fn_id \<Rightarrow> effect_id set" where
  "spread d calls x f = x f \<union> direct_effs d x calls f"

lemma effect_rounds_spread:
  "fst ` set calls \<subseteq> dom tab \<Longrightarrow>
   effs_at (effect_rounds n d calls tab) = (spread d calls ^^ n) (effs_at tab) \<and>
   dom (effect_rounds n d calls tab) = dom tab"
proof (induction n arbitrary: tab)
  case (Suc n)
  let ?r = "effect_round d calls tab"
  have step: "effs_at (fst ?r) = spread d calls (effs_at tab)" and dm: "dom (fst ?r) = dom tab"
    using effect_round_spec Suc.prems by (auto simp: spread_def fun_eq_iff)
  show ?case
  proof (cases "snd ?r")
    case True
    then show ?thesis
      using Suc.IH [of "fst ?r"] Suc.prems step dm by (simp add: split_beta funpow_swap1)
  next
    case False
    then have fp: "spread d calls (effs_at tab) = effs_at tab"
      using effect_round_spec(2) [OF False] step by (auto simp: fun_eq_iff)
    then have "(spread d calls ^^ m) (effs_at tab) = effs_at tab" for m by (induction m) auto
    then show ?thesis using False step fp dm by (simp add: split_beta)
  qed
qed simp

lemma spread_step:
  "e \<in> spread d calls x f \<longleftrightarrow> e \<in> x f \<or> e \<in> declared_by_callees d calls f \<or> (\<exists>h. (f, h) \<in> call_step d calls \<and> e \<in> x h)"
proof -
  have "e \<in> callee_effs d x c \<longleftrightarrow> (\<exists>def. fn_def_of d c = Some def \<and> e \<in> set (fd_effects def)) \<or>
      (\<exists>h. Option.bind (fn_def_of d c) fd_hir_fn = Some h \<and> e \<in> x h)" for c
    by (auto simp: callee_effs_def split: option.splits)
  then show ?thesis
    unfolding spread_def direct_effs_def declared_by_callees_def call_step_def by blast
qed

text \<open>After \<open>n\<close> rounds a function has the effects of what it reaches by at most \<open>n\<close> calls.\<close>

lemma spread_paths:
  "e \<in> (spread d calls ^^ n) x f \<longleftrightarrow>
     (\<exists>k\<le>n. \<exists>g. (f, g) \<in> call_step d calls ^^ k \<and> e \<in> x g) \<or>
     (\<exists>k<n. \<exists>g. (f, g) \<in> call_step d calls ^^ k \<and> e \<in> declared_by_callees d calls g)"
proof (induction n arbitrary: f)
  case (Suc n)
  let ?R = "call_step d calls" and ?D = "declared_by_callees d calls"
  have split: "(\<exists>k\<le>Suc n. \<exists>g. (f, g) \<in> ?R ^^ k \<and> P g) \<longleftrightarrow>
      P f \<or> (\<exists>h. (f, h) \<in> ?R \<and> (\<exists>k\<le>n. \<exists>g. (h, g) \<in> ?R ^^ k \<and> P g))" for P n
  proof
    assume "\<exists>k\<le>Suc n. \<exists>g. (f, g) \<in> ?R ^^ k \<and> P g"
    then obtain k g where k: "k \<le> Suc n" "(f, g) \<in> ?R ^^ k" "P g" by blast
    show "P f \<or> (\<exists>h. (f, h) \<in> ?R \<and> (\<exists>k\<le>n. \<exists>g. (h, g) \<in> ?R ^^ k \<and> P g))"
    proof (cases k)
      case (Suc j)
      then obtain h where "(f, h) \<in> ?R" "(h, g) \<in> ?R ^^ j" using k(2) by (meson relpow_Suc_D2)
      then show ?thesis using k Suc by (metis Suc_le_mono)
    qed (use k in auto)
  next
    assume "P f \<or> (\<exists>h. (f, h) \<in> ?R \<and> (\<exists>k\<le>n. \<exists>g. (h, g) \<in> ?R ^^ k \<and> P g))"
    then show "\<exists>k\<le>Suc n. \<exists>g. (f, g) \<in> ?R ^^ k \<and> P g"
      by (metis Suc_le_mono le0 relpow_0_I relpow_Suc_I2)
  qed
  have less: "(\<exists>k<Suc m. Q k) \<longleftrightarrow> (\<exists>k\<le>m. Q k)" for m and Q :: "nat \<Rightarrow> bool" by (simp add: less_Suc_eq_le)
  define A where "A n f = (\<exists>k\<le>n. \<exists>g. (f, g) \<in> ?R ^^ k \<and> e \<in> x g)" for n f
  define B where "B n f = (\<exists>k<n. \<exists>g. (f, g) \<in> ?R ^^ k \<and> e \<in> ?D g)" for n f
  have A: "A (Suc n) f \<longleftrightarrow> e \<in> x f \<or> (\<exists>h. (f, h) \<in> ?R \<and> A n h)" unfolding A_def by (rule split)
  have B: "B (Suc n) f \<longleftrightarrow> e \<in> ?D f \<or> (\<exists>h. (f, h) \<in> ?R \<and> B n h)"
  proof (cases n)
    case (Suc m)
    show ?thesis unfolding B_def Suc less by (rule split)
  qed (auto simp: B_def)
  have mono: "A n f \<Longrightarrow> A (Suc n) f" "B n f \<Longrightarrow> B (Suc n) f" "e \<in> x f \<Longrightarrow> A n f"
    unfolding A_def B_def by (metis le_SucI) (metis less_SucI, metis le0 relpow_0_I)
  have "e \<in> (spread d calls ^^ Suc n) x f \<longleftrightarrow> (A n f \<or> B n f) \<or> e \<in> ?D f \<or> (\<exists>h. (f, h) \<in> ?R \<and> (A n h \<or> B n h))"
    using Suc.IH by (simp add: spread_step A_def B_def)
  then have "e \<in> (spread d calls ^^ Suc n) x f \<longleftrightarrow> A (Suc n) f \<or> B (Suc n) f"
    using A B mono by blast
  then show ?case unfolding A_def B_def .
qed auto

definition call_graph :: "walk_env \<Rightarrow> hir_fn list \<Rightarrow> (fn_id \<times> fn_id) set" where
  "call_graph env fns = {(f, h). f < length fns \<and> (\<exists>b c. fn_body (fns ! f) = Some b \<and>
     c \<in> set (concat (map (own_calls (we_defs env)) (reached_block b))) \<and>
     Option.bind (fn_def_of (we_defs env) c) fd_hir_fn = Some h)}"

definition body_effs :: "walk_env \<Rightarrow> hir_fn list \<Rightarrow> fn_id \<Rightarrow> effect_id set" where
  "body_effs env fns f = {e. f < length fns \<and> (\<exists>b. fn_body (fns ! f) = Some b \<and> e \<in> effs env (reached_block b))}"

definition callee_decls :: "walk_env \<Rightarrow> hir_fn list \<Rightarrow> fn_id \<Rightarrow> effect_id set" where
  "callee_decls env fns f = {e. f < length fns \<and> (\<exists>b c def. fn_body (fns ! f) = Some b \<and>
     c \<in> set (concat (map (own_calls (we_defs env)) (reached_block b))) \<and>
     fn_def_of (we_defs env) c = Some def \<and> e \<in> set (fd_effects def))}"

lemma opt_entries:
  fixes g :: "nat \<Rightarrow> 'b option" and h :: "'b \<Rightarrow> 'c"
  defines "xs \<equiv> \<lambda>n. concat (map (\<lambda>i. case g i of None \<Rightarrow> [] | Some b \<Rightarrow> [(i, h b)]) [0..<n])"
  shows "map_of (xs n) f = (if f < n then map_option h (g f) else None)"
    "(f, y) \<in> set (xs n) \<longleftrightarrow> f < n \<and> (\<exists>b. g f = Some b \<and> y = h b)"
proof -
  show "(f, y) \<in> set (xs n) \<longleftrightarrow> f < n \<and> (\<exists>b. g f = Some b \<and> y = h b)"
    unfolding xs_def by (cases "g f") (auto split: option.splits, force)
  show "map_of (xs n) f = (if f < n then map_option h (g f) else None)"
    unfolding xs_def by (induction n) (auto simp: map_add_def less_Suc_eq split: option.splits if_splits)
qed

lemma infer_effects_paths:
  assumes "row_table_ok (we_defs env)" "known_ok (we_known env)"
  shows "infer_effects env idx fns f =
    (if f < length fns \<and> fn_body (fns ! f) \<noteq> None
     then Some {e. (\<exists>k\<le>32. \<exists>g. (f, g) \<in> call_graph env fns ^^ k \<and> e \<in> body_effs env fns g) \<or>
                   (\<exists>k<32. \<exists>g. (f, g) \<in> call_graph env fns ^^ k \<and> e \<in> callee_decls env fns g)}
     else None)"
proof -
  let ?d = "we_defs env"
  define hb where "hb b = (effs env (reached_block b), concat (map (own_calls ?d) (reached_block b)))" for b
  have "walk_block_effects b env idx ({}, []) = hb b" for b
    by (simp add: walk_is_coll [OF assms] coll_def hb_def)
  then have cb: "collect_bodies env idx fns =
      concat (map (\<lambda>i. case fn_body (fns ! i) of None \<Rightarrow> [] | Some b \<Rightarrow> [(i, hb b)]) [0..<length fns])"
    by (auto simp: collect_bodies_def intro!: arg_cong [where f = concat] split: option.split)
  define calls where "calls = map (\<lambda>(i, s). (i, snd s)) (collect_bodies env idx fns)"
  define tab where "tab = map_of (map (\<lambda>(i, s). (i, fst s)) (collect_bodies env idx fns))"
  have tab: "tab g = (if g < length fns then map_option (\<lambda>b. fst (hb b)) (fn_body (fns ! g)) else None)" for g
    unfolding tab_def map_of_map cb using opt_entries(1) [where g = "\<lambda>i. fn_body (fns ! i)" and h = hb] by (auto simp: option.map_comp comp_def)
  have calls: "(g, cs) \<in> set calls \<longleftrightarrow> g < length fns \<and> (\<exists>b. fn_body (fns ! g) = Some b \<and> cs = snd (hb b))" for g cs
    unfolding calls_def cb using opt_entries(2) [where f = g and g = "\<lambda>i. fn_body (fns ! i)" and h = hb] by force
  have dom: "fst ` set calls \<subseteq> dom tab"
    using calls by (auto simp: tab dom_def)
  have R: "call_step ?d calls = call_graph env fns"
    unfolding call_step_def call_graph_def calls by (auto simp: hb_def) (blast+)
  have D: "declared_by_callees ?d calls g = callee_decls env fns g" for g
    unfolding declared_by_callees_def callee_decls_def calls by (auto simp: hb_def) (blast+)
  have E: "effs_at tab g = body_effs env fns g" for g
    unfolding effs_at_def body_effs_def tab by (auto simp: hb_def split: option.splits)
  have inf: "infer_effects env idx fns = effect_rounds 32 ?d calls tab"
    by (simp add: infer_effects_def calls_def tab_def Let_def)
  note rs = effect_rounds_spread [OF dom, of 32 ?d]
  have none: "infer_effects env idx fns f = None \<longleftrightarrow> \<not> (f < length fns \<and> fn_body (fns ! f) \<noteq> None)"
    using rs unfolding inf by (metis domIff map_option_is_None tab)
  have "effs_at (infer_effects env idx fns) f =
      {e. (\<exists>k\<le>32. \<exists>g. (f, g) \<in> call_graph env fns ^^ k \<and> e \<in> body_effs env fns g) \<or>
          (\<exists>k<32. \<exists>g. (f, g) \<in> call_graph env fns ^^ k \<and> e \<in> callee_decls env fns g)}"
    using spread_paths [where d = ?d and calls = calls and n = 32 and x = "effs_at tab" and f = f] unfolding inf rs [THEN conjunct1] R D E by blast
  then show ?thesis using none by (auto simp: effs_at_def split: option.splits)
qed

text \<open>C9. Effect inference is exact up to its bound. A function with a body is assigned exactly the
  effects of the bodies it reaches by at most 32 calls, together with the effects declared by the
  callees of functions it reaches by fewer than 32 calls; a function without a body has no entry.
  Effects further away along the call graph are not found.\<close>

theorem infer_effects_exact:
  assumes "row_table_ok (we_defs env)" "known_ok (we_known env)"
  shows "infer_effects env idx fns f =
    (if f < length fns \<and> fn_body (fns ! f) \<noteq> None
     then Some {e. (\<exists>k\<le>32. \<exists>g. (f, g) \<in> call_graph env fns ^^ k \<and> e \<in> body_effs env fns g) \<or>
                   (\<exists>k<32. \<exists>g. (f, g) \<in> call_graph env fns ^^ k \<and> e \<in> callee_decls env fns g)}
     else None)"
  by (rule infer_effects_paths [OF assms])

definition sample_fn :: hir_fn where
  "sample_fn = \<lparr>fn_name = ''main'', fn_is_pub = True, fn_is_unsafe = False, fn_generics = [], fn_params = [],
     fn_ret = None, fn_effects = [], fn_effect_row = None,
     fn_body = Some (Block [] (Some (ECall (EPath [''fs'', ''read'']) []))), fn_tool_attr = None,
     fn_is_variadic = False, fn_span = \<lparr>sp_start = 0, sp_end = 0\<rparr>\<rparr>"

theorem infer_effects_exact_witness:
  "\<exists>S. infer_effects \<lparr>we_defs = install_row_poly_methods DefMap_default, we_known = sample_known\<rparr> {} [sample_fn] 0 =
     Some S \<and> k_fs sample_known \<in> S"
proof -
  let ?env = "\<lparr>we_defs = install_row_poly_methods DefMap_default, we_known = sample_known\<rparr>"
  have "row_table_ok (we_defs ?env)" "known_ok (we_known ?env)" using sample_ok by simp_all
  note ex = infer_effects_exact [OF this, of "{}" "[sample_fn]" 0]
  have "k_fs sample_known \<in> body_effs ?env [sample_fn] 0"
    by (simp add: body_effs_def sample_fn_def effs_def own_effects_def cap_effects_def opt_exprs_def)
  then have "\<exists>k\<le>32. \<exists>g. (0, g) \<in> call_graph ?env [sample_fn] ^^ k \<and> k_fs sample_known \<in> body_effs ?env [sample_fn] g"
    by (metis le0 relpow_0_I)
  moreover have "0 < length [sample_fn] \<and> fn_body ([sample_fn] ! 0) \<noteq> None" by (simp add: sample_fn_def)
  ultimately show ?thesis unfolding ex by simp
qed

end
