(* ===== verification/Ty_EffectCheck.thy ===== *)
theory Ty_EffectCheck
  imports Ty_Effects
begin

text \<open>
  The checks around effect inference in \<^verbatim>\<open>crates/mty-types/src/effects.rs\<close>: the interning of the
  built-in effects, the index of row-polymorphic user functions with its declaration-time
  diagnostics, and the comparison of the inferred effects of public functions with the declared ones.
  A diagnostic is the call of its constructor function in \<^verbatim>\<open>crates/mty-types/src/diag.rs\<close> with the
  arguments of that call. The call-site checks of \<^verbatim>\<open>validate_row_dispatch\<close> and
  \<^verbatim>\<open>validate_user_row_dispatch\<close>, which only add diagnostics between inference and this comparison,
  are not modelled.
\<close>

datatype effect_diag =
    EffectUndeclared string "string list" source_span
  | AllocInCore string source_span
  | RowVarInConcreteOnly string string source_span
  | RowVarUnused string string source_span
  | RowVarReturnedButUnbound string string source_span

section \<open>Built-in effects\<close>

definition intern_known :: "def_map \<Rightarrow> def_map \<times> known_effects" where
  "intern_known d0 =
     (let (d1, alloc) = intern_effect ''alloc'' d0;
          (d2, net) = intern_effect ''net'' d1;
          (d3, fs) = intern_effect ''fs'' d2;
          (d4, clock) = intern_effect ''time'' d3;
          (d5, dom) = intern_effect ''dom'' d4;
          (d6, model) = intern_effect ''model'' d5;
          (d7, spawn) = intern_effect ''spawn'' d6;
          (d8, unsafe_e) = intern_effect ''unsafe'' d7
      in (d8, \<lparr>k_alloc = alloc, k_net = net, k_fs = fs, k_clock = clock, k_dom = dom, k_model = model,
               k_spawn = spawn, k_time = clock, k_unsafe = unsafe_e\<rparr>))"

section \<open>Row-polymorphic user functions\<close>

record user_row_poly_meta =
  um_row_vars :: "string list"
  um_fn_typed_param_count :: nat
  um_span :: source_span
  um_name :: string
  um_concrete_effects :: "string list"

record user_row_poly_index =
  ui_fns :: "fn_id set"
  ui_meta :: "fn_id \<rightharpoonup> user_row_poly_meta"

text \<open>\<open>is_fn\<close> tells of a type of the package whether it is a function type.\<close>

definition fn_typed_params :: "(type_id \<Rightarrow> bool) \<Rightarrow> hir_fn \<Rightarrow> nat" where
  "fn_typed_params is_fn f =
     length (filter (\<lambda>p. case hp_ty p of Some t \<Rightarrow> is_fn t | None \<Rightarrow> False) (fn_params f))"

definition index_fn ::
  "(type_id \<Rightarrow> bool) \<Rightarrow> user_row_poly_index \<times> effect_diag list \<Rightarrow> fn_id \<times> hir_fn \<Rightarrow>
   user_row_poly_index \<times> effect_diag list" where
  "index_fn is_fn st fidf =
     (let (idx, diags) = st; (fid, f) = fidf
      in case fn_effect_row f of
           Some (RowOpen concrete row_vars) \<Rightarrow>
             (let n = fn_typed_params is_fn f;
                  names = map rv_name row_vars;
                  first = (case names of [] \<Rightarrow> ''E'' | v # _ \<Rightarrow> v)
              in if n = 0
                 then (idx, diags @
                        [if concrete \<noteq> [] then RowVarInConcreteOnly (fn_name f) first (fn_span f)
                         else if length (fn_params f) \<ge> 2 then RowVarUnused (fn_name f) first (fn_span f)
                         else RowVarReturnedButUnbound (fn_name f) first (fn_span f)])
                 else (\<lparr>ui_fns = insert fid (ui_fns idx),
                        ui_meta = (ui_meta idx)(fid \<mapsto>
                          \<lparr>um_row_vars = names, um_fn_typed_param_count = n, um_span = fn_span f,
                           um_name = fn_name f, um_concrete_effects = concrete\<rparr>)\<rparr>, diags))
         | _ \<Rightarrow> (idx, diags))"

definition build_user_row_poly_index ::
  "(type_id \<Rightarrow> bool) \<Rightarrow> hir_fn list \<Rightarrow> effect_diag list \<Rightarrow> user_row_poly_index \<times> effect_diag list" where
  "build_user_row_poly_index is_fn fns diags =
     foldl (index_fn is_fn) (\<lparr>ui_fns = {}, ui_meta = Map.empty\<rparr>, diags) (zip [0..<length fns] fns)"

lemma intern_effect_bound:
  assumes "effects_ok d" "length (dm_effects d) \<le> m"
  shows "effects_ok (fst (intern_effect n d)) \<and> snd (intern_effect n d) \<le> m \<and>
    length (dm_effects (fst (intern_effect n d))) \<le> Suc m \<and>
    row_sig_of (fst (intern_effect n d)) = row_sig_of d"
proof -
  have "i < length (dm_effects d)" if i: "map_of (dm_effects d) n = Some i" for i
  proof -
    have "i \<in> set (map snd (dm_effects d))" using map_of_SomeD [OF i] by force
    also have "map snd (dm_effects d) = [0..<length (dm_effects d)]" using assms(1) by (simp add: effects_ok_def)
    finally show ?thesis by simp
  qed
  then show ?thesis
    using assms intern_effect_step(1) [OF assms(1), of n]
    by (cases "map_of (dm_effects d) n") (fastforce simp: intern_effect_def Let_def row_sig_of_def fun_eq_iff)+
qed

text \<open>The identifiers handed out for the built-in effects stay clear of the placeholder.\<close>

lemma intern_known_ok:
  assumes ok: "effects_ok d" and len: "length (dm_effects d) + 8 < ALLOC_PLACEHOLDER"
  shows "effects_ok (fst (intern_known d)) \<and> known_ok (snd (intern_known d)) \<and>
    row_sig_of (fst (intern_known d)) = row_sig_of d"
proof -
  let ?n = "length (dm_effects d)"
  define d1 where "d1 = fst (intern_effect ''alloc'' d)"
  define d2 where "d2 = fst (intern_effect ''net'' d1)"
  define d3 where "d3 = fst (intern_effect ''fs'' d2)"
  define d4 where "d4 = fst (intern_effect ''time'' d3)"
  define d5 where "d5 = fst (intern_effect ''dom'' d4)"
  define d6 where "d6 = fst (intern_effect ''model'' d5)"
  define d7 where "d7 = fst (intern_effect ''spawn'' d6)"
  note ds = d1_def d2_def d3_def d4_def d5_def d6_def d7_def
  have b1: "effects_ok d1 \<and> snd (intern_effect ''alloc'' d) \<le> ?n \<and> length (dm_effects d1) \<le> Suc ?n \<and> row_sig_of d1 = row_sig_of d"
    unfolding d1_def by (rule intern_effect_bound [OF ok]) simp
  have b2: "effects_ok d2 \<and> snd (intern_effect ''net'' d1) \<le> ?n + 1 \<and> length (dm_effects d2) \<le> Suc (?n + 1) \<and> row_sig_of d2 = row_sig_of d1"
    unfolding d2_def by (rule intern_effect_bound) (use b1 in auto)
  have b3: "effects_ok d3 \<and> snd (intern_effect ''fs'' d2) \<le> ?n + 2 \<and> length (dm_effects d3) \<le> Suc (?n + 2) \<and> row_sig_of d3 = row_sig_of d2"
    unfolding d3_def by (rule intern_effect_bound) (use b2 in auto)
  have b4: "effects_ok d4 \<and> snd (intern_effect ''time'' d3) \<le> ?n + 3 \<and> length (dm_effects d4) \<le> Suc (?n + 3) \<and> row_sig_of d4 = row_sig_of d3"
    unfolding d4_def by (rule intern_effect_bound) (use b3 in auto)
  have b5: "effects_ok d5 \<and> snd (intern_effect ''dom'' d4) \<le> ?n + 4 \<and> length (dm_effects d5) \<le> Suc (?n + 4) \<and> row_sig_of d5 = row_sig_of d4"
    unfolding d5_def by (rule intern_effect_bound) (use b4 in auto)
  have b6: "effects_ok d6 \<and> snd (intern_effect ''model'' d5) \<le> ?n + 5 \<and> length (dm_effects d6) \<le> Suc (?n + 5) \<and> row_sig_of d6 = row_sig_of d5"
    unfolding d6_def by (rule intern_effect_bound) (use b5 in auto)
  have b7: "effects_ok d7 \<and> snd (intern_effect ''spawn'' d6) \<le> ?n + 6 \<and> length (dm_effects d7) \<le> Suc (?n + 6) \<and> row_sig_of d7 = row_sig_of d6"
    unfolding d7_def by (rule intern_effect_bound) (use b6 in auto)
  have b8: "effects_ok (fst (intern_effect ''unsafe'' d7)) \<and> snd (intern_effect ''unsafe'' d7) \<le> ?n + 7 \<and>
      length (dm_effects (fst (intern_effect ''unsafe'' d7))) \<le> Suc (?n + 7) \<and>
      row_sig_of (fst (intern_effect ''unsafe'' d7)) = row_sig_of d7"
    by (rule intern_effect_bound) (use b7 in auto)
  have "intern_known d = (fst (intern_effect ''unsafe'' d7),
      \<lparr>k_alloc = snd (intern_effect ''alloc'' d), k_net = snd (intern_effect ''net'' d1), k_fs = snd (intern_effect ''fs'' d2),
       k_clock = snd (intern_effect ''time'' d3), k_dom = snd (intern_effect ''dom'' d4),
       k_model = snd (intern_effect ''model'' d5), k_spawn = snd (intern_effect ''spawn'' d6),
       k_time = snd (intern_effect ''time'' d3), k_unsafe = snd (intern_effect ''unsafe'' d7)\<rparr>)"
    by (simp add: intern_known_def Let_def split_beta ds)
  then show ?thesis using b1 b2 b3 b4 b5 b6 b7 b8 len by (auto simp: known_ok_def)
qed

section \<open>Public functions\<close>

fun intern_all :: "string list \<Rightarrow> def_map \<Rightarrow> def_map \<times> effect_id set" where
  "intern_all [] d = (d, {})"
| "intern_all (n # ns) d =
     (let (d1, i) = intern_effect n d; (d2, is) = intern_all ns d1 in (d2, insert i is))"

text \<open>The hash set of inferred effects is enumerated in some order; the names are sorted at the end.\<close>

definition validate_pub_fn ::
  "profile \<Rightarrow> known_effects \<Rightarrow> effect_table \<Rightarrow> def_map \<times> effect_diag list \<Rightarrow> fn_id \<times> hir_fn \<Rightarrow>
   def_map \<times> effect_diag list" where
  "validate_pub_fn prof k tab st fidf =
     (let (d, diags) = st; (fid, f) = fidf
      in if \<not> fn_is_pub f then (d, diags)
         else case tab fid of
                None \<Rightarrow> (d, diags)
              | Some inferred \<Rightarrow>
                  if inferred = {} then (d, diags)
                  else (let (d', declared) = intern_all (fn_effects f) d;
                            missing = List.map_filter (effect_name d') (sorted_list_of_set (inferred - declared));
                            diags1 = (if missing = [] then diags
                                      else diags @ [EffectUndeclared (fn_name f) (sort missing) (fn_span f)])
                        in (d', if prof = Core \<and> k_alloc k \<in> inferred
                                then diags1 @ [AllocInCore (fn_name f) (fn_span f)] else diags1)))"

definition validate_public ::
  "profile \<Rightarrow> known_effects \<Rightarrow> effect_table \<Rightarrow> hir_fn list \<Rightarrow> def_map \<times> effect_diag list \<Rightarrow>
   def_map \<times> effect_diag list" where
  "validate_public prof k tab fns st = foldl (validate_pub_fn prof k tab) st (zip [0..<length fns] fns)"

section \<open>What the checks guarantee\<close>

definition effect_names_of :: "def_map \<Rightarrow> effect_id set \<Rightarrow> string set" where
  "effect_names_of d es = {n. \<exists>e\<in>es. effect_name d e = Some n}"

lemma effect_name_ex: "effects_ok d \<Longrightarrow> e < length (dm_effects d) \<Longrightarrow> \<exists>n. effect_name d e = Some n"
proof -
  assume ok: "effects_ok d" and e: "e < length (dm_effects d)"
  obtain n where n: "dm_effects d ! e = (n, e)" using effects_ok_nth [OF ok e] by (metis prod.collapse)
  then have "map_of (dm_effects d) n = Some e"
    using ok e by (metis effects_ok_def map_of_eq_Some_iff nth_mem)
  then show ?thesis using effect_name_iff [OF ok] by blast
qed

lemma intern_all_spec:
  assumes "effects_ok d" "intern_all ns d = (d', is)"
  shows "effects_ok d' \<and> map_of (dm_effects d) \<subseteq>\<^sub>m map_of (dm_effects d') \<and>
    is = {i. \<exists>n\<in>set ns. map_of (dm_effects d') n = Some i}"
  using assms
proof (induction ns arbitrary: d d' "is")
  case (Cons n ns)
  obtain d1 i where i: "intern_effect n d = (d1, i)" by fastforce
  obtain is1 where is1: "intern_all ns d1 = (d', is1)" "is = insert i is1"
    using Cons.prems i by (auto simp: Let_def split: prod.splits)
  note st = intern_effect_step [OF Cons.prems(1) i]
  note ih = Cons.IH [OF st(1) is1(1)]
  have "map_of (dm_effects d') n = Some i" using st(2) ih by (metis domI map_le_def)
  then show ?case using ih st(4) is1(2) map_le_trans by (auto simp: is1(2))
qed auto

text \<open>The diagnostics a function should get: the names of the inferred effects that it does not
  declare, and the allocation ban.\<close>

definition pub_diags :: "profile \<Rightarrow> known_effects \<Rightarrow> effect_table \<Rightarrow> def_map \<Rightarrow> fn_id \<times> hir_fn \<Rightarrow> effect_diag list" where
  "pub_diags prof k tab d fidf =
     (case tab (fst fidf) of
        None \<Rightarrow> []
      | Some inferred \<Rightarrow>
          let f = snd fidf; missing = sorted_list_of_set (effect_names_of d inferred - set (fn_effects f))
          in if \<not> fn_is_pub f then []
             else (if missing = [] then [] else [EffectUndeclared (fn_name f) missing (fn_span f)]) @
                  (if prof = Core \<and> k_alloc k \<in> inferred then [AllocInCore (fn_name f) (fn_span f)] else []))"

lemma effect_name_mono:
  "effects_ok d \<Longrightarrow> effects_ok d' \<Longrightarrow> map_of (dm_effects d) \<subseteq>\<^sub>m map_of (dm_effects d') \<Longrightarrow>
   effect_name d e = Some n \<Longrightarrow> effect_name d' e = Some n"
  by (metis domI effect_name_iff map_le_def)

lemma effect_names_mono:
  assumes ok: "effects_ok d" "effects_ok d'" and le: "map_of (dm_effects d) \<subseteq>\<^sub>m map_of (dm_effects d')"
    and es: "es \<subseteq> {..<length (dm_effects d)}"
  shows "effect_names_of d' es = effect_names_of d es"
proof -
  have "effect_name d' e = effect_name d e" if "e \<in> es" for e
    using effect_name_ex [OF ok(1), of e] effect_name_mono [OF ok le] es that by fastforce
  then show ?thesis by (auto simp: effect_names_of_def)
qed

lemma missing_names:
  assumes ok: "effects_ok d" and fin: "finite es"
    and dec: "declared = {i. \<exists>n\<in>set ns. map_of (dm_effects d) n = Some i}"
  shows "sort (List.map_filter (effect_name d) (sorted_list_of_set (es - declared))) =
    sorted_list_of_set (effect_names_of d es - set ns)"
proof -
  let ?xs = "sorted_list_of_set (es - declared)" and ?ms = "List.map_filter (effect_name d) (sorted_list_of_set (es - declared))"
  have inj: "effect_name d i = Some n \<Longrightarrow> effect_name d j = Some n \<Longrightarrow> i = j" for i j n
    using effect_name_iff [OF ok] by simp
  have "set ?ms = {n. \<exists>e\<in>es - declared. effect_name d e = Some n}"
    using fin by (auto simp: map_filter_def) (force simp: image_iff)
  also have "\<dots> = effect_names_of d es - set ns"
    unfolding effect_names_of_def dec effect_name_iff [OF ok, symmetric] by auto
  finally have set: "set ?ms = effect_names_of d es - set ns" .
  have "distinct (List.map_filter (effect_name d) zs)" if "distinct zs" for zs
    using that inj by (induction zs) (auto simp: map_filter_def split: option.splits dest: inj)
  then have "distinct ?ms" by simp
  then have "sorted_list_of_set (set ?ms) = sort ?ms"
    by (simp add: sorted_list_of_set_sort_remdups distinct_remdups_id)
  then show ?thesis using set by simp
qed

lemma validate_pub_fn_spec:
  assumes ok: "effects_ok d" and tab: "\<And>es. tab (fst fidf) = Some es \<Longrightarrow> es \<subseteq> {..<length (dm_effects d)}"
  shows "\<exists>d'. validate_pub_fn prof k tab (d, diags) fidf = (d', diags @ pub_diags prof k tab d fidf) \<and>
    effects_ok d' \<and> map_of (dm_effects d) \<subseteq>\<^sub>m map_of (dm_effects d')"
proof (cases "fn_is_pub (snd fidf) \<and> (\<exists>es. tab (fst fidf) = Some es \<and> es \<noteq> {})")
  case False
  then show ?thesis
    using ok by (cases fidf; cases "tab (fst fidf)")
      (auto simp: validate_pub_fn_def pub_diags_def effect_names_of_def Let_def)
next
  case True
  then obtain es where es: "tab (fst fidf) = Some es" "es \<noteq> {}" and pub: "fn_is_pub (snd fidf)" by blast
  obtain d' decl where id: "intern_all (fn_effects (snd fidf)) d = (d', decl)" by fastforce
  note sp = intern_all_spec [OF ok id]
  have le: "es \<subseteq> {..<length (dm_effects d)}" by (rule tab [OF es(1)])
  then have fin: "finite es" by (rule finite_subset) simp
  let ?ms = "List.map_filter (effect_name d') (sorted_list_of_set (es - decl))"
  have ms: "sort ?ms = sorted_list_of_set (effect_names_of d es - set (fn_effects (snd fidf)))"
    using missing_names [of d' es decl "fn_effects (snd fidf)"] sp fin effect_names_mono [OF ok _ _ le, of d'] by simp
  have "?ms = [] \<longleftrightarrow> sort ?ms = []" by (metis length_0_conv length_sort)
  then have "validate_pub_fn prof k tab (d, diags) fidf = (d', diags @ pub_diags prof k tab d fidf)"
    using es pub id ms by (auto simp: validate_pub_fn_def pub_diags_def Let_def split_beta simp del: sort_key_simps)
  then show ?thesis using sp by blast
qed

lemma pub_diags_mono:
  assumes "effects_ok d" "effects_ok d'" "map_of (dm_effects d) \<subseteq>\<^sub>m map_of (dm_effects d')"
    "\<And>es. tab (fst p) = Some es \<Longrightarrow> es \<subseteq> {..<length (dm_effects d)}"
  shows "pub_diags prof k tab d' p = pub_diags prof k tab d p"
  using effect_names_mono [OF assms(1-3)] assms(4) by (cases "tab (fst p)") (auto simp: pub_diags_def)

lemma effects_length_mono:
  assumes "effects_ok d" "effects_ok d'" "map_of (dm_effects d) \<subseteq>\<^sub>m map_of (dm_effects d')"
  shows "length (dm_effects d) \<le> length (dm_effects d')"
proof -
  have "dom (map_of (dm_effects d)) \<subseteq> dom (map_of (dm_effects d'))" using assms(3) by (rule map_le_implies_dom_le)
  then have "card (fst ` set (dm_effects d)) \<le> card (fst ` set (dm_effects d'))"
    unfolding dom_map_of_conv_image_fst by (intro card_mono) auto
  then show ?thesis using assms(1,2) by (simp add: effects_ok_def distinct_card flip: set_map)
qed

lemma validate_public_diags:
  assumes ok: "effects_ok d" and tab: "\<forall>f es. tab f = Some es \<longrightarrow> es \<subseteq> {..<length (dm_effects d)}"
  shows "snd (validate_public prof k tab fns (d, diags)) =
    diags @ concat (map (pub_diags prof k tab d) (zip [0..<length fns] fns))"
proof -
  have "snd (foldl (validate_pub_fn prof k tab) (d0, diags) ps) = diags @ concat (map (pub_diags prof k tab d) ps)"
    if "effects_ok d0" "map_of (dm_effects d) \<subseteq>\<^sub>m map_of (dm_effects d0)" for d0 ps diags
    using that
  proof (induction ps arbitrary: d0 diags)
    case (Cons p ps)
    have t0: "es \<subseteq> {..<length (dm_effects d0)}" if "tab (fst p) = Some es" for es
      using tab that effects_length_mono [OF ok Cons.prems] by fastforce
    obtain d' where d': "validate_pub_fn prof k tab (d0, diags) p = (d', diags @ pub_diags prof k tab d0 p)"
      "effects_ok d'" "map_of (dm_effects d0) \<subseteq>\<^sub>m map_of (dm_effects d')"
      using validate_pub_fn_spec [OF Cons.prems(1) t0] by blast
    have eq: "pub_diags prof k tab d0 p = pub_diags prof k tab d p"
      using tab by (intro pub_diags_mono [OF ok Cons.prems]) blast
    from map_le_trans [OF Cons.prems(2) d'(3)]
    show ?case using Cons.IH [OF d'(2)] d'(1) eq by simp
  qed simp
  from this [OF ok map_le_refl] show ?thesis by (simp add: validate_public_def)
qed

text \<open>C32. Public functions are checked against their declarations. When every inferred effect has been
  interned, the final pass appends, in the order of the functions and nothing else, one \<open>MT4001\<close> for
  every public function whose inferred effects are not all declared, listing exactly the undeclared
  names in sorted order, followed in the core profile by one \<open>MT4002\<close> if the function allocates. So a run
  without new diagnostics means that every public function declares all its inferred effects.\<close>

theorem public_effects_checked:
  assumes ok: "effects_ok d" and tab: "\<forall>f es. tab f = Some es \<longrightarrow> es \<subseteq> {..<length (dm_effects d)}"
  shows "snd (validate_public prof k tab fns (d, diags)) =
    diags @ concat (map (pub_diags prof k tab d) (zip [0..<length fns] fns))"
  by (rule validate_public_diags [OF assms])

theorem public_effects_checked_witness:
  "snd (validate_public Host sample_known (\<lambda>f. if f = 0 then Some {0} else None) [sample_fn]
      (fst (intern_effect ''alloc'' DefMap_default), [])) =
   [EffectUndeclared ''main'' [''alloc''] \<lparr>sp_start = 0, sp_end = 0\<rparr>]"
proof -
  define d where "d = fst (intern_effect ''alloc'' DefMap_default)"
  have d: "dm_effects d = [(''alloc'', 0)]" by (simp add: d_def intern_effect_def DefMap_default_def)
  have ok: "effects_ok d" by (simp add: effects_ok_def d)
  have "\<forall>f es. (if f = (0::nat) then Some {0} else None) = Some es \<longrightarrow> es \<subseteq> {..<length (dm_effects d)}"
    by (auto simp: d)
  note th = public_effects_checked [OF ok this, of Host sample_known "[sample_fn]" "[]"]
  have "effect_names_of d {0} = {''alloc''}" by (auto simp: effect_names_of_def effect_name_def d)
  then show ?thesis using th unfolding d_def by (simp add: pub_diags_def sample_fn_def)
qed

end
