(* ===== verification/Spec2Isabelle.thy ===== *)
theory Spec2Isabelle
  imports
    Pkg_Resolver
    Rt_Budget Rt_Supervisor Rt_Mailbox Rt_Placement Rt_Scheduler
    Fmt_Printer Lsp_Edits Mac_Expand
    Borrow_Polonius Borrow_Run
    Ty_Params Ty_EffectCheck
begin

text \<open>
  Verification of the core of the Mighty toolchain and runtime (the Rust workspace under
  \<^verbatim>\<open>src/crates\<close>). Paths below are relative to that directory; the theories follow the crates.

  \<^bold>\<open>The program.\<close> A Mighty package is parsed and lowered to the HIR. The type checker interns types,
  unifies them and infers the effects of every function; the borrow checker walks every body; what
  they find becomes diagnostics, some with a proposed fix that the command line or the editor applies;
  the formatter prints the source; the package manager picks the versions of the dependencies and
  writes the lockfile. Compiled agents run on the runtime: a scheduler with stealing workers, mailboxes
  over a slab of message buffers, budgets, supervisors, and a cluster of nodes that exchange frames.

  \<^bold>\<open>Foundations.\<close> \<open>Mty_Prelude\<close> has the machine integers, results, the string operations of the
  Rust library the sources use, and generic lemmas. \<open>Mty_Store\<close> states the contract of a keyed store
  as the locale \<open>keyed_store\<close>; the ordered map of the standard library and the lockfile are its
  interpretations. Rust strings are their UTF-8 bytes, \<open>u8\<close> to \<open>u64\<close> are words, vectors are lists, hash maps
  are maps or association lists in iteration order where the order can be seen.

  \<^bold>\<open>Front end.\<close>
  \<^item> \<open>Hir_Nodes\<close> (\<^verbatim>\<open>mty-hir/src/nodes.rs\<close>): expressions, blocks, statements and functions as trees.
  \<^item> \<open>Ty_Arena\<close> (\<^verbatim>\<open>mty-types/src/ty.rs\<close>): interned types; equal indices are equal types.
  \<^item> \<open>Ty_Infer\<close>, \<open>Ty_Params\<close> (\<^verbatim>\<open>infer.rs\<close>): substitutions, unification, parameter instantiation.
    Unification is sound, returns on every solvable substitution and keeps it solvable;
    instantiation refines substitution on trees.
  \<^item> \<open>Ty_Defs\<close> (\<^verbatim>\<open>defs.rs\<close>, \<^verbatim>\<open>prelude.rs\<close>), \<open>Ty_Rows\<close>, \<open>Ty_Effects\<close>, \<open>Ty_EffectCheck\<close> (\<^verbatim>\<open>effects.rs\<close>): the
    definition tables, effect rows with their unification, the body walk and its call-graph fixpoint,
    and the check of public functions. The walk is exact, the fixpoint is exact for 32 calls, and the
    parts are put together below: an accepted public function declares what it can perform.
  \<^item> \<open>Borrow_State\<close>, \<open>Borrow_Nll\<close>, \<open>Borrow_Diag\<close>, \<open>Borrow_Copy\<close>, \<open>Borrow_Flow\<close> (\<^verbatim>\<open>mty-borrow/src\<close>:
    \<^verbatim>\<open>place.rs\<close>, \<^verbatim>\<open>state.rs\<close>, \<^verbatim>\<open>nll.rs\<close>, \<^verbatim>\<open>diag.rs\<close>, \<^verbatim>\<open>copy.rs\<close>, \<^verbatim>\<open>sendable.rs\<close>, \<^verbatim>\<open>flow.rs\<close>): the whole ownership and
    borrow walk. \<open>Borrow_Frames\<close> has what every walk keeps, whatever the program. \<open>Borrow_Avail\<close> is
    a small semantics of moves and initialisation with a sound one-pass checker; \<open>Borrow_Sound\<close>
    reads bodies as its commands and shows that the walker simulates the checker on a fragment, so that
    accepted bodies do not use moved or uninitialised locals. \<open>Borrow_Run\<close> evaluates the walker on
    concrete bodies and shows what it misses outside the fragment.
  \<^item> \<open>Borrow_Polonius\<close> (\<^verbatim>\<open>polonius.rs\<close>): the overlay of facts and rules, its solver and its walker.

  \<^item> \<open>Mac_Expand\<close> (\<^verbatim>\<open>mty-macros/src\<close>: \<^verbatim>\<open>scopes.rs\<close>, \<^verbatim>\<open>hygiene.rs\<close>, \<^verbatim>\<open>token.rs\<close>, \<^verbatim>\<open>registry.rs\<close>, \<^verbatim>\<open>expand.rs\<close>): macro
    expansion on tokens with scope sets; expansion is hygienic and resolution picks the largest set.

  \<^bold>\<open>Tools.\<close>
  \<^item> \<open>Diag_Fix\<close>, \<open>Diag_Apply\<close> (\<^verbatim>\<open>mty-diagnostics/src/fix.rs\<close>, \<^verbatim>\<open>apply.rs\<close>): fixes as unified diffs and
    their application. The contract between emitter and applier is the locale \<open>fix_format\<close>.
  \<^item> \<open>Lsp_Edits\<close> (\<^verbatim>\<open>mty-lsp/src/line_index.rs\<close>, \<^verbatim>\<open>diff_apply.rs\<close>): editor positions and the same fixes as
    text edits, which agree with the applier except on the last line.
  \<^item> \<open>Fmt_Printer\<close> (\<^verbatim>\<open>mty-fmt/src/doc.rs\<close>, \<^verbatim>\<open>printer.rs\<close>): documents and the layout engine, against
    a recursive layout.
  \<^item> \<open>Pkg_Semver\<close>, \<open>Pkg_Lockfile\<close>, \<open>Pkg_Resolver\<close> (\<^verbatim>\<open>mty-pkg/src\<close>): versions and requirements, the
    lockfile, and the resolution walk, which ends and returns what the requirements select.

  \<^bold>\<open>Runtime.\<close> (\<^verbatim>\<open>mty-runtime/src\<close>)
  \<^item> \<open>Rt_Error\<close>, \<open>Rt_Budget\<close> (\<^verbatim>\<open>error.rs\<close>, \<^verbatim>\<open>budget.rs\<close>): errors and resource limits.
  \<^item> \<open>Rt_Slab\<close> (\<^verbatim>\<open>slab_pool.rs\<close>): message buffers; the locale \<open>buffer_pool\<close> is what the mailbox relies
    on, and the pool its interpretation. \<open>Rt_Mailbox\<close> (\<^verbatim>\<open>mailbox.rs\<close>): admission and batches.
  \<^item> \<open>Rt_Locality\<close>, \<open>Rt_Scheduler\<close> (\<^verbatim>\<open>scheduler\<close>): the steal order, and the scheduler as atomic steps in
    any interleaving: no task is lost or run twice, and a worker left alone drains all queues. The
    deques are a crate and a parameter, with the locale \<open>steal_queue\<close> as contract.
  \<^item> \<open>Rt_Supervisor\<close> (\<^verbatim>\<open>supervisor.rs\<close>, \<^verbatim>\<open>supervisor_orchestrator.rs\<close>): restart intensity and backoff.
  \<^item> \<open>Rt_Cluster\<close>, \<open>Rt_Placement\<close> (\<^verbatim>\<open>cluster\<close>): addresses, frames, the correlation of replies,
    placement policies and the supervisor of a cluster.

  \<^bold>\<open>Bounds and fuel.\<close> Loops whose end depends on data carry fuel or are partial functions, and a lemma
  says that they return. Unification: on a solvable substitution some fuel is enough and more
  gives the same answer. The resolver: the number of reachable package names. \<open>is_sendable\<close>: the
  square of the arena size, as the path never repeats a definition. \<open>substitute_params\<close>: one above
  the index. The printer loops end by the size of their stack, hunk parsing by the lines left. The
  limits of 32 rounds, in the effect fixpoint, the loop walk and the Polonius solver, and of the frame
  size are those of the code.

  \<^bold>\<open>Parameters.\<close> Code outside the workspace is an argument: the CBOR codec, the Tokio channel, the deque
  crate, the generated lexer, the file system and manifest loader of the resolver, the detected
  topology. What is assumed
  of them are the hypotheses of the theorems that need it, each with a concrete instance. Clocks and
  iteration orders of hash maps are arguments as well. Atomic operations are single steps.

  \<^bold>\<open>Not modelled.\<close> Lexer and parser (generated by \<^verbatim>\<open>logos\<close>, on \<^verbatim>\<open>rowan\<close> trees) and what works on syntax
  trees: HIR lowering, macro declarations, the formatter's rules. The bidirectional type checker, trait
  resolution, capability and taint checks, and the call-site row validators, which only add
  diagnostics. The intermediate representation, its interpreter and the code generators, which are
  bindings to Cranelift, LLVM and wasm encoders; only the evaluation order of assignments is
  taken from the lowering. The text catalogue of fix proposals, rendering and JSON. Fetching, signing
  and publishing of packages; TLS transport, migration, replay, hot reload and telemetry;
  the command line, the rest of the language server, documentation tools and standard library, which are I/O. The Go,
  Python and self-hosted implementations.
\<close>

section \<open>Effect discipline: inference and check together\<close>

text \<open>C7. Effect discipline of accepted packages. The effects are interned, every body is walked, the
  call graph is closed and the public functions are checked, as \<open>infer_and_validate\<close> composes them.
  If that reports nothing, a public function declares the name of every effect that is performed by
  itself or by any function it reaches through at most 32 direct calls.\<close>

theorem effect_discipline:
  assumes ok: "effects_ok d0" "length (dm_effects d0) + 8 < ALLOC_PLACEHOLDER" "row_table_ok d0"
    and known: "intern_known d0 = (d, kn)"
    and interned: "\<forall>f es. infer_effects \<lparr>we_defs = d, we_known = kn\<rparr> idx fns f = Some es \<longrightarrow> es \<subseteq> {..<length (dm_effects d)}"
    and accepted: "snd (validate_public prof kn (infer_effects \<lparr>we_defs = d, we_known = kn\<rparr> idx fns) fns (d, [])) = []"
    and f: "f < length fns" "fn_is_pub (fns ! f)" "fn_body (fns ! f) = Some b"
    and path: "(f, g) \<in> call_graph \<lparr>we_defs = d, we_known = kn\<rparr> fns ^^ k" "k \<le> 32"
    and e: "e \<in> body_effs \<lparr>we_defs = d, we_known = kn\<rparr> fns g"
  shows "\<exists>n \<in> set (fn_effects (fns ! f)). effect_name d e = Some n"
proof -
  let ?env = "\<lparr>we_defs = d, we_known = kn\<rparr>"
  have kok: "effects_ok d" "known_ok (we_known ?env)" "row_table_ok (we_defs ?env)"
    using intern_known_ok [OF ok(1,2)] ok(3) known by (auto simp: row_table_ok_def)
  obtain es where es: "infer_effects ?env idx fns f = Some es" "e \<in> es"
    using infer_effects_paths [OF kok(3,2), of idx fns f] f path e by auto
  have "concat (map (pub_diags prof kn (infer_effects ?env idx fns) d) (zip [0..<length fns] fns)) = []"
    using accepted validate_public_diags [OF kok(1) interned] by simp
  moreover have "(f, fns ! f) \<in> set (zip [0..<length fns] fns)" using f(1) by (force simp: set_zip)
  ultimately have "pub_diags prof kn (infer_effects ?env idx fns) d (f, fns ! f) = []" by fastforce
  then have "sorted_list_of_set (effect_names_of d es - set (fn_effects (fns ! f))) = []"
    using es(1) f(2) by (auto simp: pub_diags_def Let_def split: if_splits)
  moreover have "es \<subseteq> {..<length (dm_effects d)}" using interned es(1) by blast
  moreover obtain n where n: "effect_name d e = Some n"
    using effect_name_ex [OF kok(1), of e] calculation(2) es(2) by auto
  moreover have "effect_names_of d es \<subseteq> fst ` set (dm_effects d)"
    by (auto simp: effect_names_of_def effect_name_def dest!: find_SomeD intro: rev_image_eqI)
  then have "finite (effect_names_of d es)" by (rule finite_subset) simp
  ultimately have "n \<in> set (fn_effects (fns ! f))"
    using es(2) by (auto simp: effect_names_of_def)
  with n show ?thesis by blast
qed

definition declared_fn :: hir_fn where
  "declared_fn = sample_fn\<lparr>fn_effects := [''fs'']\<rparr>"

definition sample_defs :: def_map where
  "sample_defs = install_row_poly_methods DefMap_default"

definition sample_effects :: "(string \<times> effect_id) list" where
  "sample_effects = [(''alloc'', 0), (''net'', 1), (''fs'', 2), (''time'', 3), (''dom'', 4), (''model'', 5),
     (''spawn'', 6), (''unsafe'', 7)]"

lemma sample_defs_effects: "dm_effects sample_defs = []"
proof -
  have "dm_effects (foldl register_row_poly d ps) = dm_effects d" for d ps
    by (induction ps arbitrary: d) (auto simp: register_row_poly_def Let_def)
  then show ?thesis by (simp add: sample_defs_def install_row_poly_methods_def DefMap_default_def)
qed

lemma sample_intern: "intern_known sample_defs = (sample_defs\<lparr>dm_effects := sample_effects\<rparr>, sample_known)"
  by (simp add: intern_known_def intern_effect_def sample_defs_effects sample_effects_def sample_known_def Let_def)

lemma sample_infer:
  defines "env \<equiv> \<lparr>we_defs = sample_defs\<lparr>dm_effects := sample_effects\<rparr>, we_known = sample_known\<rparr>"
  shows "infer_effects env {} [declared_fn] = [0 \<mapsto> {2}]"
    "2 \<in> body_effs env [declared_fn] 0"
proof -
  have "row_table_ok (we_defs env)" "known_ok (we_known env)"
    using sample_ok unfolding env_def sample_defs_def by (simp_all add: row_table_ok_def row_sig_of_def)
  note w = walk_is_coll(2) [OF this]
  have b: "coll env (reached_block (Block [] (Some (ECall (EPath [''fs'', ''read'']) [])))) ({}, []) = ({2}, [])"
    by (simp add: coll_def effs_def own_effects_def own_calls_def cap_effects_def container_effects_def
        opt_exprs_def env_def sample_known_def)
  have c: "collect_bodies env {} [declared_fn] = [(0, ({2}, []))]"
    unfolding collect_bodies_def w using b by (simp add: declared_fn_def sample_fn_def)
  have "effect_rounds (Suc 31) d [(0, [])] [0 \<mapsto> {2}] = [0 \<mapsto> {2}]" for d
    unfolding effect_rounds.simps effect_round_def by simp
  then show "infer_effects env {} [declared_fn] = [0 \<mapsto> {2}]"
    by (simp add: infer_effects_def c Let_def)
  show "2 \<in> body_effs env [declared_fn] 0"
    by (simp add: body_effs_def declared_fn_def sample_fn_def effs_def own_effects_def cap_effects_def
        opt_exprs_def env_def sample_known_def)
qed

theorem effect_discipline_witness:
  "\<exists>n \<in> set (fn_effects declared_fn). effect_name (sample_defs\<lparr>dm_effects := sample_effects\<rparr>) 2 = Some n"
proof -
  let ?env = "\<lparr>we_defs = sample_defs\<lparr>dm_effects := sample_effects\<rparr>, we_known = sample_known\<rparr>"
  have 1: "effects_ok sample_defs" "length (dm_effects sample_defs) + 8 < ALLOC_PLACEHOLDER" "row_table_ok sample_defs"
    using sample_ok(1) [folded sample_defs_def] by (simp_all add: effects_ok_def sample_defs_effects ALLOC_PLACEHOLDER_def)
  have 2: "\<forall>f es. infer_effects ?env {} [declared_fn] f = Some es \<longrightarrow>
      es \<subseteq> {..<length (dm_effects (sample_defs\<lparr>dm_effects := sample_effects\<rparr>))}"
    unfolding sample_infer by (simp add: sample_effects_def)
  have 3: "snd (validate_public Host sample_known (infer_effects ?env {} [declared_fn]) [declared_fn]
      (sample_defs\<lparr>dm_effects := sample_effects\<rparr>, [])) = []"
    unfolding sample_infer by (simp add: validate_public_def validate_pub_fn_def declared_fn_def sample_fn_def
        intern_effect_def sample_effects_def Let_def map_filter_simps)
  have 4: "fn_is_pub ([declared_fn] ! 0)" "fn_body ([declared_fn] ! 0) = Some (Block [] (Some (ECall (EPath [''fs'', ''read'']) [])))"
    by (simp_all add: declared_fn_def sample_fn_def)
  show ?thesis
    using effect_discipline [OF 1 sample_intern 2 3 _ 4, of 0 0, OF _ _ _ sample_infer(2)] by simp
qed

end
